(* ===== verification/Prelude.thy ===== *)
theory Prelude
  imports Main "HOL-Library.Word"
begin

text \<open>
  Shared vocabulary of the claire-common development.

  \<^item> Failures. The debug build (the default of \<^verbatim>\<open>build.sh\<close> and of \<^verbatim>\<open>CMakeLists.txt\<close>) is
    modelled, so a failing \<^verbatim>\<open>CHECK\<close>, \<^verbatim>\<open>DCHECK\<close> or \<^verbatim>\<open>assert\<close> ends the process. Such an end, a
    thrown exception and an access outside an array are values of \<open>failure\<close>; an operation that can
    end so has type \<open>'a result\<close>, with \<open>Inl\<close> for the failure.
  \<^item> Integers. A C++ \<open>int\<close> or \<open>int64_t\<close> is a HOL \<open>int\<close> and every arithmetic operation of the
    source that can leave the type's range goes through \<open>i32\<close> or \<open>i64\<close>, which reduce to two's
    complement. A \<open>size_t\<close> that counts elements is a \<open>nat\<close>; where the source subtracts two of
    them without a guard, \<open>size_sub\<close> writes the wrap-around out.
  \<^item> Vectors. \<open>vec_get\<close> and \<open>vec_set\<close> are \<open>operator[]\<close> with the out-of-range access as a failure.
\<close>

named_theorems width_simps "facts that remove a width reduction inside its range"
named_theorems res_simps "equations that run the result type"

subsection \<open>Failures and results\<close>

datatype failure =
    Check_Failed
  | Dcheck_Failed
  | Out_Of_Bounds
  | Length_Error
  | Invalid_Argument string
  | Bad_Get
  | Aborted
  | Not_Reached
  | Dangling_Pointer
  | Undefined_Shift
  | Divide_By_Zero

type_synonym 'a result = "failure + 'a"

definition bindR :: "'a result \<Rightarrow> ('a \<Rightarrow> 'b result) \<Rightarrow> 'b result" where
  "bindR m f = (case m of Inl e \<Rightarrow> Inl e | Inr x \<Rightarrow> f x)"

definition CHECK :: "bool \<Rightarrow> 'a result \<Rightarrow> 'a result" where
  "CHECK b m = (if b then m else Inl Check_Failed)"

definition DCHECK :: "bool \<Rightarrow> 'a result \<Rightarrow> 'a result" where
  "DCHECK b m = (if b then m else Inl Dcheck_Failed)"

lemma bindR_simps [simp, res_simps]:
  "bindR (Inl e) f = Inl e"
  "bindR (Inr x) f = f x"
  by (simp_all add: bindR_def)

lemma CHECK_simps [simp, res_simps]:
  "CHECK True m = m"
  "CHECK False m = Inl Check_Failed"
  by (simp_all add: CHECK_def)

lemma DCHECK_simps [simp, res_simps]:
  "DCHECK True m = m"
  "DCHECK False m = Inl Dcheck_Failed"
  by (simp_all add: DCHECK_def)

lemma bindR_Inr_iff [simp]: "bindR m f = Inr y \<longleftrightarrow> (\<exists>x. m = Inr x \<and> f x = Inr y)"
  by (cases m) auto

lemma CHECK_Inr_iff [simp]: "CHECK b m = Inr y \<longleftrightarrow> b \<and> m = Inr y"
  by (simp add: CHECK_def)

lemma DCHECK_Inr_iff [simp]: "DCHECK b m = Inr y \<longleftrightarrow> b \<and> m = Inr y"
  by (simp add: DCHECK_def)

lemma bindR_assoc: "bindR (bindR m f) g = bindR m (\<lambda>x. bindR (f x) g)"
  by (cases m) auto

lemma bindR_cong [fundef_cong]:
  "m = m' \<Longrightarrow> (\<And>x. m' = Inr x \<Longrightarrow> f x = f' x) \<Longrightarrow> bindR m f = bindR m' f'"
  by (cases m') auto

lemma CHECK_cong [fundef_cong]:
  "b = b' \<Longrightarrow> (b' \<Longrightarrow> m = m') \<Longrightarrow> CHECK b m = CHECK b' m'"
  by (auto simp: CHECK_def)

lemma DCHECK_cong [fundef_cong]:
  "b = b' \<Longrightarrow> (b' \<Longrightarrow> m = m') \<Longrightarrow> DCHECK b m = DCHECK b' m'"
  by (auto simp: DCHECK_def)

subsection \<open>Vectors\<close>

definition vec_get :: "'a list \<Rightarrow> nat \<Rightarrow> 'a result" where
  "vec_get xs i = (if i < length xs then Inr (xs ! i) else Inl Out_Of_Bounds)"

definition vec_set :: "'a list \<Rightarrow> nat \<Rightarrow> 'a \<Rightarrow> 'a list result" where
  "vec_set xs i v = (if i < length xs then Inr (xs[i := v]) else Inl Out_Of_Bounds)"

lemma vec_get_in [simp, res_simps]: "i < length xs \<Longrightarrow> vec_get xs i = Inr (xs ! i)"
  by (simp add: vec_get_def)

lemma vec_get_Inr_iff [simp]: "vec_get xs i = Inr v \<longleftrightarrow> i < length xs \<and> xs ! i = v"
  by (simp add: vec_get_def)

lemma vec_set_in [simp, res_simps]: "i < length xs \<Longrightarrow> vec_set xs i v = Inr (xs[i := v])"
  by (simp add: vec_set_def)

lemma vec_set_Inr_iff [simp]: "vec_set xs i v = Inr ys \<longleftrightarrow> i < length xs \<and> ys = xs[i := v]"
  by (auto simp: vec_set_def)

subsection \<open>Machine integers\<close>

abbreviation INT_MAX :: int where "INT_MAX \<equiv> 2147483647"
abbreviation INT_MIN :: int where "INT_MIN \<equiv> - 2147483648"
abbreviation INT64_MAX :: int where "INT64_MAX \<equiv> 9223372036854775807"
abbreviation INT64_MIN :: int where "INT64_MIN \<equiv> - 9223372036854775808"

definition i32 :: "int \<Rightarrow> int" where "i32 x = signed_take_bit 31 x"
definition i64 :: "int \<Rightarrow> int" where "i64 x = signed_take_bit 63 x"

definition is_i32 :: "int \<Rightarrow> bool" where "is_i32 x \<longleftrightarrow> INT_MIN \<le> x \<and> x \<le> INT_MAX"
definition is_i64 :: "int \<Rightarrow> bool" where "is_i64 x \<longleftrightarrow> INT64_MIN \<le> x \<and> x \<le> INT64_MAX"

lemma i32_id [width_simps]: "INT_MIN \<le> x \<Longrightarrow> x \<le> INT_MAX \<Longrightarrow> i32 x = x"
  unfolding i32_def by (rule signed_take_bit_int_eq_self) simp_all

lemma i64_id [width_simps]: "INT64_MIN \<le> x \<Longrightarrow> x \<le> INT64_MAX \<Longrightarrow> i64 x = x"
  unfolding i64_def by (rule signed_take_bit_int_eq_self) simp_all

lemma is_i32_i32 [simp]: "is_i32 (i32 x)"
  using signed_take_bit_int_greater_eq_minus_exp [of 31 x] signed_take_bit_int_less_exp [of 31 x]
  by (simp add: is_i32_def i32_def)

lemma is_i64_i64 [simp]: "is_i64 (i64 x)"
  using signed_take_bit_int_greater_eq_minus_exp [of 63 x] signed_take_bit_int_less_exp [of 63 x]
  by (simp add: is_i64_def i64_def)

lemma i32_is_i32 [simp]: "is_i32 x \<Longrightarrow> i32 x = x"
  by (simp add: is_i32_def i32_id)

lemma i64_is_i64 [simp]: "is_i64 x \<Longrightarrow> i64 x = x"
  by (simp add: is_i64_def i64_id)

lemma i32_add_i32: "i32 (i32 x + y) = i32 (x + y)" "i32 (x + i32 y) = i32 (x + y)"
  unfolding i32_def
  by (metis signed_take_bit_add signed_take_bit_signed_take_bit min.idem)+

lemma i64_add_i64: "i64 (i64 x + y) = i64 (x + y)" "i64 (x + i64 y) = i64 (x + y)"
  unfolding i64_def
  by (metis signed_take_bit_add signed_take_bit_signed_take_bit min.idem)+

lemma i32_sub_i32: "i32 (i32 x - y) = i32 (x - y)" "i32 (x - i32 y) = i32 (x - y)"
  unfolding i32_def
  by (metis signed_take_bit_diff signed_take_bit_signed_take_bit min.idem)+

lemma i64_sub_i64: "i64 (i64 x - y) = i64 (x - y)" "i64 (x - i64 y) = i64 (x - y)"
  unfolding i64_def
  by (metis signed_take_bit_diff signed_take_bit_signed_take_bit min.idem)+

lemmas wrap_simps = i32_add_i32 i64_add_i64 i32_sub_i32 i64_sub_i64

definition size_sub :: "nat \<Rightarrow> nat \<Rightarrow> nat" where
  "size_sub a b = (if b \<le> a then a - b else 2 ^ 64 - (b - a))"

lemma size_sub_ge [simp]: "b \<le> a \<Longrightarrow> size_sub a b = a - b"
  by (simp add: size_sub_def)

subsection \<open>Decimal text\<close>

text \<open>\<open>fmt_d\<close> is the conversion \<open>%d\<close> of the \<open>printf\<close> family.\<close>

fun dec_digits :: "nat \<Rightarrow> string" where
  "dec_digits n = (if n < 10 then [char_of (48 + n)] else dec_digits (n div 10) @ [char_of (48 + n mod 10)])"

declare dec_digits.simps [simp del]

definition fmt_d :: "int \<Rightarrow> string" where
  "fmt_d x = (if x < 0 then ''-'' @ dec_digits (nat (- x)) else dec_digits (nat x))"

subsection \<open>Lists\<close>

lemma sum_list_update_add:
  fixes xs :: "int list"
  shows "i < length xs \<Longrightarrow> sum_list (xs[i := xs ! i + d]) = sum_list xs + d"
proof (induction xs arbitrary: i)
  case (Cons x xs)
  then show ?case by (cases i) simp_all
qed simp

lemma strict_sorted_nth_less:
  "sorted_wrt (<) xs \<Longrightarrow> i < j \<Longrightarrow> j < length xs \<Longrightarrow> (xs ! i :: 'a :: order) < xs ! j"
  by (rule sorted_wrt_nth_less)

lemma strict_sorted_nth_mono:
  fixes xs :: "'a :: linorder list"
  assumes "sorted_wrt (<) xs" "i \<le> j" "j < length xs"
  shows "xs ! i \<le> xs ! j"
  using assms strict_sorted_nth_less [of xs i j] by (cases "i = j") auto

lemma strict_sorted_nth_inj:
  fixes xs :: "'a :: linorder list"
  assumes "sorted_wrt (<) xs" "i < length xs" "j < length xs" "xs ! i = xs ! j"
  shows "i = j"
  using assms strict_sorted_nth_less [of xs i j] strict_sorted_nth_less [of xs j i]
  by (metis less_irrefl linorder_neqE_nat)

lemma foldl_invariant:
  "P a \<Longrightarrow> (\<And>a x. x \<in> set xs \<Longrightarrow> P a \<Longrightarrow> P (f a x)) \<Longrightarrow> P (foldl f a xs)"
  by (induction xs arbitrary: a) auto

lemma foldl_const:
  "(\<And>a x. x \<in> set xs \<Longrightarrow> g (f a x) = g a) \<Longrightarrow> g (foldl f a xs) = g a"
  by (induction xs arbitrary: a) auto

lemma distinct_map_split:
  assumes "distinct (map f xs)" "\<And>x. P x \<Longrightarrow> \<not> Q x"
  shows "distinct (map f (filter P xs) @ map f (filter Q xs))"
  using assms(1) by (induction xs) (use assms(2) in \<open>auto simp: image_iff\<close>)

lemma filter_takeWhile_sorted:
  fixes g :: "'a \<Rightarrow> 'b :: linorder"
  assumes "sorted (map g xs)"
  shows "takeWhile (\<lambda>x. g x \<le> b) xs = filter (\<lambda>x. g x \<le> b) xs"
    and "dropWhile (\<lambda>x. g x \<le> b) xs = filter (\<lambda>x. \<not> g x \<le> b) xs"
  using assms
  by (induction xs) (auto simp: filter_empty_conv eq_commute [of "[]"] dest: order_trans intro: filter_True [symmetric])

end
