(* ===== verification/Uri.thy ===== *)
theory Uri
  imports Prelude
begin

text \<open>
  URI escaping: \<^verbatim>\<open>strings/UriEscape.h,.cc\<close> and the two tables it uses, which
  \<^verbatim>\<open>strings/generate_escape_tables.py\<close> writes at build time (its rules are translated here).

  Strings are lists of bytes (\<open>char\<close> has the 256 values of an \<open>unsigned char\<close>). The pointers \<open>p\<close>
  and \<open>last\<close> (here \<open>start\<close>) of the loops are indices into the input, and the output is appended to, as in the
  source. \<open>std::invalid_argument\<close> is the failure \<open>Invalid_Argument\<close> with its message.
\<close>

subsection \<open>Tables\<close>

datatype EscapeMode = Mode_ALL | Mode_QUERY | Mode_PATH

fun mode_value :: "EscapeMode \<Rightarrow> nat" where
  "mode_value Mode_ALL = 0"
| "mode_value Mode_QUERY = 1"
| "mode_value Mode_PATH = 2"

definition byte :: "char \<Rightarrow> nat" where
  "byte c = of_char c"

definition passthrough :: "nat list" where
  "passthrough = [byte (CHR ''0'')..<byte (CHR ''9'')] @ [byte (CHR ''A'')..<byte (CHR ''Z'')] @
     [byte (CHR ''a'')..<byte (CHR ''z'')] @ map byte ''-_.~''"

definition kUriEscapeTable :: "nat \<Rightarrow> nat" where
  "kUriEscapeTable i =
     (if i \<in> set passthrough then 0
      else if i = byte (CHR ''/'') then 2
      else if i = byte (CHR '' '') then 3
      else 4)"

definition kHexTable :: "nat \<Rightarrow> nat" where
  "kHexTable i =
     (if byte (CHR ''0'') \<le> i \<and> i \<le> byte (CHR ''9'') then i - byte (CHR ''0'')
      else if byte (CHR ''a'') \<le> i \<and> i \<le> byte (CHR ''f'') then i - byte (CHR ''a'') + 10
      else if byte (CHR ''A'') \<le> i \<and> i \<le> byte (CHR ''F'') then i - byte (CHR ''A'') + 10
      else 16)"

definition kHexValues :: string where
  "kHexValues = ''0123456789ABCDEF''"

subsection \<open>Escaping and unescaping\<close>

definition slice :: "'a list \<Rightarrow> nat \<Rightarrow> nat \<Rightarrow> 'a list" where
  "slice xs a b = take (b - a) (drop a xs)"

function UriEscape_loop :: "EscapeMode \<Rightarrow> string \<Rightarrow> nat \<Rightarrow> nat \<Rightarrow> string \<Rightarrow> string" where
  "UriEscape_loop mode inp p start out =
     (if p < length inp then
        let c = inp ! p; v = byte c; discriminator = kUriEscapeTable v
        in if discriminator \<le> mode_value mode then UriEscape_loop mode inp (p + 1) start out
           else if mode = Mode_QUERY \<and> discriminator = 3 then
             UriEscape_loop mode inp (p + 1) (p + 1) (out @ slice inp start p @ ''+'')
           else
             UriEscape_loop mode inp (p + 1) (p + 1)
               (out @ slice inp start p @ [CHR ''%'', kHexValues ! (v div 16), kHexValues ! (v mod 16)])
      else out @ slice inp start p)"
  by pat_completeness auto
termination
  by (relation "measure (\<lambda>(mode, inp, p, start, out). length inp - p)") auto

declare UriEscape_loop.simps [simp del]

definition UriEscape :: "string \<Rightarrow> string \<Rightarrow> EscapeMode \<Rightarrow> string" where
  "UriEscape inp out mode = UriEscape_loop mode inp 0 0 out"

function UriUnescape_loop :: "EscapeMode \<Rightarrow> string \<Rightarrow> nat \<Rightarrow> nat \<Rightarrow> string \<Rightarrow> string result" where
  "UriUnescape_loop mode inp p start out =
     (if p < length inp then
        let c = inp ! p
        in if c = CHR ''%'' then
             if length inp - p < 3 then Inl (Invalid_Argument ''incomplete percent encode sequence'')
             else
               let h1 = kHexTable (byte (inp ! (p + 1))); h2 = kHexTable (byte (inp ! (p + 2)))
               in if h1 = 16 \<or> h2 = 16 then Inl (Invalid_Argument ''invalid percent encode sequence'')
                  else UriUnescape_loop mode inp (p + 3) (p + 3) (out @ slice inp start p @ [char_of (h1 * 16 + h2)])
           else if c = CHR ''+'' \<and> mode = Mode_QUERY then
             UriUnescape_loop mode inp (p + 1) (p + 1) (out @ slice inp start p @ '' '')
           else UriUnescape_loop mode inp (p + 1) start out
      else Inr (out @ slice inp start p))"
  by pat_completeness auto
termination
  by (relation "measure (\<lambda>(mode, inp, p, start, out). length inp - p)") auto

declare UriUnescape_loop.simps [simp del]

definition UriUnescape :: "string \<Rightarrow> string \<Rightarrow> EscapeMode \<Rightarrow> string result" where
  "UriUnescape inp out mode = UriUnescape_loop mode inp 0 0 out"

subsection \<open>Reference definitions\<close>

definition escape_char :: "EscapeMode \<Rightarrow> char \<Rightarrow> string" where
  "escape_char mode c =
     (let v = byte c; d = kUriEscapeTable v
      in if d \<le> mode_value mode then [c]
         else if mode = Mode_QUERY \<and> c = CHR '' '' then ''+''
         else [CHR ''%'', kHexValues ! (v div 16), kHexValues ! (v mod 16)])"

definition escape_ref :: "EscapeMode \<Rightarrow> string \<Rightarrow> string" where
  "escape_ref mode s = concat (map (escape_char mode) s)"

fun unescape_ref :: "EscapeMode \<Rightarrow> string \<Rightarrow> string result" where
  "unescape_ref mode [] = Inr []"
| "unescape_ref mode (c # cs) =
     (if c = CHR ''%'' then
        (case cs of a # b # rest \<Rightarrow>
           if kHexTable (byte a) = 16 \<or> kHexTable (byte b) = 16
           then Inl (Invalid_Argument ''invalid percent encode sequence'')
           else bindR (unescape_ref mode rest)
                  (\<lambda>s. Inr (char_of (kHexTable (byte a) * 16 + kHexTable (byte b)) # s))
         | _ \<Rightarrow> Inl (Invalid_Argument ''incomplete percent encode sequence''))
      else bindR (unescape_ref mode cs) (\<lambda>s. Inr ((if c = CHR ''+'' \<and> mode = Mode_QUERY then CHR '' '' else c) # s)))"

lemma slice_snoc: "start \<le> p \<Longrightarrow> p < length xs \<Longrightarrow> slice xs start (Suc p) = slice xs start p @ [xs ! p]"
  by (simp add: slice_def Suc_diff_le take_Suc_conv_app_nth)

lemma slice_empty [simp]: "slice xs p p = []"
  by (simp add: slice_def)

lemma byte_eq_iff: "byte c = byte d \<longleftrightarrow> c = d"
  by (simp add: byte_def)

lemma byte_less [simp]: "byte c < 256"
  by (simp add: byte_def)

lemma char_of_byte [simp]: "char_of (byte c) = c"
  by (simp add: byte_def)

lemma escape_table_space: "kUriEscapeTable (byte c) = 3 \<longleftrightarrow> c = CHR '' ''"
proof
  assume "kUriEscapeTable (byte c) = 3"
  then have "byte c = byte (CHR '' '')" by (simp add: kUriEscapeTable_def split: if_splits)
  then show "c = CHR '' ''" by (simp only: byte_eq_iff)
next
  assume "c = CHR '' ''"
  then show "kUriEscapeTable (byte c) = 3" by (simp add: kUriEscapeTable_def passthrough_def byte_def)
qed

lemma UriEscape_loop_ref:
  assumes "start \<le> p" "p \<le> length inp"
  shows "UriEscape_loop mode inp p start out = out @ slice inp start p @ escape_ref mode (drop p inp)"
  using assms
proof (induction "length inp - p" arbitrary: p start out rule: less_induct)
  case less
  show ?case
  proof (cases "p < length inp")
    case False
    then show ?thesis using less.prems by (subst UriEscape_loop.simps) (simp add: escape_ref_def)
  next
    case True
    then have d: "drop p inp = inp ! p # drop (Suc p) inp" by (simp add: Cons_nth_drop_Suc)
    have IH: "UriEscape_loop mode inp (Suc p) l o' = o' @ slice inp l (Suc p) @ escape_ref mode (drop (Suc p) inp)"
      if "l \<le> Suc p" for l o' using less.hyps [of "Suc p" l o'] True that by simp
    show ?thesis
      using True less.prems(1) IH
      by (subst UriEscape_loop.simps)
        (auto simp: Let_def d escape_ref_def escape_char_def escape_table_space slice_snoc)
  qed
qed

lemma UriUnescape_loop_ref:
  assumes "start \<le> p" "p \<le> length inp"
  shows "UriUnescape_loop mode inp p start out =
     bindR (unescape_ref mode (drop p inp)) (\<lambda>s. Inr (out @ slice inp start p @ s))"
  using assms
proof (induction "length inp - p" arbitrary: p start out rule: less_induct)
  case less
  show ?case
  proof (cases "p < length inp")
    case False
    then show ?thesis using less.prems by (subst UriUnescape_loop.simps) simp
  next
    case True
    then have d: "drop p inp = inp ! p # drop (Suc p) inp" by (simp add: Cons_nth_drop_Suc)
    have one: "UriUnescape_loop mode inp (Suc p) l o' =
        bindR (unescape_ref mode (drop (Suc p) inp)) (\<lambda>s. Inr (o' @ slice inp l (Suc p) @ s))"
      if "l \<le> Suc p" for l o' using less.hyps [of "Suc p" l o'] True that by simp
    show ?thesis
    proof (cases "inp ! p = CHR ''%''")
      case False
      then show ?thesis using True less.prems(1) one
        by (subst UriUnescape_loop.simps) (auto simp: d slice_snoc bindR_assoc)
    next
      case pct: True
      show ?thesis
      proof (cases "length inp - p < 3")
        case True
        then have "length (drop (Suc p) inp) < 2" by simp
        then have "(case drop (Suc p) inp of a # b # r \<Rightarrow> X a b r | _ \<Rightarrow> Y) = Y" for X and Y :: "string result"
          by (auto split: list.splits dest!: arg_cong [of "drop _ _" _ length] simp del: length_drop)
        then show ?thesis using pct \<open>p < length inp\<close> True
          by (subst UriUnescape_loop.simps) (simp add: d)
      next
        case False
        then have r: "drop (Suc p) inp = inp ! (p + 1) # inp ! (p + 2) # drop (p + 3) inp"
          by (simp add: Cons_nth_drop_Suc numeral_3_eq_3)
        have "UriUnescape_loop mode inp (p + 3) (p + 3) o' =
            bindR (unescape_ref mode (drop (p + 3) inp)) (\<lambda>s. Inr (o' @ s))" for o'
          using less.hyps [of "p + 3" "p + 3" o'] False True by simp
        then show ?thesis using pct \<open>p < length inp\<close> False
          by (subst UriUnescape_loop.simps) (simp add: d r Let_def bindR_assoc del: drop_drop)
      qed
    qed
  qed
qed

subsection \<open>Properties\<close>

lemma hex_digit_inverse: "k < 16 \<Longrightarrow> kHexTable (byte (kHexValues ! k)) = k"
proof -
  have "list_all (\<lambda>k. kHexTable (byte (kHexValues ! k)) = k) [0..<16]" by code_simp
  then show "k < 16 \<Longrightarrow> kHexTable (byte (kHexValues ! k)) = k" by (simp add: list_all_iff)
qed

lemma passed_char: "kUriEscapeTable (byte c) \<le> mode_value mode \<Longrightarrow> c \<noteq> CHR ''%'' \<and> c \<noteq> CHR ''+''"
proof -
  have "kUriEscapeTable (byte (CHR ''%'')) = 4" "kUriEscapeTable (byte (CHR ''+'')) = 4" by code_simp+
  moreover have "mode_value mode < 4" by (cases mode) simp_all
  ultimately show "kUriEscapeTable (byte c) \<le> mode_value mode \<Longrightarrow> c \<noteq> CHR ''%'' \<and> c \<noteq> CHR ''+''" by auto
qed

lemma unescape_escape_char:
  "unescape_ref mode (escape_char mode c @ s) = bindR (unescape_ref mode s) (\<lambda>t. Inr (c # t))"
proof (cases "kUriEscapeTable (byte c) \<le> mode_value mode")
  case True
  then show ?thesis using passed_char by (auto simp: escape_char_def)
next
  case False
  have "byte c div 16 < 16" using byte_less [of c] by linarith
  then have "kHexTable (byte (kHexValues ! (byte c div 16))) = byte c div 16"
    "kHexTable (byte (kHexValues ! (byte c mod 16))) = byte c mod 16" by (simp_all add: hex_digit_inverse)
  moreover from this \<open>byte c div 16 < 16\<close>
  have "kHexTable (byte (kHexValues ! (byte c div 16))) \<noteq> 16" "kHexTable (byte (kHexValues ! (byte c mod 16))) \<noteq> 16"
    by simp_all
  ultimately show ?thesis using False by (auto simp: escape_char_def Let_def)
qed

text \<open>
  C16: unescaping undoes escaping, in every mode and for every byte string: it never throws on an
  escaped string and appends exactly the original to its output.
\<close>
theorem UriUnescape_UriEscape: "UriUnescape (UriEscape s '''' mode) out mode = Inr (out @ s)"
proof -
  have "unescape_ref mode (escape_ref mode s) = Inr s"
    by (induction s) (simp_all add: escape_ref_def unescape_escape_char)
  then show ?thesis by (simp add: UriEscape_def UriUnescape_def UriEscape_loop_ref UriUnescape_loop_ref)
qed

text \<open>
  The single-pass escaping loop, which copies runs of unescaped characters at once, appends to the
  output exactly the concatenation of the characters' own escapes; the only bytes it writes are the
  unescaped ones of the table, upper-case hex digits, the percent sign, and, by mode, a plus sign
  or a slash.
\<close>
theorem UriEscape_charset:
  "UriEscape s out mode = out @ concat (map (escape_char mode) s) \<and>
   set (UriEscape s '''' mode) \<subseteq> {c. byte c \<in> set passthrough} \<union> set kHexValues \<union> {CHR ''%''} \<union>
     (if mode = Mode_QUERY then {CHR ''+''} else {}) \<union> (if mode = Mode_PATH then {CHR ''/''} else {})"
proof -
  have hex: "kHexValues ! (byte c div 16) \<in> set kHexValues" "kHexValues ! (byte c mod 16) \<in> set kHexValues" for c
  proof -
    have "byte c div 16 < 16" using byte_less [of c] by linarith
    then show "kHexValues ! (byte c div 16) \<in> set kHexValues" "kHexValues ! (byte c mod 16) \<in> set kHexValues"
      by (intro nth_mem; simp add: kHexValues_def)+
  qed
  have pass: "byte c \<in> set passthrough \<or> mode = Mode_PATH \<and> c = CHR ''/''" if "kUriEscapeTable (byte c) \<le> mode_value mode" for c
    using that by (cases mode) (auto simp: kUriEscapeTable_def byte_eq_iff split: if_splits)
  have safe: "set (escape_char mode c) \<subseteq> {c. byte c \<in> set passthrough} \<union> set kHexValues \<union> {CHR ''%''} \<union>
     (if mode = Mode_QUERY then {CHR ''+''} else {}) \<union> (if mode = Mode_PATH then {CHR ''/''} else {})" for c
    using hex [of c] pass [of c] by (auto simp: escape_char_def Let_def)
  show ?thesis
    using UN_least [of "set s" "\<lambda>c. set (escape_char mode c)", OF safe]
    by (simp only: UriEscape_def UriEscape_loop_ref [OF order_refl zero_le] escape_ref_def slice_empty drop_0
        set_concat set_map append_Nil image_image simp_thms)
qed

text \<open>
  The digit 9 and the letters Z and z are percent-encoded in every mode.
\<close>
theorem UriEscape_encodes_9Zz: "UriEscape ''09AZaz'' '''' mode = ''0%39A%5Aa%7A''"
proof -
  have "escape_ref mode ''09AZaz'' = ''0%39A%5Aa%7A''" by (cases mode; simp; code_simp)
  then show ?thesis by (simp add: UriEscape_def UriEscape_loop_ref)
qed

end
