(* ===== verification/Times.thy ===== *)
theory Times
  imports Prelude "HOL-Library.Signed_Division"
begin

text \<open>
  Time values: \<^verbatim>\<open>time/Timestamp.h\<close> and \<^verbatim>\<open>events/TimerId.h\<close>. A timestamp is the number of
  microseconds since the epoch as an \<open>int64_t\<close>; C++ division truncates, so \<open>sdiv\<close> and \<open>smod\<close> are used.
  The wall clock (\<open>Timestamp::Now\<close>) is an input of the operations that read it. Timestamps and timer ids are
  instances of \<open>linorder\<close> by the comparisons of the source.
\<close>

record timestamp =
  microseconds_since_epoch :: int

definition kMicroSecondsPerSecond :: int where
  "kMicroSecondsPerSecond = 1000 * 1000"

definition Timestamp_invalid :: timestamp where
  "Timestamp_invalid = \<lparr>microseconds_since_epoch = 0\<rparr>"

definition Timestamp_of :: "int \<Rightarrow> timestamp" where
  "Timestamp_of us = \<lparr>microseconds_since_epoch = us\<rparr>"

definition Timestamp_Valid :: "timestamp \<Rightarrow> bool" where
  "Timestamp_Valid t \<longleftrightarrow> 0 < microseconds_since_epoch t"

definition Timestamp_SecondsSinceEpoch :: "timestamp \<Rightarrow> int" where
  "Timestamp_SecondsSinceEpoch t = microseconds_since_epoch t sdiv kMicroSecondsPerSecond"

definition Timestamp_less :: "timestamp \<Rightarrow> timestamp \<Rightarrow> bool" where
  "Timestamp_less a b \<longleftrightarrow> microseconds_since_epoch a < microseconds_since_epoch b"

definition Timestamp_equal :: "timestamp \<Rightarrow> timestamp \<Rightarrow> bool" where
  "Timestamp_equal a b \<longleftrightarrow> microseconds_since_epoch a = microseconds_since_epoch b"

definition Timestamp_swap :: "timestamp \<Rightarrow> timestamp \<Rightarrow> timestamp \<times> timestamp" where
  "Timestamp_swap a b =
     (a\<lparr>microseconds_since_epoch := microseconds_since_epoch b\<rparr>,
      b\<lparr>microseconds_since_epoch := microseconds_since_epoch a\<rparr>)"

definition Timestamp_from_timeval :: "int \<Rightarrow> int \<Rightarrow> timestamp" where
  "Timestamp_from_timeval tv_sec tv_usec = Timestamp_of (i64 (i64 (tv_sec * kMicroSecondsPerSecond) + tv_usec))"

definition TimeDifference :: "timestamp \<Rightarrow> timestamp \<Rightarrow> int" where
  "TimeDifference high low = i64 (microseconds_since_epoch high - microseconds_since_epoch low)"

definition AddTime :: "timestamp \<Rightarrow> int \<Rightarrow> timestamp" where
  "AddTime t us = Timestamp_of (i64 (microseconds_since_epoch t + us))"

lemma TimeDifference_AddTime:
  "is_i64 us \<Longrightarrow> TimeDifference (AddTime t us) t = us"
  by (simp add: TimeDifference_def AddTime_def Timestamp_of_def wrap_simps)

lemma AddTime_mono:
  assumes "is_i64 (microseconds_since_epoch t)" "0 < us" "microseconds_since_epoch t + us \<le> INT64_MAX"
  shows "Timestamp_less t (AddTime t us)"
  using assms by (simp add: Timestamp_less_def AddTime_def Timestamp_of_def is_i64_def i64_id)

text \<open>
  \<open>operator<\<close> and \<open>operator==\<close>, from which Boost derives the other comparisons, are the ones of a linear order.
\<close>

instantiation timestamp_ext :: (linorder) linorder
begin

definition less_timestamp_ext :: "'a timestamp_scheme \<Rightarrow> 'a timestamp_scheme \<Rightarrow> bool" where
  "less_timestamp_ext a b \<longleftrightarrow> microseconds_since_epoch a < microseconds_since_epoch b \<or> microseconds_since_epoch a = microseconds_since_epoch b \<and> timestamp.more a < timestamp.more b"

definition less_eq_timestamp_ext :: "'a timestamp_scheme \<Rightarrow> 'a timestamp_scheme \<Rightarrow> bool" where
  "less_eq_timestamp_ext a b \<longleftrightarrow> microseconds_since_epoch a < microseconds_since_epoch b \<or> microseconds_since_epoch a = microseconds_since_epoch b \<and> timestamp.more a \<le> timestamp.more b"

instance
  by standard (auto simp: less_timestamp_ext_def less_eq_timestamp_ext_def intro: timestamp.equality)

end

lemma Timestamp_order: "Timestamp_less a b \<longleftrightarrow> a < b" "Timestamp_equal a b \<longleftrightarrow> a = b"
  for a b :: timestamp
  by (auto simp: Timestamp_less_def Timestamp_equal_def less_timestamp_ext_def)

record timer_id =
  id_val :: int

definition TimerId_empty :: timer_id where
  "TimerId_empty = \<lparr>id_val = 0\<rparr>"

definition TimerId_of :: "int \<Rightarrow> timer_id" where
  "TimerId_of i = \<lparr>id_val = i\<rparr>"

definition TimerId_Reset :: "timer_id \<Rightarrow> timer_id" where
  "TimerId_Reset t = t\<lparr>id_val := 0\<rparr>"

definition TimerId_Valid :: "timer_id \<Rightarrow> bool" where
  "TimerId_Valid t \<longleftrightarrow> 0 < id_val t"

definition TimerId_less :: "timer_id \<Rightarrow> timer_id \<Rightarrow> bool" where
  "TimerId_less a b \<longleftrightarrow> id_val a < id_val b"

definition TimerId_equal :: "timer_id \<Rightarrow> timer_id \<Rightarrow> bool" where
  "TimerId_equal a b \<longleftrightarrow> id_val a = id_val b"

instantiation timer_id_ext :: (linorder) linorder
begin

definition less_timer_id_ext :: "'a timer_id_scheme \<Rightarrow> 'a timer_id_scheme \<Rightarrow> bool" where
  "less_timer_id_ext a b \<longleftrightarrow> id_val a < id_val b \<or> id_val a = id_val b \<and> timer_id.more a < timer_id.more b"

definition less_eq_timer_id_ext :: "'a timer_id_scheme \<Rightarrow> 'a timer_id_scheme \<Rightarrow> bool" where
  "less_eq_timer_id_ext a b \<longleftrightarrow> id_val a < id_val b \<or> id_val a = id_val b \<and> timer_id.more a \<le> timer_id.more b"

instance
  by standard (auto simp: less_timer_id_ext_def less_eq_timer_id_ext_def intro: timer_id.equality)

end

lemma TimerId_order: "TimerId_less a b \<longleftrightarrow> a < b" "TimerId_equal a b \<longleftrightarrow> a = b"
  for a b :: timer_id
  by (auto simp: TimerId_less_def TimerId_equal_def less_timer_id_ext_def)

end
