(* ===== verification/Strings.thy ===== *)
theory Strings
  imports Times "HOL-Library.Char_ord" "HOL-Library.List_Lexorder"
begin

text \<open>
  \<^verbatim>\<open>strings/StringPiece.h,.cc\<close> and \<^verbatim>\<open>strings/StringUtil.h,.cc\<close>.

  A \<open>string_piece\<close> is a position and a length in a block of memory: \<open>sp_mem\<close> is the block it points
  into (empty for \<open>NULL\<close>), \<open>sp_ptr\<close> the offset of \<open>ptr_\<close> in the block and \<open>sp_len\<close> is \<open>length_\<close>.
  Nothing forces the piece to stay inside its block: \<open>in_block\<close> says that it does, and a read
  outside is the failure \<open>Out_Of_Bounds\<close>. \<open>view\<close> is the text a piece inside its block denotes. The
  integer conversions of \<open>StringUtil\<close> write characters into a buffer from the least significant
  digit on and reverse it.
\<close>

subsection \<open>StringPiece\<close>

record string_piece =
  sp_mem :: string
  sp_ptr :: nat
  sp_len :: nat

definition npos :: nat where "npos = 2 ^ 64 - 1"

definition in_block :: "string_piece \<Rightarrow> bool" where
  "in_block s \<longleftrightarrow> sp_ptr s + sp_len s \<le> length (sp_mem s) \<and> length (sp_mem s) < 2 ^ 63"

definition view :: "string_piece \<Rightarrow> string" where
  "view s = take (sp_len s) (drop (sp_ptr s) (sp_mem s))"

definition StringPiece_null :: string_piece where
  "StringPiece_null = \<lparr>sp_mem = '''', sp_ptr = 0, sp_len = 0\<rparr>"

definition StringPiece_of_string :: "string \<Rightarrow> string_piece" where
  "StringPiece_of_string str = \<lparr>sp_mem = str, sp_ptr = 0, sp_len = length str\<rparr>"

text \<open>The piece of a C string in a block, and \<open>set\<close> and \<open>clear\<close>.\<close>

definition StringPiece_set_cstr :: "(string \<times> nat) option \<Rightarrow> string_piece result" where
  "StringPiece_set_cstr str =
     (case str of None \<Rightarrow> Inr \<lparr>sp_mem = '''', sp_ptr = 0, sp_len = 0\<rparr>
      | Some (mem, p) \<Rightarrow>
          let len = length (takeWhile (\<lambda>c. c \<noteq> CHR 0x00) (drop p mem))
          in if p + len < length mem then Inr \<lparr>sp_mem = mem, sp_ptr = p, sp_len = len\<rparr> else Inl Out_Of_Bounds)"

definition StringPiece_set :: "string \<Rightarrow> nat \<Rightarrow> nat \<Rightarrow> string_piece" where
  "StringPiece_set mem p len = \<lparr>sp_mem = mem, sp_ptr = p, sp_len = len\<rparr>"

definition StringPiece_clear :: "string_piece \<Rightarrow> string_piece" where
  "StringPiece_clear s = \<lparr>sp_mem = '''', sp_ptr = 0, sp_len = 0\<rparr>"

definition StringPiece_empty :: "string_piece \<Rightarrow> bool" where
  "StringPiece_empty s \<longleftrightarrow> sp_len s = 0"

definition read_char :: "string_piece \<Rightarrow> nat \<Rightarrow> char result" where
  "read_char s n = vec_get (sp_mem s) (sp_ptr s + n)"

definition read_block :: "string_piece \<Rightarrow> nat \<Rightarrow> nat \<Rightarrow> string result" where
  "read_block s n len =
     (if sp_ptr s + n + len \<le> length (sp_mem s) then Inr (take len (drop (sp_ptr s + n) (sp_mem s)))
      else Inl Out_Of_Bounds)"

definition StringPiece_starts_with :: "string_piece \<Rightarrow> string_piece \<Rightarrow> bool result" where
  "StringPiece_starts_with s x =
     (if sp_len x \<le> sp_len s
      then bindR (read_block s 0 (sp_len x)) (\<lambda>a. bindR (read_block x 0 (sp_len x)) (\<lambda>b. Inr (a = b)))
      else Inr False)"

definition StringPiece_end_with :: "string_piece \<Rightarrow> string_piece \<Rightarrow> bool result" where
  "StringPiece_end_with s x =
     (if sp_len x \<le> sp_len s
      then bindR (read_block s (sp_len s - sp_len x) (sp_len x)) (\<lambda>a.
           bindR (read_block x 0 (sp_len x)) (\<lambda>b. Inr (a = b)))
      else Inr False)"

definition StringPiece_remove_prefix :: "string_piece \<Rightarrow> nat \<Rightarrow> string_piece result" where
  "StringPiece_remove_prefix s n =
     CHECK (n \<le> sp_len s) (Inr (s\<lparr>sp_ptr := sp_ptr s + n, sp_len := sp_len s - n\<rparr>))"

definition StringPiece_remove_suffix :: "string_piece \<Rightarrow> nat \<Rightarrow> string_piece result" where
  "StringPiece_remove_suffix s n = CHECK (n \<le> sp_len s) (Inr (s\<lparr>sp_len := sp_len s - n\<rparr>))"

definition StringPiece_advance :: "string_piece \<Rightarrow> nat \<Rightarrow> string_piece result" where
  "StringPiece_advance s offset = CHECK (offset < sp_len s) (Inr (s\<lparr>sp_ptr := sp_ptr s + offset\<rparr>))"

text \<open>The sign of \<open>memcmp\<close> on two blocks of equal length, bytes compared as \<open>unsigned char\<close>.\<close>

fun memcmp :: "string \<Rightarrow> string \<Rightarrow> int" where
  "memcmp (a # as) (b # bs) = (if a < b then -1 else if b < a then 1 else memcmp as bs)"
| "memcmp _ _ = 0"

definition StringPiece_compare :: "string_piece \<Rightarrow> string_piece \<Rightarrow> int result" where
  "StringPiece_compare s x =
     bindR (read_block s 0 (min (sp_len s) (sp_len x))) (\<lambda>a.
     bindR (read_block x 0 (min (sp_len s) (sp_len x))) (\<lambda>b.
       let r = memcmp a b
       in Inr (if r = 0 then (if sp_len s < sp_len x then -1 else if sp_len x < sp_len s then r + 1 else r) else r)))"

definition StringPiece_less :: "string_piece \<Rightarrow> string_piece \<Rightarrow> bool result" where
  "StringPiece_less x y =
     bindR (read_block x 0 (min (sp_len x) (sp_len y))) (\<lambda>a.
     bindR (read_block y 0 (min (sp_len x) (sp_len y))) (\<lambda>b.
       let r = memcmp a b in Inr (r < 0 \<or> r = 0 \<and> sp_len x < sp_len y)))"

fun equal_loop :: "string_piece \<Rightarrow> string_piece \<Rightarrow> nat \<Rightarrow> nat \<Rightarrow> bool result" where
  "equal_loop x y i 0 = Inr True"
| "equal_loop x y i (Suc n) =
     bindR (read_char x i) (\<lambda>a. bindR (read_char y i) (\<lambda>b.
       if a \<noteq> b then Inr False else equal_loop x y (i + 1) n))"

definition StringPiece_equal :: "string_piece \<Rightarrow> string_piece \<Rightarrow> bool result" where
  "StringPiece_equal x y =
     (let len = sp_len x
      in if len \<noteq> sp_len y then Inr False
         else bindR (if 0 < len then bindR (read_char x (len - 1)) (\<lambda>a. bindR (read_char y (len - 1)) (\<lambda>b. Inr (a \<noteq> b)))
                     else Inr False) (\<lambda>differ.
                if differ then Inr False else equal_loop x y 0 len))"

definition StringPiece_ToString :: "string_piece \<Rightarrow> string result" where
  "StringPiece_ToString s = read_block s 0 (sp_len s)"

definition StringPiece_CopyToString :: "string_piece \<Rightarrow> string \<Rightarrow> string result" where
  "StringPiece_CopyToString s target = read_block s 0 (sp_len s)"

definition not_result :: "bool result \<Rightarrow> bool result" where
  "not_result r = bindR r (\<lambda>b. Inr (\<not> b))"

definition StringPiece_not_equal :: "string_piece \<Rightarrow> string_piece \<Rightarrow> bool result" where
  "StringPiece_not_equal x y = not_result (StringPiece_equal x y)"

definition StringPiece_greater :: "string_piece \<Rightarrow> string_piece \<Rightarrow> bool result" where
  "StringPiece_greater x y = StringPiece_less y x"

definition StringPiece_less_equal :: "string_piece \<Rightarrow> string_piece \<Rightarrow> bool result" where
  "StringPiece_less_equal x y = not_result (StringPiece_greater x y)"

definition StringPiece_greater_equal :: "string_piece \<Rightarrow> string_piece \<Rightarrow> bool result" where
  "StringPiece_greater_equal x y = not_result (StringPiece_less x y)"

definition StringPiece_AppendToString :: "string_piece \<Rightarrow> string \<Rightarrow> string result" where
  "StringPiece_AppendToString s target = bindR (read_block s 0 (sp_len s)) (\<lambda>t. Inr (target @ t))"

definition StringPiece_copy :: "string_piece \<Rightarrow> nat \<Rightarrow> nat \<Rightarrow> (nat \<times> string) result" where
  "StringPiece_copy s n pos =
     (let ret = min (size_sub (sp_len s) pos) n in bindR (read_block s pos ret) (\<lambda>t. Inr (ret, t)))"

fun std_search :: "'a list \<Rightarrow> 'a list \<Rightarrow> nat" where
  "std_search [] needle = 0"
| "std_search (x # xs) needle = (if take (length needle) (x # xs) = needle then 0 else Suc (std_search xs needle))"

definition StringPiece_find :: "string_piece \<Rightarrow> string_piece \<Rightarrow> nat \<Rightarrow> nat result" where
  "StringPiece_find p s pos =
     (if sp_len p < pos then Inr npos
      else bindR (read_block p pos (sp_len p - pos)) (\<lambda>hay. bindR (read_block s 0 (sp_len s)) (\<lambda>needle.
           let xpos = pos + std_search hay needle
           in Inr (if xpos + sp_len s \<le> sp_len p then xpos else npos))))"

fun std_find :: "'a list \<Rightarrow> 'a \<Rightarrow> nat" where
  "std_find [] c = 0"
| "std_find (x # xs) c = (if x = c then 0 else Suc (std_find xs c))"

definition StringPiece_find_char :: "string_piece \<Rightarrow> char \<Rightarrow> nat \<Rightarrow> nat result" where
  "StringPiece_find_char p c pos =
     (if sp_len p = 0 \<or> sp_len p \<le> pos then Inr npos
      else bindR (read_block p pos (sp_len p - pos)) (\<lambda>hay.
           let i = std_find hay c in Inr (if i \<noteq> length hay then pos + i else npos)))"

fun std_find_end :: "'a list \<Rightarrow> 'a list \<Rightarrow> nat option" where
  "std_find_end [] needle = None"
| "std_find_end (x # xs) needle =
     (case std_find_end xs needle of Some i \<Rightarrow> Some (Suc i)
      | None \<Rightarrow> if take (length needle) (x # xs) = needle then Some 0 else None)"

definition StringPiece_rfind :: "string_piece \<Rightarrow> string_piece \<Rightarrow> nat \<Rightarrow> nat result" where
  "StringPiece_rfind p s pos =
     (if sp_len p < sp_len s then Inr npos
      else if sp_len s = 0 then Inr (min (sp_len p) pos)
      else let stop = min (sp_len p - sp_len s) pos + sp_len s
           in bindR (read_block p 0 stop) (\<lambda>hay. bindR (read_block s 0 (sp_len s)) (\<lambda>needle.
              Inr (case std_find_end hay needle of Some i \<Rightarrow> i | None \<Rightarrow> npos))))"

function rfind_char_loop :: "string_piece \<Rightarrow> char \<Rightarrow> int \<Rightarrow> nat result" where
  "rfind_char_loop p c i =
     (if 0 \<le> i then bindR (read_char p (nat i)) (\<lambda>d. if d = c then Inr (nat i) else rfind_char_loop p c (i - 1))
      else Inr npos)"
  by pat_completeness auto
termination
  by (relation "measure (\<lambda>(p, c, i). nat (i + 1))") auto

declare rfind_char_loop.simps [simp del]

definition StringPiece_rfind_char :: "string_piece \<Rightarrow> char \<Rightarrow> nat \<Rightarrow> nat result" where
  "StringPiece_rfind_char p c pos =
     (if sp_len p = 0 then Inr npos else rfind_char_loop p c (i32 (int (min pos (sp_len p - 1)))))"

definition StringPiece_substr :: "string_piece \<Rightarrow> nat \<Rightarrow> nat \<Rightarrow> string_piece" where
  "StringPiece_substr s pos n =
     (let pos = (if sp_len s < pos then sp_len s else pos);
          n = (if sp_len s - pos < n then sp_len s - pos else n)
      in s\<lparr>sp_ptr := sp_ptr s + pos, sp_len := n\<rparr>)"

subsection \<open>StringUtil\<close>

definition digits :: string where "digits = ''9876543210123456789''"
definition digitsHex :: string where "digitsHex = ''0123456789ABCDEF''"

function IntToBuffer_loop :: "int \<Rightarrow> string" where
  "IntToBuffer_loop i =
     (let lsd = i smod 10; i' = i sdiv 10
      in digits ! nat (9 + lsd) # (if i' \<noteq> 0 then IntToBuffer_loop i' else []))"
  by pat_completeness auto
termination
proof (relation "measure (\<lambda>i. nat \<bar>i\<bar>)", goal_cases)
  case (2 i x xa)
  then have "i \<noteq> 0" by (auto simp: signed_divide_int_def)
  then have "\<bar>i sdiv 10\<bar> < \<bar>i\<bar>" by (simp add: signed_divide_int_def abs_mult)
  then show ?case using 2 by simp
qed simp

declare IntToBuffer_loop.simps [simp del]

definition IntToBuffer :: "int \<Rightarrow> string" where
  "IntToBuffer val = rev (IntToBuffer_loop val @ (if val < 0 then ''-'' else ''''))"

fun HexToBuffer_loop :: "nat \<Rightarrow> string" where
  "HexToBuffer_loop i = digitsHex ! (i mod 16) # (if i div 16 \<noteq> 0 then HexToBuffer_loop (i div 16) else [])"

declare HexToBuffer_loop.simps [simp del]

definition HexToBuffer :: "nat \<Rightarrow> string" where
  "HexToBuffer val = rev (HexToBuffer_loop val)"

text \<open>
  \<open>HexString\<close> prints into a bounded buffer. \<open>snprintf\<close> returns the length of the text and stores
  at most the room left, the last byte being the terminating NUL; the model's output is the
  first \<open>current_length\<close> bytes of the buffer, so a text that exactly fills the room ends with the NUL.
\<close>

fun hex_lower :: "nat \<Rightarrow> string" where
  "hex_lower n = (if n < 16 then [''0123456789abcdef'' ! n] else hex_lower (n div 16) @ [''0123456789abcdef'' ! (n mod 16)])"

declare hex_lower.simps [simp del]

definition pad_zero :: "nat \<Rightarrow> string \<Rightarrow> string" where
  "pad_zero w s = replicate (w - length s) (CHR ''0'') @ s"

definition hex_emit :: "nat \<Rightarrow> string \<Rightarrow> string \<Rightarrow> string option" where
  "hex_emit buffer_length out text =
     (let room = buffer_length - length out
      in if i32 (int room) < int (length text) then None
         else Some (out @ (if length text < room \<or> text = '''' then text else butlast text @ [CHR 0x00])))"

definition HexString_step :: "nat \<Rightarrow> nat \<Rightarrow> char \<Rightarrow> string \<Rightarrow> string option \<times> string" where
  "HexString_step buffer_length i c out =
     (case (if i mod 16 = 0 then hex_emit buffer_length out (''\<newline>0x'' @ pad_zero 4 (hex_lower (i mod 2 ^ 32)) @ '':'') else Some out) of
        None \<Rightarrow> (None, out)
      | Some out1 \<Rightarrow>
          (case (if i mod 2 = 0 then hex_emit buffer_length out1 '' '' else Some out1) of
             None \<Rightarrow> (None, out1)
           | Some out2 \<Rightarrow>
               (case hex_emit buffer_length out2 (pad_zero 2 (hex_lower (of_char c))) of
                  None \<Rightarrow> (None, out2)
                | Some out3 \<Rightarrow> (Some out3, out3))))"

fun HexString_loop :: "nat \<Rightarrow> nat \<Rightarrow> string \<Rightarrow> string \<Rightarrow> string" where
  "HexString_loop buffer_length i [] out = out"
| "HexString_loop buffer_length i (c # cs) out =
     (case HexString_step buffer_length i c out of
        (None, out') \<Rightarrow> out'
      | (Some _, out') \<Rightarrow> HexString_loop buffer_length (i + 1) cs out')"

definition HexString :: "nat \<Rightarrow> string \<Rightarrow> string" where
  "HexString buffer_length data = HexString_loop buffer_length 0 data ''''"

subsection \<open>Integer conversions\<close>

lemma digits_nth: "\<bar>k\<bar> < 10 \<Longrightarrow> digits ! nat (9 + k) = char_of (48 + nat \<bar>k\<bar>)"
proof -
  assume k: "\<bar>k\<bar> < 10"
  have "list_all (\<lambda>j. digits ! nat (9 + j) = char_of (48 + nat \<bar>j\<bar>)) [-9..9]" by code_simp
  moreover have "k \<in> set [-9..9]" using k by auto
  ultimately show ?thesis unfolding list_all_iff by blast
qed

lemma abs_sdiv_smod: "\<bar>(i :: int) sdiv 10\<bar> = \<bar>i\<bar> div 10" "\<bar>i smod 10\<bar> = \<bar>i\<bar> mod 10"
proof -
  have "\<bar>i\<bar> - \<bar>i\<bar> div 10 * 10 = \<bar>i\<bar> mod 10" by (simp add: minus_div_mult_eq_mod)
  then show "\<bar>i sdiv 10\<bar> = \<bar>i\<bar> div 10" "\<bar>i smod 10\<bar> = \<bar>i\<bar> mod 10"
    by (auto simp: signed_divide_int_def signed_modulo_int_def abs_mult sgn_if)
qed

lemma IntToBuffer_loop_dec: "IntToBuffer_loop i = rev (dec_digits (nat \<bar>i\<bar>))"
proof (induction i rule: IntToBuffer_loop.induct)
  case (1 i)
  have d: "digits ! nat (9 + i smod 10) = char_of (48 + nat \<bar>i\<bar> mod 10)"
    using digits_nth [of "i smod 10"] by (simp add: abs_sdiv_smod nat_mod_distrib)
  have q: "nat \<bar>i sdiv 10\<bar> = nat \<bar>i\<bar> div 10" by (simp add: abs_sdiv_smod nat_div_distrib)
  have z: "i sdiv 10 = 0 \<longleftrightarrow> nat \<bar>i\<bar> < 10" using abs_sdiv_smod(1) [of i] by (auto simp: div_int_pos_iff)
  show ?case
  proof (cases "nat \<bar>i\<bar> < 10")
    case True
    then show ?thesis using z d by (simp add: IntToBuffer_loop.simps [of i] dec_digits.simps [of "nat \<bar>i\<bar>"] Let_def)
  next
    case False
    then show ?thesis using z d q 1
      by (simp add: IntToBuffer_loop.simps [of i] dec_digits.simps [of "nat \<bar>i\<bar>"] Let_def)
  qed
qed

lemma dec_digits_length: "n < 10 ^ Suc k \<Longrightarrow> length (dec_digits n) \<le> Suc k"
proof (induction k arbitrary: n)
  case 0
  then show ?case by (simp add: dec_digits.simps [of n])
next
  case (Suc k)
  then have "n div 10 < 10 ^ Suc k" by (simp add: less_mult_imp_div_less)
  from Suc.IH [OF this] show ?case by (simp add: dec_digits.simps [of n])
qed

lemma int_text_short: "INT64_MIN \<le> val \<Longrightarrow> val < 2 ^ 64 \<Longrightarrow> length (IntToBuffer val) \<le> 20"
proof (cases "val < 0")
  assume v: "INT64_MIN \<le> val" "val < 2 ^ 64"
  case True
  then have "nat \<bar>val\<bar> < 10 ^ Suc 18" using v by simp
  then show ?thesis using dec_digits_length [of "nat \<bar>val\<bar>" 18] True by (simp add: IntToBuffer_def IntToBuffer_loop_dec)
next
  assume v: "INT64_MIN \<le> val" "val < 2 ^ 64"
  case False
  then have "nat \<bar>val\<bar> < 10 ^ Suc 19" using v by simp
  then show ?thesis using dec_digits_length [of "nat \<bar>val\<bar>" 19] False by (simp add: IntToBuffer_def IntToBuffer_loop_dec)
qed

text \<open>
  The table-driven digit loop with its final reversal prints every integer of every instantiated
  width in decimal, the least negative ones included, in at most 20 characters for 64 bits.
\<close>
theorem IntToBuffer_decimal:
  "IntToBuffer val = fmt_d val \<and> (INT64_MIN \<le> val \<and> val < 2 ^ 64 \<longrightarrow> length (IntToBuffer val) \<le> 20)"
  using int_text_short [of val] by (simp add: IntToBuffer_def IntToBuffer_loop_dec fmt_d_def)

definition hex_value :: "char \<Rightarrow> nat" where
  "hex_value c = (if c < CHR '':'' then of_char c - 48 else of_char c - 55)"

text \<open>
  \<open>HexToBuffer\<close> writes the hexadecimal digits of its argument: reading them back gives the value,
  the text has no leading zero, and a 64-bit value takes at most 16 characters.
\<close>
theorem HexToBuffer_roundtrip:
  "foldl (\<lambda>v c. v * 16 + hex_value c) 0 (HexToBuffer val) = val \<and> HexToBuffer val \<noteq> [] \<and>
   (hd (HexToBuffer val) = CHR ''0'' \<longrightarrow> val = 0) \<and> (val < 2 ^ 64 \<longrightarrow> length (HexToBuffer val) \<le> 16)"
proof -
  have hv: "hex_value (digitsHex ! k) = k" "digitsHex ! k = CHR ''0'' \<longleftrightarrow> k = 0" if "k < 16" for k
  proof -
    have "list_all (\<lambda>k. hex_value (digitsHex ! k) = k \<and> (digitsHex ! k = CHR ''0'' \<longleftrightarrow> k = 0)) [0..<16]" by code_simp
    then show "hex_value (digitsHex ! k) = k" "digitsHex ! k = CHR ''0'' \<longleftrightarrow> k = 0" using that by (simp_all add: list_all_iff)
  qed
  have step: "HexToBuffer_loop n = digitsHex ! (n mod 16) # (if n < 16 then [] else HexToBuffer_loop (n div 16))" for n
    by (simp add: HexToBuffer_loop.simps [of n] div_eq_0_iff)
  have val: "foldr (\<lambda>c v. v * 16 + hex_value c) (HexToBuffer_loop n) 0 = n" for n
  proof (induction n rule: less_induct)
    case (less n)
    then show ?case using hv(1) [of "n mod 16"] by (simp add: step [of n])
  qed
  have first: "HexToBuffer_loop n \<noteq> [] \<and> (last (HexToBuffer_loop n) = CHR ''0'' \<longrightarrow> n = 0)" for n
  proof (induction n rule: less_induct)
    case (less n)
    show ?case
    proof (cases "n < 16")
      case False
      then have "n div 16 < n" "n div 16 \<noteq> 0" by (auto simp: div_eq_0_iff)
      with False less.IH [of "n div 16"] show ?thesis by (simp add: step [of n])
    qed (use hv(2) [of n] in \<open>simp add: step [of n]\<close>)
  qed
  have len: "n < 16 ^ Suc k \<Longrightarrow> length (HexToBuffer_loop n) \<le> Suc k" for n k
  proof (induction k arbitrary: n)
    case (Suc k)
    then have "n div 16 < 16 ^ Suc k" by (simp add: less_mult_imp_div_less)
    from Suc.IH [OF this] show ?case by (simp add: step [of n])
  qed (simp add: step)
  show ?thesis
    using val [of val] first [of val] len [of val 15]
    by (auto simp: HexToBuffer_def foldl_conv_foldr hd_rev)
qed

subsection \<open>Pieces inside their block\<close>

lemma read_block_view:
  assumes "in_block s" "n + len \<le> sp_len s"
  shows "read_block s n len = Inr (take len (drop n (view s)))"
  using assms by (simp add: read_block_def in_block_def view_def min_def take_drop [symmetric] drop_take add.commute)

lemma length_view: "in_block s \<Longrightarrow> length (view s) = sp_len s"
  by (auto simp: in_block_def view_def)

lemma read_char_view: "in_block s \<Longrightarrow> i < sp_len s \<Longrightarrow> read_char s i = Inr (view s ! i)"
  by (simp add: read_char_def in_block_def view_def)

definition occurs_at :: "string \<Rightarrow> string \<Rightarrow> nat \<Rightarrow> bool" where
  "occurs_at hay needle i \<longleftrightarrow> i + length needle \<le> length hay \<and> take (length needle) (drop i hay) = needle"

lemma std_search_spec:
  "std_search hay needle \<le> length hay \<and>
   (\<forall>j < std_search hay needle. \<not> occurs_at hay needle j) \<and>
   (std_search hay needle + length needle \<le> length hay \<longrightarrow> occurs_at hay needle (std_search hay needle))"
proof (induction hay)
  case Nil
  then show ?case by (simp add: occurs_at_def)
next
  case (Cons x xs)
  have shift: "occurs_at (x # xs) needle (Suc j) \<longleftrightarrow> occurs_at xs needle j" for j by (simp add: occurs_at_def)
  have zero: "occurs_at (x # xs) needle 0 \<longleftrightarrow> take (length needle) (x # xs) = needle"
  proof -
    have "length (take (length needle) (x # xs)) = length needle \<longleftrightarrow> length needle \<le> length (x # xs)" by auto
    then show ?thesis unfolding occurs_at_def by (metis add_0 drop0)
  qed
  show ?case
  proof (cases "take (length needle) (x # xs) = needle")
    case True
    then show ?thesis using zero by simp
  next
    case False
    then show ?thesis using Cons zero shift by (auto simp: less_Suc_eq_0_disj simp del: take_Cons)
  qed
qed

lemma occurs_drop: "pos \<le> length v \<Longrightarrow> occurs_at (drop pos v) needle j \<longleftrightarrow> occurs_at v needle (pos + j)"
  by (auto simp: occurs_at_def add.commute)

text \<open>
  \<open>StringPiece::find\<close> returns the first position at or after \<open>pos\<close> where the argument occurs in
  the piece, and \<open>npos\<close> when there is none; it never reads outside the two blocks.
\<close>
theorem StringPiece_find_first:
  assumes "in_block p" "in_block s"
  shows "\<exists>r. StringPiece_find p s pos = Inr r \<and>
     (r = npos \<longrightarrow> (\<forall>i \<ge> pos. \<not> occurs_at (view p) (view s) i)) \<and>
     (r \<noteq> npos \<longrightarrow> pos \<le> r \<and> occurs_at (view p) (view s) r \<and> (\<forall>i. pos \<le> i \<and> i < r \<longrightarrow> \<not> occurs_at (view p) (view s) i))"
proof (cases "sp_len p < pos")
  case True
  then have "\<not> occurs_at (view p) (view s) i" if "i \<ge> pos" for i
    using that assms by (auto simp: occurs_at_def length_view)
  with True show ?thesis by (auto simp: StringPiece_find_def)
next
  case False
  let ?hay = "drop pos (view p)" let ?i = "std_search ?hay (view s)"
  have len: "length ?hay = sp_len p - pos" "length (view s) = sp_len s" "pos \<le> length (view p)"
    using False assms by (simp_all add: length_view)
  have find: "StringPiece_find p s pos = Inr (if pos + ?i + sp_len s \<le> sp_len p then pos + ?i else npos)"
    using False assms read_block_view [of p pos "sp_len p - pos"] read_block_view [of s 0 "sp_len s"]
    by (simp add: StringPiece_find_def length_view Let_def)
  note spec = std_search_spec [of ?hay "view s"]
  have none: "\<not> occurs_at (view p) (view s) k" if "pos \<le> k" "k < pos + ?i" for k
    using spec that occurs_drop [OF len(3), of "view s" "k - pos"] by (auto simp: less_diff_conv2)
  show ?thesis
  proof (cases "pos + ?i + sp_len s \<le> sp_len p")
    case True
    then have "occurs_at (view p) (view s) (pos + ?i)"
      using spec occurs_drop [OF len(3), of "view s" ?i] len by simp
    moreover have "pos + ?i \<noteq> npos" using True assms by (simp add: npos_def in_block_def)
    ultimately show ?thesis using find True none by auto
  next
    case F: False
    have "\<not> occurs_at (view p) (view s) k" if "pos \<le> k" for k
    proof (cases "k < pos + ?i")
      case False
      then show ?thesis using F assms by (simp add: occurs_at_def length_view)
    qed (use none that in blast)
    then show ?thesis using find F by auto
  qed
qed

lemma std_find_end_spec:
  assumes "needle \<noteq> []"
  shows "(case std_find_end hay needle of
      None \<Rightarrow> (\<forall>j. \<not> occurs_at hay needle j)
    | Some i \<Rightarrow> occurs_at hay needle i \<and> (\<forall>j > i. \<not> occurs_at hay needle j))"
proof (induction hay)
  case Nil
  then show ?case using assms by (simp add: occurs_at_def)
next
  case (Cons x xs)
  have shift: "occurs_at (x # xs) needle (Suc j) \<longleftrightarrow> occurs_at xs needle j" for j by (simp add: occurs_at_def)
  have zero: "occurs_at (x # xs) needle 0 \<longleftrightarrow> take (length needle) (x # xs) = needle"
  proof -
    have "length (take (length needle) (x # xs)) = length needle \<longleftrightarrow> length needle \<le> length (x # xs)" by auto
    then show ?thesis unfolding occurs_at_def by (metis add_0 drop0)
  qed
  have all: "(\<forall>j. \<not> occurs_at (x # xs) needle j) \<longleftrightarrow> \<not> occurs_at (x # xs) needle 0 \<and> (\<forall>j. \<not> occurs_at xs needle j)"
    "(\<forall>j > 0. \<not> occurs_at (x # xs) needle j) \<longleftrightarrow> (\<forall>j. \<not> occurs_at xs needle j)"
    using shift by (metis not0_implies_Suc, metis gr0_conv_Suc zero_less_Suc)
  show ?case
  proof (cases "std_find_end xs needle")
    case None
    then show ?thesis using Cons zero all by (simp del: take_Cons)
  next
    case (Some i)
    then have "\<forall>j > Suc i. \<not> occurs_at (x # xs) needle j" using Cons shift by (auto simp: Suc_less_eq2)
    then show ?thesis using Some Cons shift by simp
  qed
qed

text \<open>
  \<open>StringPiece::rfind\<close> returns the last position at or before \<open>pos\<close> where the argument occurs, and
  \<open>npos\<close> when there is none; it never reads outside the two blocks.
\<close>
theorem StringPiece_rfind_last:
  assumes "in_block p" "in_block s"
  shows "\<exists>r. StringPiece_rfind p s pos = Inr r \<and>
     (r = npos \<longrightarrow> (\<forall>i \<le> pos. \<not> occurs_at (view p) (view s) i)) \<and>
     (r \<noteq> npos \<longrightarrow> r \<le> pos \<and> occurs_at (view p) (view s) r \<and> (\<forall>i. r < i \<and> i \<le> pos \<longrightarrow> \<not> occurs_at (view p) (view s) i))"
proof -
  have len: "length (view p) = sp_len p" "length (view s) = sp_len s" using assms by (simp_all add: length_view)
  have small: "sp_len p < npos" using assms by (auto simp: in_block_def npos_def)
  consider (short) "sp_len p < sp_len s" | (empty) "\<not> sp_len p < sp_len s" "sp_len s = 0"
    | (long) "\<not> sp_len p < sp_len s" "sp_len s \<noteq> 0" by blast
  then show ?thesis
  proof cases
    case short
    then show ?thesis using len by (auto simp: StringPiece_rfind_def occurs_at_def)
  next
    case empty
    then show ?thesis using len small by (auto simp: StringPiece_rfind_def occurs_at_def)
  next
    case long
    define m where "m = min (sp_len p - sp_len s) pos"
    let ?hay = "take (m + sp_len s) (view p)"
    have m: "m + sp_len s \<le> sp_len p" using long by (simp add: m_def)
    have eq: "StringPiece_rfind p s pos = Inr (case std_find_end ?hay (view s) of Some i \<Rightarrow> i | None \<Rightarrow> npos)"
      using long assms m read_block_view [of p 0 "m + sp_len s"] read_block_view [of s 0 "sp_len s"] len
      by (simp add: StringPiece_rfind_def m_def Let_def)
    have occ: "occurs_at ?hay (view s) i \<longleftrightarrow> i \<le> pos \<and> occurs_at (view p) (view s) i" for i
      using len m long by (auto simp: occurs_at_def m_def drop_take min_def)
    have "view s \<noteq> []" using long len by auto
    from std_find_end_spec [OF this, of ?hay] show ?thesis
    proof (cases "std_find_end ?hay (view s)")
      case (Some i)
      with std_find_end_spec [OF \<open>view s \<noteq> []\<close>, of ?hay] occ len small
      have "occurs_at (view p) (view s) i" "i \<le> pos" "i \<noteq> npos" "\<forall>j > i. \<not> (j \<le> pos \<and> occurs_at (view p) (view s) j)"
        by (auto simp: occurs_at_def)
      then show ?thesis using eq Some by auto
    qed (use std_find_end_spec [OF \<open>view s \<noteq> []\<close>, of ?hay] occ eq in auto)
  qed
qed

lemma memcmp_lex:
  fixes a b :: string
  defines "m \<equiv> min (length a) (length b)"
  shows "(memcmp (take m a) (take m b) < 0 \<or> memcmp (take m a) (take m b) = 0 \<and> length a < length b) \<longleftrightarrow> a < b"
    and "memcmp (take m a) (take m b) = 0 \<and> length a = length b \<longleftrightarrow> a = b"
    and "memcmp (take m b) (take m a) = - memcmp (take m a) (take m b)"
proof -
  have "((memcmp (take (min (length a) (length b)) a) (take (min (length a) (length b)) b) < 0 \<or>
         memcmp (take (min (length a) (length b)) a) (take (min (length a) (length b)) b) = 0 \<and> length a < length b) \<longleftrightarrow> a < b) \<and>
     (memcmp (take (min (length a) (length b)) a) (take (min (length a) (length b)) b) = 0 \<and> length a = length b \<longleftrightarrow> a = b) \<and>
     memcmp (take (min (length a) (length b)) b) (take (min (length a) (length b)) a)
       = - memcmp (take (min (length a) (length b)) a) (take (min (length a) (length b)) b)"
  proof (induction a arbitrary: b)
    case Nil
    then show ?case by (cases b) simp_all
  next
    case (Cons x a)
    show ?case
    proof (cases b)
      case (Cons y b')
      then show ?thesis using Cons.IH [of b'] by (cases x y rule: linorder_cases) auto
    qed simp
  qed
  then show "(memcmp (take m a) (take m b) < 0 \<or> memcmp (take m a) (take m b) = 0 \<and> length a < length b) \<longleftrightarrow> a < b"
    "memcmp (take m a) (take m b) = 0 \<and> length a = length b \<longleftrightarrow> a = b"
    "memcmp (take m b) (take m a) = - memcmp (take m a) (take m b)" by (simp_all add: m_def)
qed

lemma equal_loop_view:
  assumes "in_block x" "in_block y" "i + n = sp_len x" "sp_len x = sp_len y"
  shows "equal_loop x y i n = Inr (drop i (view x) = drop i (view y))"
  using assms(3)
proof (induction n arbitrary: i)
  case 0
  then show ?case using assms by (simp add: length_view)
next
  case (Suc n)
  then have "i < sp_len x" by simp
  then have "drop i (view x) = view x ! i # drop (Suc i) (view x)" "drop i (view y) = view y ! i # drop (Suc i) (view y)"
    using assms by (simp_all add: Cons_nth_drop_Suc length_view)
  then show ?case using Suc assms \<open>i < sp_len x\<close> by (simp add: read_char_view)
qed

text \<open>
  The comparison operators order pieces by their text: \<open>==\<close> is equality of the texts, \<open><\<close> is
  the lexicographic order on unsigned bytes, and \<open>compare\<close> has the sign that agrees with both.
\<close>
theorem StringPiece_order:
  assumes "in_block x" "in_block y"
  shows "StringPiece_equal x y = Inr (view x = view y) \<and> StringPiece_less x y = Inr (view x < view y) \<and>
     (\<exists>r. StringPiece_compare x y = Inr r \<and> (r < 0 \<longleftrightarrow> view x < view y) \<and> (r = 0 \<longleftrightarrow> view x = view y) \<and>
          (0 < r \<longleftrightarrow> view y < view x))"
proof (intro conjI)
  have len: "length (view x) = sp_len x" "length (view y) = sp_len y" using assms by (simp_all add: length_view)
  have rd: "read_block x 0 (min (sp_len x) (sp_len y)) = Inr (take (min (sp_len x) (sp_len y)) (view x))"
    "read_block y 0 (min (sp_len x) (sp_len y)) = Inr (take (min (sp_len x) (sp_len y)) (view y))"
    using assms by (simp_all add: read_block_view)
  note lex = memcmp_lex [of "view x" "view y", unfolded len]
  show "StringPiece_less x y = Inr (view x < view y)"
    using lex(1) by (simp add: StringPiece_less_def rd Let_def)
  show "\<exists>r. StringPiece_compare x y = Inr r \<and> (r < 0 \<longleftrightarrow> view x < view y) \<and> (r = 0 \<longleftrightarrow> view x = view y) \<and>
          (0 < r \<longleftrightarrow> view y < view x)"
    using lex(1,2) less_linear [of "view x" "view y"] by (auto simp: StringPiece_compare_def rd Let_def)
  show "StringPiece_equal x y = Inr (view x = view y)"
  proof (cases "sp_len x = sp_len y")
    case True
    have rc: "read_char x (sp_len x - 1) = Inr (view x ! (sp_len x - 1))" "read_char y (sp_len x - 1) = Inr (view y ! (sp_len x - 1))"
      if "0 < sp_len x" using that True assms by (simp_all add: read_char_view)
    then show ?thesis
      using equal_loop_view [OF assms _ True, of 0 "sp_len x"] True len
      by (cases "0 < sp_len x") (auto simp: StringPiece_equal_def Let_def)
  next
    case False
    then show ?thesis using len by (auto simp: StringPiece_equal_def)
  qed
qed

lemma StringPiece_order_derived:
  assumes "in_block x" "in_block y"
  shows "StringPiece_not_equal x y = Inr (view x \<noteq> view y)" "StringPiece_greater x y = Inr (view y < view x)"
    "StringPiece_less_equal x y = Inr (view x \<le> view y)" "StringPiece_greater_equal x y = Inr (view y \<le> view x)"
  using StringPiece_order [OF assms] StringPiece_order [OF assms(2,1)]
  by (simp_all add: StringPiece_not_equal_def StringPiece_greater_def StringPiece_less_equal_def StringPiece_greater_equal_def
      not_result_def linorder_not_less)

text \<open>
  \<open>remove_prefix\<close>, \<open>remove_suffix\<close> and \<open>substr\<close> keep a piece inside its block and denote the
  expected part of the text; \<open>advance\<close> by a positive offset moves the start without shortening the
  piece, so a piece that ends at the end of its block leaves it and its last byte cannot be read.
\<close>
theorem StringPiece_parts:
  assumes "in_block s"
  shows "(n \<le> sp_len s \<longrightarrow> (\<exists>s'. StringPiece_remove_prefix s n = Inr s' \<and> in_block s' \<and> view s' = drop n (view s))) \<and>
     (n \<le> sp_len s \<longrightarrow> (\<exists>s'. StringPiece_remove_suffix s n = Inr s' \<and> in_block s' \<and> view s' = take (sp_len s - n) (view s))) \<and>
     in_block (StringPiece_substr s pos n) \<and> view (StringPiece_substr s pos n) = take n (drop pos (view s)) \<and>
     (0 < n \<and> n < sp_len s \<and> sp_ptr s + sp_len s = length (sp_mem s) \<longrightarrow>
        (\<exists>s'. StringPiece_advance s n = Inr s' \<and> \<not> in_block s' \<and> read_char s' (sp_len s' - 1) = Inl Out_Of_Bounds))"
proof -
  have "view (StringPiece_substr s pos n) = take n (drop pos (view s))"
    using assms by (auto simp: view_def StringPiece_substr_def in_block_def Let_def drop_take min_def add.commute)
  then show ?thesis
    using assms
    by (auto simp: StringPiece_remove_prefix_def StringPiece_remove_suffix_def StringPiece_substr_def
        StringPiece_advance_def in_block_def view_def read_char_def vec_get_def Let_def drop_take add.commute)
qed

text \<open>\<open>HexString\<close> never reports more bytes than the buffer holds.\<close>

lemma hex_dump_bounded: "length (HexString buffer_length data) \<le> buffer_length"
proof -
  have emit: "length out' \<le> buffer_length"
    if "hex_emit buffer_length out t = Some out'" "length out \<le> buffer_length" for out out' t
  proof -
    have "i32 (int (buffer_length - length out)) \<le> int (buffer_length - length out)"
      unfolding i32_def by (simp add: signed_take_bit_int_less_eq_self_iff)
    then show ?thesis using that by (auto simp: hex_emit_def Let_def split: if_splits)
  qed
  have step: "length out' \<le> buffer_length" if "HexString_step buffer_length i c out = (x, out')" "length out \<le> buffer_length" for i c out x out'
    using that by (auto simp: HexString_step_def dest: emit emit [OF sym] split: option.splits if_splits)
  have "length (HexString_loop buffer_length i cs out) \<le> buffer_length" if "length out \<le> buffer_length" for i cs out
    using that by (induction cs arbitrary: i out) (auto split: prod.splits option.splits dest: step)
  then show ?thesis by (simp add: HexString_def)
qed

lemma HexString_exact_fit_truncates: "HexString 11 ''a'' = ''\<newline>0x0000: 6'' @ [CHR 0x00]"
proof -
  have h: "pad_zero 4 (hex_lower 0) = ''0000''" "pad_zero 2 (hex_lower 97) = ''61''"
    by (simp_all add: hex_lower.simps pad_zero_def numeral_3_eq_3)
  have e: "hex_emit 11 '''' (''\<newline>0x'' @ ''0000'' @ '':'') = Some ''\<newline>0x0000:''"
    "hex_emit 11 ''\<newline>0x0000:'' '' '' = Some ''\<newline>0x0000: ''"
    "hex_emit 11 ''\<newline>0x0000: '' ''61'' = Some (''\<newline>0x0000: 6'' @ [CHR 0x00])"
    by (simp_all add: hex_emit_def i32_id)
  have "HexString_step 11 0 (CHR ''a'') '''' = (Some (''\<newline>0x0000: 6'' @ [CHR 0x00]), ''\<newline>0x0000: 6'' @ [CHR 0x00])"
    unfolding HexString_step_def using h e by simp
  then show ?thesis by (simp add: HexString_def)
qed

end
