(* ===== verification/Protobuf.thy ===== *)
theory Protobuf
  imports Uri Strings "HOL-Library.Multiset"
begin

text \<open>
  Conversion between protobuf messages and JSON, \<^verbatim>\<open>protobuf/ProtobufIO.cc\<close>.

  Descriptors, messages and JSON values are data with the accessors documented for protobuf reflection and rapidjson: a
  message has one content per field of its descriptor, \<open>ListFields\<close> gives the set ones by field number, a JSON object is
  its members in order and a lookup takes the first. A failing \<open>RAPIDJSON_ASSERT\<close> and a wrong use of reflection end the
  process (\<open>Check_Failed\<close>). The double type, its roundings and \<open>lexical_cast\<close> are the environment, the JSON text writer and
  parser are arguments of the two entry points.

  \<open>SetString(data, length)\<close> does not copy: the value keeps a pointer. For singular strings it points into a local string of
  the block, which is gone when the value is used, so the value is \<open>JDangling\<close>.
\<close>

subsection \<open>Descriptors, messages and JSON values\<close>

datatype label = LABEL_OPTIONAL | LABEL_REQUIRED | LABEL_REPEATED

datatype field = Field (field_name: string) (field_number: nat) (field_label: label) (field_type: ftype)
and ftype = T_INT32 | T_UINT32 | T_INT64 | T_UINT64 | T_FLOAT | T_DOUBLE | T_BOOL
  | T_ENUM "(string \<times> int) list" | T_STRING bool | T_MESSAGE "field list"

datatype 'd message = Msg "'d content list"
and 'd content = Unset | One "'d pvalue" | Many "'d pvalue list"
and 'd pvalue = PInt int | PDouble 'd | PBool bool | PEnum int | PString string | PMsg "'d message"

datatype 'd json = JNull | JBool bool | JInt int | JDouble 'd | JString string | JDangling | JArray "'d json list"
  | JObject "(string \<times> 'd json) list"

record 'd number_env =
  to_float :: "'d \<Rightarrow> 'd"
  of_integer :: "int \<Rightarrow> 'd"
  lexical_int64 :: "string \<Rightarrow> int option"
  lexical_uint64 :: "string \<Rightarrow> int option"

definition is_repeated :: "field \<Rightarrow> bool" where "is_repeated f \<longleftrightarrow> field_label f = LABEL_REPEATED"
definition is_required :: "field \<Rightarrow> bool" where "is_required f \<longleftrightarrow> field_label f = LABEL_REQUIRED"

fun is_set :: "'d content \<Rightarrow> bool" where
  "is_set Unset = False"
| "is_set (One v) = True"
| "is_set (Many vs) = (vs \<noteq> [])"

definition ListFields :: "field list \<Rightarrow> 'd content list \<Rightarrow> (field \<times> 'd content) list" where
  "ListFields fs cs = sort_key (\<lambda>x. field_number (fst x)) (filter (\<lambda>x. is_set (snd x)) (zip fs cs))"

definition empty_content :: "field \<Rightarrow> 'd content" where
  "empty_content f = (if is_repeated f then Many [] else Unset)"

definition empty_message :: "field list \<Rightarrow> 'd message" where
  "empty_message fs = Msg (map empty_content fs)"

definition c_string :: "string \<Rightarrow> string" where
  "c_string s = takeWhile (\<lambda>c. c \<noteq> CHR 0x00) s"

text \<open>A computation that ends the process, returns false, or has a value.\<close>

definition bindO :: "'a option result \<Rightarrow> ('a \<Rightarrow> 'b option result) \<Rightarrow> 'b option result" where
  "bindO m f = bindR m (\<lambda>r. case r of None \<Rightarrow> Inr None | Some x \<Rightarrow> f x)"

lemma bindO_simps [simp]: "bindO (Inl e) f = Inl e" "bindO (Inr None) f = Inr None" "bindO (Inr (Some x)) f = f x"
  by (simp_all add: bindO_def)

lemma bindO_cong [fundef_cong]:
  "m = m' \<Longrightarrow> (\<And>x. m' = Inr (Some x) \<Longrightarrow> f x = f' x) \<Longrightarrow> bindO m f = bindO m' f'"
  by (cases m') (auto simp: bindO_def split: option.split)

subsection \<open>Serialisation\<close>

text \<open>One number, truth value or enumerator; one string, copied or not.\<close>

fun scalar_json :: "ftype \<Rightarrow> 'd pvalue \<Rightarrow> 'd json result" where
  "scalar_json T_INT32 (PInt n) = Inr (JInt n)"
| "scalar_json T_UINT32 (PInt n) = Inr (JInt n)"
| "scalar_json T_INT64 (PInt n) = Inr (JInt n)"
| "scalar_json T_UINT64 (PInt n) = Inr (JInt n)"
| "scalar_json T_FLOAT (PDouble d) = Inr (JDouble d)"
| "scalar_json T_DOUBLE (PDouble d) = Inr (JDouble d)"
| "scalar_json T_BOOL (PBool b) = Inr (JBool b)"
| "scalar_json (T_ENUM vals) (PEnum n) = Inr (JInt n)"
| "scalar_json _ _ = Inl Check_Failed"

fun string_json :: "bool \<Rightarrow> bool \<Rightarrow> 'd pvalue \<Rightarrow> 'd json result" where
  "string_json repeated bytes (PString s) =
     (let field_data = (if bytes then UriEscape s '''' Mode_ALL else s)
      in Inr (if repeated then JString field_data else JDangling))"
| "string_json _ _ _ = Inl Check_Failed"

lemma size_zip_contents:
  "(\<Sum>x \<leftarrow> filter P (zip fs cs). Suc (size (snd x))) \<le> size_list size cs"
  by (induction fs cs rule: list_induct2') auto

lemma size_ListFields: "(\<Sum>x \<leftarrow> ListFields fs cs. Suc (size (snd x))) \<le> size_list size cs"
proof -
  have "(\<Sum>x \<leftarrow> ListFields fs cs. Suc (size (snd x))) = (\<Sum>x \<leftarrow> filter (\<lambda>x. is_set (snd x)) (zip fs cs). Suc (size (snd x)))"
    unfolding ListFields_def by (simp flip: sum_mset_sum_list)
  then show ?thesis using size_zip_contents [of "\<lambda>x. is_set (snd x)" fs cs] by simp
qed

function (sequential) SerializeToJsonValue :: "field list \<Rightarrow> 'd message \<Rightarrow> (string \<times> 'd json) list option result"
and serialize_fields :: "(field \<times> 'd content) list \<Rightarrow> (string \<times> 'd json) list option result"
and serialize_field :: "field \<Rightarrow> 'd content \<Rightarrow> 'd json option result"
and serialize_items :: "ftype \<Rightarrow> 'd pvalue list \<Rightarrow> 'd json list option result"
and serialize_message :: "field list \<Rightarrow> 'd pvalue \<Rightarrow> 'd json option result" where
  "SerializeToJsonValue fs (Msg cs) = serialize_fields (ListFields fs cs)"
| "serialize_fields [] = Inr (Some [])"
| "serialize_fields ((f, c) # rest) =
     (if \<not> is_repeated f \<and> \<not> is_set c then if is_required f then Inr None else serialize_fields rest
      else bindO (serialize_field f c) (\<lambda>v. bindO (serialize_fields rest) (\<lambda>ms. Inr (Some ((field_name f, v) # ms)))))"
| "serialize_field f (Many vs) = (if is_repeated f then bindO (serialize_items (field_type f) vs) (\<lambda>js. Inr (Some (JArray js))) else Inl Check_Failed)"
| "serialize_field f (One v) =
     (if is_repeated f then Inl Check_Failed
      else case field_type f of
        T_MESSAGE d \<Rightarrow> serialize_message d v
      | T_STRING bytes \<Rightarrow> bindR (string_json False bytes v) (\<lambda>j. Inr (Some j))
      | t \<Rightarrow> bindR (scalar_json t v) (\<lambda>j. Inr (Some j)))"
| "serialize_field f Unset = Inl Check_Failed"
| "serialize_items t [] = Inr (Some [])"
| "serialize_items t (v # vs) =
     bindO (case t of T_MESSAGE d \<Rightarrow> serialize_message d v
            | T_STRING bytes \<Rightarrow> bindR (string_json True bytes v) (\<lambda>j. Inr (Some j))
            | _ \<Rightarrow> bindR (scalar_json t v) (\<lambda>j. Inr (Some j))) (\<lambda>j.
     bindO (serialize_items t vs) (\<lambda>js. Inr (Some (j # js))))"
| "serialize_message d (PMsg m) = bindO (SerializeToJsonValue d m) (\<lambda>ms. Inr (Some (JObject ms)))"
| "serialize_message d _ = Inl Check_Failed"
  by pat_completeness auto

termination
  by (relation "measure (\<lambda>x. case x of Inl (Inl (fs, m)) \<Rightarrow> size m
      | Inl (Inr fcs) \<Rightarrow> (\<Sum>x \<leftarrow> fcs. Suc (size (snd x)))
      | Inr (Inl (f, c)) \<Rightarrow> size c
      | Inr (Inr (Inl (t, vs))) \<Rightarrow> size_list size vs
      | Inr (Inr (Inr (d, v))) \<Rightarrow> size v)")
    (auto simp: less_Suc_eq_le size_ListFields)

text \<open>The text a document is written as; a value that dangles is read while it is written.\<close>

fun dangles :: "'d json \<Rightarrow> bool" where
  "dangles JDangling = True"
| "dangles (JArray js) = list_ex dangles js"
| "dangles (JObject ms) = list_ex (\<lambda>x. dangles (snd x)) ms"
| "dangles _ = False"

definition SerializeToJson :: "('d json \<Rightarrow> string) \<Rightarrow> field list \<Rightarrow> 'd message \<Rightarrow> string \<Rightarrow> (bool \<times> string) result" where
  "SerializeToJson write fs m output =
     bindR (SerializeToJsonValue fs m) (\<lambda>r.
       case r of None \<Rightarrow> Inr (False, output)
       | Some ms \<Rightarrow> if dangles (JObject ms) then Inl Dangling_Pointer else Inr (True, c_string (write (JObject ms))))"

subsection \<open>Parsing\<close>

definition uint32 :: "int \<Rightarrow> bool" where "uint32 n \<longleftrightarrow> 0 \<le> n \<and> n < 2 ^ 32"
definition uint64 :: "int \<Rightarrow> bool" where "uint64 n \<longleftrightarrow> 0 \<le> n \<and> n < 2 ^ 64"

text \<open>\<open>GetDouble\<close> takes every number.\<close>

fun get_double :: "'d number_env \<Rightarrow> 'd json \<Rightarrow> 'd result" where
  "get_double E (JDouble d) = Inr d"
| "get_double E (JInt n) = Inr (of_integer E n)"
| "get_double E _ = Inl Check_Failed"

definition lexical :: "(string \<Rightarrow> int option) \<Rightarrow> string \<Rightarrow> 'd pvalue option result" where
  "lexical cast s = (case cast (c_string s) of None \<Rightarrow> Inl (Invalid_Argument ''bad_lexical_cast'') | Some n \<Rightarrow> Inr (Some (PInt n)))"

text \<open>The cases that singular and repeated fields share.\<close>

fun wide_value :: "(int \<Rightarrow> bool) \<Rightarrow> (string \<Rightarrow> int option) \<Rightarrow> 'd json \<Rightarrow> 'd pvalue option result" where
  "wide_value is_type cast (JInt n) = Inr (if is_type n then Some (PInt n) else None)"
| "wide_value is_type cast (JString s) = lexical cast s"
| "wide_value is_type cast _ = Inr None"

fun string_value :: "bool \<Rightarrow> 'd json \<Rightarrow> 'd pvalue option result" where
  "string_value bytes (JString s) =
     (if bytes then bindR (UriUnescape (c_string s) '''' Mode_ALL) (\<lambda>u. Inr (Some (PString u))) else Inr (Some (PString (c_string s))))"
| "string_value bytes _ = Inr None"

text \<open>An item of a repeated field that is no message: \<open>None\<close> for a type error.\<close>

fun repeated_item :: "'d number_env \<Rightarrow> ftype \<Rightarrow> 'd json \<Rightarrow> 'd pvalue option result" where
  "repeated_item E T_INT32 j = Inr (case j of JInt n \<Rightarrow> if is_i32 n then Some (PInt n) else None | _ \<Rightarrow> None)"
| "repeated_item E T_UINT32 j = Inr (case j of JInt n \<Rightarrow> if uint32 n then Some (PInt n) else None | _ \<Rightarrow> None)"
| "repeated_item E T_FLOAT j = Inr (case j of JDouble d \<Rightarrow> Some (PDouble (to_float E d)) | _ \<Rightarrow> None)"
| "repeated_item E T_DOUBLE j = Inr (case j of JDouble d \<Rightarrow> Some (PDouble d) | _ \<Rightarrow> None)"
| "repeated_item E T_BOOL j = Inr (case j of JBool b \<Rightarrow> Some (PBool b) | _ \<Rightarrow> None)"
| "repeated_item E T_INT64 j = wide_value is_i64 (lexical_int64 E) j"
| "repeated_item E T_UINT64 j = wide_value uint64 (lexical_uint64 E) j"
| "repeated_item E (T_ENUM vals) j =
     Inr (case j of JInt n \<Rightarrow> if is_i32 n \<and> n \<in> set (map snd vals) then Some (PEnum n) else None | _ \<Rightarrow> None)"
| "repeated_item E (T_STRING bytes) j = string_value bytes j"
| "repeated_item E (T_MESSAGE d) j = Inr None"

text \<open>A singular value that is no message: the number and truth value getters assert the type.\<close>

fun singular_value :: "'d number_env \<Rightarrow> ftype \<Rightarrow> 'd json \<Rightarrow> 'd pvalue option result" where
  "singular_value E T_INT32 j = (case j of JInt n \<Rightarrow> CHECK (is_i32 n) (Inr (Some (PInt n))) | _ \<Rightarrow> Inl Check_Failed)"
| "singular_value E T_UINT32 j = (case j of JInt n \<Rightarrow> CHECK (uint32 n) (Inr (Some (PInt n))) | _ \<Rightarrow> Inl Check_Failed)"
| "singular_value E T_FLOAT j = bindR (get_double E j) (\<lambda>d. Inr (Some (PDouble (to_float E d))))"
| "singular_value E T_DOUBLE j = bindR (get_double E j) (\<lambda>d. Inr (Some (PDouble d)))"
| "singular_value E T_BOOL j = (case j of JBool b \<Rightarrow> Inr (Some (PBool b)) | _ \<Rightarrow> Inl Check_Failed)"
| "singular_value E T_INT64 j = wide_value is_i64 (lexical_int64 E) j"
| "singular_value E T_UINT64 j = wide_value uint64 (lexical_uint64 E) j"
| "singular_value E (T_ENUM vals) j =
     Inr (case j of JString s \<Rightarrow> map_option PEnum (map_of vals (c_string s)) | _ \<Rightarrow> None)"
| "singular_value E (T_STRING bytes) j = string_value bytes j"
| "singular_value E (T_MESSAGE d) j = Inr None"

text \<open>\<open>MutableMessage\<close>: the message of the field, a fresh one when it is not set.\<close>

fun mutable_message :: "field list \<Rightarrow> 'd content \<Rightarrow> 'd message" where
  "mutable_message d (One (PMsg m)) = m"
| "mutable_message d _ = empty_message d"

fun added_to :: "'d content \<Rightarrow> 'd pvalue list" where
  "added_to (Many vs) = vs"
| "added_to _ = []"

fun sub_fields :: "ftype \<Rightarrow> nat" where
  "sub_fields (T_MESSAGE d) = length d"
| "sub_fields _ = 0"

lemma size_member: "map_of ms k = Some j \<Longrightarrow> size j < size (JObject ms)"
proof (induction ms)
  case (Cons m ms)
  then show ?case by (cases m) (auto split: if_splits)
qed simp

text \<open>
  Each function returns the message as far as it was filled and whether it returned true. The fields are visited in the
  order of the descriptor, which is that of the contents.
\<close>

function (sequential) ParseFromJsonValue :: "'d number_env \<Rightarrow> field list \<Rightarrow> 'd json \<Rightarrow> 'd message \<Rightarrow> ('d message \<times> bool) result"
and parse_fields :: "'d number_env \<Rightarrow> (string \<times> 'd json) list \<Rightarrow> field list \<Rightarrow> 'd content list \<Rightarrow> ('d content list \<times> bool) result"
and parse_field :: "'d number_env \<Rightarrow> field \<Rightarrow> 'd json \<Rightarrow> 'd content \<Rightarrow> ('d content \<times> bool) result"
and parse_items :: "'d number_env \<Rightarrow> ftype \<Rightarrow> 'd json list \<Rightarrow> 'd pvalue list \<Rightarrow> ('d pvalue list \<times> bool) result" where
  "ParseFromJsonValue E fs (JObject ms) (Msg cs) = bindR (parse_fields E ms fs cs) (\<lambda>(cs, b). Inr (Msg cs, b))"
| "ParseFromJsonValue E fs _ m = Inl Check_Failed"
| "parse_fields E ms (f # fs) (c # cs) =
     (case map_of ms (field_name f) of
        None \<Rightarrow> if is_required f then Inr (c # cs, False)
                else bindR (parse_fields E ms fs cs) (\<lambda>(cs, b). Inr (c # cs, b))
      | Some value \<Rightarrow>
          bindR (parse_field E f value c) (\<lambda>(c, b).
            if b then bindR (parse_fields E ms fs cs) (\<lambda>(cs, b). Inr (c # cs, b)) else Inr (c # cs, False)))"
| "parse_fields E ms _ cs = Inr (cs, True)"
| "parse_field E f value c =
     (if is_repeated f
      then case value of JArray items \<Rightarrow> bindR (parse_items E (field_type f) items (added_to c)) (\<lambda>(vs, b). Inr (Many vs, b))
           | _ \<Rightarrow> Inr (c, False)
      else case field_type f of
        T_MESSAGE d \<Rightarrow>
          (case value of JObject ms \<Rightarrow> bindR (ParseFromJsonValue E d (JObject ms) (mutable_message d c)) (\<lambda>(m, b). Inr (One (PMsg m), b))
           | _ \<Rightarrow> Inr (c, False))
      | t \<Rightarrow> bindR (singular_value E t value) (\<lambda>r. case r of None \<Rightarrow> Inr (c, False) | Some v \<Rightarrow> Inr (One v, True)))"
| "parse_items E t [] vs = Inr (vs, True)"
| "parse_items E t (item # items) vs =
     (case t of
        T_MESSAGE d \<Rightarrow>
          (case item of JObject ms \<Rightarrow>
             bindR (ParseFromJsonValue E d (JObject ms) (empty_message d)) (\<lambda>(m, b).
               if b then parse_items E t items (vs @ [PMsg m]) else Inr (vs @ [PMsg m], False))
           | _ \<Rightarrow> Inr (vs, False))
      | _ \<Rightarrow> bindR (repeated_item E t item) (\<lambda>r. case r of None \<Rightarrow> Inr (vs, False) | Some v \<Rightarrow> parse_items E t items (vs @ [v])))"
  by pat_completeness auto

termination
  by (relation "measures [\<lambda>x. case x of Inl (Inl (E, fs, j, m)) \<Rightarrow> size j
      | Inl (Inr (E, ms, fs, cs)) \<Rightarrow> size (JObject ms)
      | Inr (Inl (E, f, j, c)) \<Rightarrow> size j
      | Inr (Inr (E, t, js, vs)) \<Rightarrow> size_list size js,
     \<lambda>x. case x of Inl (Inl (E, fs, j, m)) \<Rightarrow> Suc (length fs)
      | Inl (Inr (E, ms, fs, cs)) \<Rightarrow> length fs
      | Inr (Inl (E, f, j, c)) \<Rightarrow> Suc (Suc (sub_fields (field_type f)))
      | Inr (Inr (E, t, js, vs)) \<Rightarrow> 0]")
    (auto dest: size_member)

text \<open>\<open>json.data()\<close> is read up to the NUL behind it, whatever the length of the piece is.\<close>

definition data_c_str :: "string_piece \<Rightarrow> string result" where
  "data_c_str s = (let rest = drop (sp_ptr s) (sp_mem s)
     in if CHR 0x00 \<in> set rest then Inr (c_string rest) else Inl Out_Of_Bounds)"

definition ParseFromJson ::
    "(string \<Rightarrow> 'd json option) \<Rightarrow> 'd number_env \<Rightarrow> field list \<Rightarrow> string_piece \<Rightarrow> 'd message \<Rightarrow> ('d message \<times> bool) result" where
  "ParseFromJson parse E fs json m =
     bindR (data_c_str json) (\<lambda>text.
       case parse text of None \<Rightarrow> Inr (m, False) | Some root \<Rightarrow> ParseFromJsonValue E fs root m)"

subsection \<open>Messages that survive\<close>

text \<open>
  A message that fits its descriptor: every content has the type of its field, required fields are set, names are distinct,
  and there is nothing the conversion is known to lose: no singular string and no singular enumerator, no NUL in a repeated
  text, no float that is not one.
\<close>

fun fits_message :: "'d number_env \<Rightarrow> field list \<Rightarrow> 'd message \<Rightarrow> bool"
and fits_contents :: "'d number_env \<Rightarrow> field list \<Rightarrow> 'd content list \<Rightarrow> bool"
and fits_content :: "'d number_env \<Rightarrow> field \<Rightarrow> 'd content \<Rightarrow> bool"
and fits_values :: "'d number_env \<Rightarrow> ftype \<Rightarrow> 'd pvalue list \<Rightarrow> bool"
and fits_value :: "'d number_env \<Rightarrow> bool \<Rightarrow> ftype \<Rightarrow> 'd pvalue \<Rightarrow> bool" where
  "fits_message E fs (Msg cs) \<longleftrightarrow> distinct (map field_name fs) \<and> fits_contents E fs cs"
| "fits_contents E (f # fs) (c # cs) \<longleftrightarrow> fits_content E f c \<and> fits_contents E fs cs"
| "fits_contents E fs cs \<longleftrightarrow> fs = [] \<and> cs = []"
| "fits_content E f Unset \<longleftrightarrow> field_label f = LABEL_OPTIONAL"
| "fits_content E f (One v) \<longleftrightarrow> field_label f \<noteq> LABEL_REPEATED \<and> fits_value E False (field_type f) v"
| "fits_content E f (Many vs) \<longleftrightarrow> field_label f = LABEL_REPEATED \<and> fits_values E (field_type f) vs"
| "fits_values E t [] \<longleftrightarrow> True"
| "fits_values E t (v # vs) \<longleftrightarrow> fits_value E True t v \<and> fits_values E t vs"
| "fits_value E rep T_INT32 (PInt n) \<longleftrightarrow> is_i32 n"
| "fits_value E rep T_UINT32 (PInt n) \<longleftrightarrow> uint32 n"
| "fits_value E rep T_INT64 (PInt n) \<longleftrightarrow> is_i64 n"
| "fits_value E rep T_UINT64 (PInt n) \<longleftrightarrow> uint64 n"
| "fits_value E rep T_FLOAT (PDouble d) \<longleftrightarrow> to_float E d = d"
| "fits_value E rep T_DOUBLE (PDouble d) \<longleftrightarrow> True"
| "fits_value E rep T_BOOL (PBool b) \<longleftrightarrow> True"
| "fits_value E rep (T_ENUM vals) (PEnum n) \<longleftrightarrow> rep \<and> is_i32 n \<and> n \<in> set (map snd vals)"
| "fits_value E rep (T_STRING bytes) (PString s) \<longleftrightarrow> rep \<and> (bytes \<or> CHR 0x00 \<notin> set s)"
| "fits_value E rep (T_MESSAGE d) (PMsg m) \<longleftrightarrow> fits_message E d m"
| "fits_value E rep t v \<longleftrightarrow> False"

text \<open>What the two directions do with one field and with one message.\<close>

definition field_survives :: "'d number_env \<Rightarrow> field \<Rightarrow> 'd content \<Rightarrow> bool" where
  "field_survives E f c \<longleftrightarrow>
     (if is_set c then \<exists>j. serialize_field f c = Inr (Some j) \<and> \<not> dangles j \<and> parse_field E f j (empty_content f) = Inr (c, True)
      else c = empty_content f \<and> \<not> is_required f)"

definition message_survives :: "'d number_env \<Rightarrow> field list \<Rightarrow> 'd message \<Rightarrow> bool" where
  "message_survives E fs m \<longleftrightarrow>
     (\<exists>ms. SerializeToJsonValue fs m = Inr (Some ms) \<and> \<not> dangles (JObject ms) \<and>
       ParseFromJsonValue E fs (JObject ms) (empty_message fs) = Inr (m, True))"

definition json_of :: "field \<Rightarrow> 'd content \<Rightarrow> 'd json" where
  "json_of f c = (case serialize_field f c of Inr (Some j) \<Rightarrow> j | _ \<Rightarrow> JNull)"

lemma field_survives_json:
  "field_survives E f c \<Longrightarrow> is_set c \<Longrightarrow>
     serialize_field f c = Inr (Some (json_of f c)) \<and> \<not> dangles (json_of f c) \<and> parse_field E f (json_of f c) (empty_content f) = Inr (c, True)"
proof -
  assume "field_survives E f c" "is_set c"
  then obtain j where j: "serialize_field f c = Inr (Some j)" "\<not> dangles j \<and> parse_field E f j (empty_content f) = Inr (c, True)"
    unfolding field_survives_def by (simp only: if_True) (elim exE conjE, simp)
  have "json_of f c = j" by (simp add: json_of_def j(1))
  then show ?thesis using j by (simp only: simp_thms)
qed

definition members_of :: "(field \<times> 'd content) list \<Rightarrow> (string \<times> 'd json) list" where
  "members_of fcs = map (\<lambda>x. (field_name (fst x), json_of (fst x) (snd x))) fcs"

lemma serialize_fields_all:
  "\<forall>x \<in> set fcs. is_set (snd x) \<and> field_survives E (fst x) (snd x) \<Longrightarrow>
     serialize_fields fcs = Inr (Some (members_of fcs)) \<and> \<not> dangles (JObject (members_of fcs))"
proof (induction fcs)
  case (Cons x fcs)
  obtain f c where x: "x = (f, c)" by (cases x)
  have "is_set c" "field_survives E f c" using Cons.prems by (simp_all add: x)
  with field_survives_json [OF this(2,1)] Cons show ?case by (simp add: x members_of_def)
qed (simp add: members_of_def)

lemma parse_fields_all:
  assumes "length fs = length cs"
    "\<forall>x \<in> set (zip fs cs). field_survives E (fst x) (snd x) \<and>
       map_of ms (field_name (fst x)) = (if is_set (snd x) then Some (json_of (fst x) (snd x)) else None)"
  shows "parse_fields E ms fs (map empty_content fs) = Inr (cs, True)"
  using assms
proof (induction fs cs rule: list_induct2)
  case (Cons f fs c cs)
  have f: "field_survives E f c" "map_of ms (field_name f) = (if is_set c then Some (json_of f c) else None)"
    and IH: "parse_fields E ms fs (map empty_content fs) = Inr (cs, True)"
    using Cons by simp_all
  show ?case
  proof (cases "is_set c")
    case True
    then show ?thesis using f(2) IH field_survives_json [OF f(1) True] by simp
  next
    case False
    then show ?thesis using f IH by (simp add: field_survives_def)
  qed
qed simp

lemma set_ListFields: "set (ListFields fs cs) = {x \<in> set (zip fs cs). is_set (snd x)}"
  by (auto simp: ListFields_def)

lemma map_of_members:
  assumes "distinct (map field_name fs)" "length fs = length cs" "x \<in> set (zip fs cs)"
  shows "map_of (members_of (ListFields fs cs)) (field_name (fst x)) = (if is_set (snd x) then Some (json_of (fst x) (snd x)) else None)"
proof -
  have "map (\<lambda>x. field_name (fst x)) (zip fs cs) = map field_name fs"
    using assms(2) by (induction fs cs rule: list_induct2) simp_all
  then have inj: "inj_on (\<lambda>x. field_name (fst x)) (set (zip fs cs))" and dz: "distinct (zip fs cs)"
    using assms(1) by (metis distinct_map)+
  have "distinct (ListFields fs cs)" using dz by (simp add: ListFields_def)
  then have d: "distinct (map fst (members_of (ListFields fs cs)))"
    using inj by (auto simp: members_of_def o_def distinct_map set_ListFields intro: inj_on_subset)
  show ?thesis
  proof (cases "is_set (snd x)")
    case True
    then have "(field_name (fst x), json_of (fst x) (snd x)) \<in> set (members_of (ListFields fs cs))"
      using assms(3) by (auto simp: members_of_def set_ListFields)
    then show ?thesis using True d by simp
  next
    case False
    have "field_name (fst x) \<notin> fst ` set (members_of (ListFields fs cs))"
    proof
      assume "field_name (fst x) \<in> fst ` set (members_of (ListFields fs cs))"
      then obtain y where "y \<in> set (zip fs cs)" "is_set (snd y)" "field_name (fst y) = field_name (fst x)"
        by (auto simp: members_of_def set_ListFields)
      with inj assms(3) False show False by (metis inj_onD)
    qed
    then show ?thesis using False by (simp add: map_of_eq_None_iff)
  qed
qed

lemma message_survivesI:
  assumes "distinct (map field_name fs)" "length fs = length cs" "\<forall>x \<in> set (zip fs cs). field_survives E (fst x) (snd x)"
  shows "message_survives E fs (Msg cs)"
proof -
  let ?ms = "members_of (ListFields fs cs)"
  have s: "serialize_fields (ListFields fs cs) = Inr (Some ?ms) \<and> \<not> dangles (JObject ?ms)"
    by (rule serialize_fields_all) (use assms(3) in \<open>auto simp: set_ListFields\<close>)
  have "parse_fields E ?ms fs (map empty_content fs) = Inr (cs, True)"
    by (rule parse_fields_all [OF assms(2)]) (use assms(3) map_of_members [OF assms(1,2)] in blast)
  with s show ?thesis unfolding message_survives_def by (intro exI [of _ ?ms]) (simp add: empty_message_def)
qed

text \<open>Values: what an item of a repeated field and what a singular value becomes.\<close>

definition items_survive :: "'d number_env \<Rightarrow> ftype \<Rightarrow> 'd pvalue list \<Rightarrow> bool" where
  "items_survive E t vs \<longleftrightarrow>
     (\<exists>js. serialize_items t vs = Inr (Some js) \<and> \<not> list_ex dangles js \<and> (\<forall>acc. parse_items E t js acc = Inr (acc @ vs, True)))"

definition value_survives :: "'d number_env \<Rightarrow> bool \<Rightarrow> ftype \<Rightarrow> 'd pvalue \<Rightarrow> bool" where
  "value_survives E rep t v \<longleftrightarrow>
     (if rep then \<exists>j. serialize_items t [v] = Inr (Some [j]) \<and> \<not> dangles j \<and>
        (\<forall>js acc. parse_items E t (j # js) acc = parse_items E t js (acc @ [v]))
      else \<forall>f. field_type f = t \<and> \<not> is_repeated f \<longrightarrow> field_survives E f (One v))"

lemma escape_char_no_NUL: "CHR 0x00 \<notin> set (escape_char mode c)"
proof -
  have "3 < kUriEscapeTable (byte (CHR 0x00))" by code_simp
  then have d: "mode_value mode < kUriEscapeTable (byte (CHR 0x00))" by (cases mode) simp_all
  have n: "CHR 0x00 \<notin> set kHexValues" by code_simp
  have l: "byte c div 16 < length kHexValues" "byte c mod 16 < length kHexValues"
    using byte_less [of c] by (simp_all add: kHexValues_def less_mult_imp_div_less)
  have "kHexValues ! (byte c div 16) \<noteq> CHR 0x00" "kHexValues ! (byte c mod 16) \<noteq> CHR 0x00"
    using n nth_mem [OF l(1)] nth_mem [OF l(2)] by metis+
  then show ?thesis using d by (cases mode) (auto simp: escape_char_def Let_def)
qed

lemma UriEscape_no_NUL: "CHR 0x00 \<notin> set (UriEscape s '''' mode)"
  by (simp add: UriEscape_def UriEscape_loop_ref escape_ref_def escape_char_no_NUL)

lemma UriUnescape_back: "UriUnescape (UriEscape s '''' mode) '''' mode = Inr s"
proof -
  have "unescape_ref mode (escape_ref mode s) = Inr s"
    by (induction s) (simp_all add: escape_ref_def unescape_escape_char)
  then show ?thesis by (simp add: UriEscape_def UriUnescape_def UriEscape_loop_ref UriUnescape_loop_ref)
qed

lemma c_string_id: "CHR 0x00 \<notin> set s \<Longrightarrow> c_string s = s"
  by (auto simp: c_string_def takeWhile_eq_all_conv)

lemma string_survives:
  "bytes \<or> CHR 0x00 \<notin> set s \<Longrightarrow>
     \<exists>u. string_json True bytes (PString s) = Inr (JString u) \<and> string_value bytes (JString u) = Inr (Some (PString s))"
  by (auto simp: c_string_id UriEscape_no_NUL UriUnescape_back)

lemma repeated_survives:
  assumes "scalar_json t v = Inr j" "\<not> dangles j" "repeated_item E t j = Inr (Some v)"
    "\<And>d. t \<noteq> T_MESSAGE d" "\<And>bytes. t \<noteq> T_STRING bytes"
  shows "value_survives E True t v"
  unfolding value_survives_def if_True
  by (intro exI [of _ j]) (use assms in \<open>cases t; simp\<close>)

lemma repeated_string_survives:
  assumes "bytes \<or> CHR 0x00 \<notin> set s"
  shows "value_survives E True (T_STRING bytes) (PString s)"
proof -
  obtain u where "string_json True bytes (PString s :: 'a pvalue) = Inr (JString u)"
      "string_value bytes (JString u :: 'a json) = Inr (Some (PString s))"
    using string_survives [OF assms] by blast
  then show ?thesis unfolding value_survives_def if_True by (intro exI [of _ "JString u"]) simp
qed

lemma repeated_enum_survives:
  "is_i32 n \<Longrightarrow> n \<in> set (map snd vals) \<Longrightarrow> value_survives E True (T_ENUM vals) (PEnum n)"
  by (rule repeated_survives [where j = "JInt n"]) simp_all

lemma plain_survives:
  assumes "fits_value E rep t v" "\<And>d. t \<noteq> T_MESSAGE d"
  shows "value_survives E rep t v"
proof (cases rep)
  case True
  then show ?thesis using assms
    by (cases t; cases v) (simp_all add: repeated_string_survives repeated_enum_survives repeated_survives del: set_map)
next
  case False
  show ?thesis using assms False
    by (cases t; cases v) (auto simp: value_survives_def field_survives_def empty_content_def CHECK_def)
qed

lemma message_value_survives: "message_survives E d m \<Longrightarrow> value_survives E rep (T_MESSAGE d) (PMsg m)"
  unfolding message_survives_def
  by (elim exE conjE) (auto simp: value_survives_def field_survives_def empty_content_def)

lemma items_survive_Cons: "value_survives E True t v \<Longrightarrow> items_survive E t vs \<Longrightarrow> items_survive E t (v # vs)"
proof -
  assume "value_survives E True t v" "items_survive E t vs"
  then obtain j js where j: "serialize_items t [v] = Inr (Some [j])" "\<not> dangles j"
      "\<forall>js acc. parse_items E t (j # js) acc = parse_items E t js (acc @ [v])"
    and js: "serialize_items t vs = Inr (Some js)" "\<not> list_ex dangles js" "\<forall>acc. parse_items E t js acc = Inr (acc @ vs, True)"
    by (auto simp: value_survives_def items_survive_def simp del: parse_items.simps serialize_items.simps)
  have "serialize_items t (v # vs) = Inr (Some (j # js))"
    using j(1) js(1) by (auto simp: bindO_def bindR_def split: sum.splits option.splits ftype.splits)
  moreover have "\<forall>acc. parse_items E t (j # js) acc = Inr (acc @ v # vs, True)" using j(3) js(3) by (simp del: parse_items.simps)
  ultimately show ?thesis using j(2) js(2) unfolding items_survive_def by (intro exI [of _ "j # js"]) simp
qed

lemma field_survives_Many: "items_survive E (field_type f) vs \<Longrightarrow> is_repeated f \<Longrightarrow> field_survives E f (Many vs)"
  unfolding items_survive_def
  by (elim exE conjE) (auto simp: field_survives_def empty_content_def is_required_def is_repeated_def)

lemma fits_survives:
  "fits_message E fs m \<Longrightarrow> message_survives E fs m"
  "fits_contents E fs cs \<Longrightarrow> length fs = length cs \<and> (\<forall>x \<in> set (zip fs cs). field_survives E (fst x) (snd x))"
  "fits_content E f c \<Longrightarrow> field_survives E f c"
  "fits_values E t vs \<Longrightarrow> items_survive E t vs"
  "fits_value E rep t v \<Longrightarrow> value_survives E rep t v"
proof (induction E fs m and E fs cs and E f c and E t vs and E rep t v
    rule: fits_message_fits_contents_fits_content_fits_values_fits_value.induct)
qed (auto intro: message_survivesI message_value_survives items_survive_Cons plain_survives field_survives_Many repeated_enum_survives
    simp: field_survives_def [of _ _ Unset] empty_content_def is_required_def is_repeated_def value_survives_def [of _ False]
      items_survive_def [of _ _ "[]"] simp del: set_map)

subsection \<open>Well-typed messages\<close>

text \<open>
  The contents a message of generated code can have: one per field, of the field's kind and type. The conversions of the
  environment give floats and numbers of the width they are for.
\<close>

definition env_ok :: "'d number_env \<Rightarrow> bool" where
  "env_ok E \<longleftrightarrow> (\<forall>d. to_float E (to_float E d) = to_float E d) \<and>
     (\<forall>s n. lexical_int64 E s = Some n \<longrightarrow> is_i64 n) \<and> (\<forall>s n. lexical_uint64 E s = Some n \<longrightarrow> uint64 n)"

fun typed_message :: "'d number_env \<Rightarrow> field list \<Rightarrow> 'd message \<Rightarrow> bool"
and typed_contents :: "'d number_env \<Rightarrow> field list \<Rightarrow> 'd content list \<Rightarrow> bool"
and typed_content :: "'d number_env \<Rightarrow> field \<Rightarrow> 'd content \<Rightarrow> bool"
and typed_values :: "'d number_env \<Rightarrow> ftype \<Rightarrow> 'd pvalue list \<Rightarrow> bool"
and typed_value :: "'d number_env \<Rightarrow> ftype \<Rightarrow> 'd pvalue \<Rightarrow> bool" where
  "typed_message E fs (Msg cs) \<longleftrightarrow> typed_contents E fs cs"
| "typed_contents E (f # fs) (c # cs) \<longleftrightarrow> typed_content E f c \<and> typed_contents E fs cs"
| "typed_contents E fs cs \<longleftrightarrow> fs = [] \<and> cs = []"
| "typed_content E f Unset \<longleftrightarrow> \<not> is_repeated f"
| "typed_content E f (One v) \<longleftrightarrow> \<not> is_repeated f \<and> typed_value E (field_type f) v"
| "typed_content E f (Many vs) \<longleftrightarrow> is_repeated f \<and> typed_values E (field_type f) vs"
| "typed_values E t [] \<longleftrightarrow> True"
| "typed_values E t (v # vs) \<longleftrightarrow> typed_value E t v \<and> typed_values E t vs"
| "typed_value E T_INT32 (PInt n) \<longleftrightarrow> is_i32 n"
| "typed_value E T_UINT32 (PInt n) \<longleftrightarrow> uint32 n"
| "typed_value E T_INT64 (PInt n) \<longleftrightarrow> is_i64 n"
| "typed_value E T_UINT64 (PInt n) \<longleftrightarrow> uint64 n"
| "typed_value E T_FLOAT (PDouble d) \<longleftrightarrow> to_float E d = d"
| "typed_value E T_DOUBLE (PDouble d) \<longleftrightarrow> True"
| "typed_value E T_BOOL (PBool b) \<longleftrightarrow> True"
| "typed_value E (T_ENUM vals) (PEnum n) \<longleftrightarrow> n \<in> set (map snd vals)"
| "typed_value E (T_STRING bytes) (PString s) \<longleftrightarrow> True"
| "typed_value E (T_MESSAGE d) (PMsg m) \<longleftrightarrow> typed_message E d m"
| "typed_value E t v \<longleftrightarrow> False"

lemma typed_empty: "typed_contents E fs (map empty_content fs)"
  by (induction fs) (auto simp: empty_content_def)

lemma typed_empty_message [simp]: "typed_message E fs (empty_message fs)"
  by (simp add: empty_message_def typed_empty)

lemma typed_values_append [simp]: "typed_values E t (vs @ ws) \<longleftrightarrow> typed_values E t vs \<and> typed_values E t ws"
  by (induction vs) auto

lemma typed_added_to: "typed_content E f c \<Longrightarrow> typed_values E (field_type f) (added_to c)"
  by (cases c) auto

lemma typed_mutable:
  "typed_content E f c \<Longrightarrow> field_type f = T_MESSAGE d \<Longrightarrow> typed_message E d (mutable_message d c)"
  by (cases "(d, c)" rule: mutable_message.cases) auto

lemma typed_wide:
  assumes "wide_value P cast j = Inr (Some v)" "\<And>s n. cast s = Some n \<Longrightarrow> P n"
  shows "\<exists>n. v = PInt n \<and> P n"
  using assms by (cases j) (auto simp: lexical_def split: if_splits option.splits)

lemma typed_string: "string_value bytes j = Inr (Some v) \<Longrightarrow> typed_value E (T_STRING bytes) v"
  by (cases j) (auto simp: bindR_def split: if_splits sum.splits)

lemma typed_repeated:
  assumes "env_ok E" "repeated_item E t j = Inr (Some v)"
  shows "typed_value E t v"
proof (cases t)
  case T_INT64
  then show ?thesis using assms typed_wide [of is_i64 "lexical_int64 E" j v] by (auto simp: env_ok_def)
next
  case T_UINT64
  then show ?thesis using assms typed_wide [of uint64 "lexical_uint64 E" j v] by (auto simp: env_ok_def)
next
  case (T_STRING bytes)
  then show ?thesis using assms typed_string by auto
next
  case (T_ENUM vals)
  then show ?thesis using assms by (force split: json.splits if_splits)
qed (use assms in \<open>auto simp: env_ok_def split: json.splits if_splits\<close>)

lemma typed_singular:
  assumes "env_ok E" "singular_value E t j = Inr (Some v)"
  shows "typed_value E t v"
proof (cases t)
  case T_INT64
  then show ?thesis using assms typed_wide [of is_i64 "lexical_int64 E" j v] by (auto simp: env_ok_def)
next
  case T_UINT64
  then show ?thesis using assms typed_wide [of uint64 "lexical_uint64 E" j v] by (auto simp: env_ok_def)
next
  case (T_STRING bytes)
  then show ?thesis using assms typed_string by auto
next
  case (T_ENUM vals)
  then show ?thesis using assms by (force dest: map_of_SomeD split: json.splits)
qed (use assms in \<open>auto simp: env_ok_def CHECK_def bindR_def split: json.splits if_splits sum.splits\<close>)

lemma parse_items_plain:
  "(\<And>d. t \<noteq> T_MESSAGE d) \<Longrightarrow> parse_items E t (item # items) vs =
     bindR (repeated_item E t item) (\<lambda>r. case r of None \<Rightarrow> Inr (vs, False) | Some v \<Rightarrow> parse_items E t items (vs @ [v]))"
  by (cases t) auto

lemma parse_typed:
  "env_ok E \<Longrightarrow> ParseFromJsonValue E fs j m = Inr (m', b) \<Longrightarrow> typed_message E fs m \<Longrightarrow> typed_message E fs m'"
  "env_ok E \<Longrightarrow> parse_fields E ms fs cs = Inr (cs', b) \<Longrightarrow> typed_contents E fs cs \<Longrightarrow> typed_contents E fs cs'"
  "env_ok E \<Longrightarrow> parse_field E f j c = Inr (c', b) \<Longrightarrow> typed_content E f c \<Longrightarrow> typed_content E f c'"
  "env_ok E \<Longrightarrow> parse_items E t js vs = Inr (vs', b) \<Longrightarrow> typed_values E t vs \<Longrightarrow> typed_values E t vs'"
proof (induction E fs j m and E ms fs cs and E f j c and E t js vs
    arbitrary: m' b and cs' b and c' b and vs' b rule: ParseFromJsonValue_parse_fields_parse_field_parse_items.induct)
  case (3 E ms f fs c cs)
  then show ?case by (fastforce split: option.splits if_splits)
next
  case (5 E f j c)
  show ?case
  proof (cases "is_repeated f")
    case True
    then show ?thesis using 5 typed_added_to [of E f c] by (fastforce split: json.splits)
  next
    case False
    have step: "typed_content E f c'" if "field_type f = T_MESSAGE d" for d
      using 5 False that typed_mutable [OF _ that] by (fastforce split: json.splits)
    have "(\<exists>v. singular_value E (field_type f) j = Inr (Some v) \<and> c' = One v) \<or> c' = c" if "\<nexists>d. field_type f = T_MESSAGE d"
      using 5(4) False that by (cases "field_type f") (auto split: option.splits simp del: singular_value.simps)
    then show ?thesis using step False 5(5) typed_singular [OF 5(3)] by (metis typed_content.simps(2))
  qed
next
  case (7 E t item items vs)
  show ?case
  proof (cases "\<exists>d. t = T_MESSAGE d")
    case True
    then show ?thesis using 7 by (fastforce split: json.splits if_splits)
  next
    case False
    then have t: "t \<noteq> T_MESSAGE d" for d by blast
    have IH: "typed_values E t ws" if "repeated_item E t item = Inr (Some v)" "parse_items E t items (vs @ [v]) = Inr (ws, b)" for v ws b
    proof -
      have "typed_values E t (vs @ [v])" using 7 typed_repeated [OF _ that(1)] by simp
      then show ?thesis using t
        7(1) [OF _ that(1) refl 7(12) that(2)] 7(2) [OF _ that(1) refl 7(12) that(2)] 7(3) [OF _ that(1) refl 7(12) that(2)] 7(4) [OF _ that(1) refl 7(12) that(2)] 7(5) [OF _ that(1) refl 7(12) that(2)] 
        7(6) [OF _ that(1) refl 7(12) that(2)] 7(7) [OF _ that(1) refl 7(12) that(2)] 7(8) [OF _ that(1) refl 7(12) that(2)] 7(9) [OF _ that(1) refl 7(12) that(2)]
        by (cases t) (simp_all, blast)
    qed
    show ?thesis using 7(13,14) IH by (auto simp: parse_items_plain [OF t] split: option.splits simp del: parse_items.simps)
  qed
qed auto

subsection \<open>Strings that dangle\<close>

text \<open>Whether a singular string is set anywhere in a message.\<close>

fun string_set :: "field list \<Rightarrow> 'd message \<Rightarrow> bool"
and string_contents :: "field list \<Rightarrow> 'd content list \<Rightarrow> bool"
and string_content :: "field \<Rightarrow> 'd content \<Rightarrow> bool"
and string_items :: "ftype \<Rightarrow> 'd pvalue list \<Rightarrow> bool"
and string_in :: "ftype \<Rightarrow> 'd pvalue \<Rightarrow> bool" where
  "string_set fs (Msg cs) \<longleftrightarrow> string_contents fs cs"
| "string_contents (f # fs) (c # cs) \<longleftrightarrow> string_content f c \<or> string_contents fs cs"
| "string_contents fs cs \<longleftrightarrow> False"
| "string_content f Unset \<longleftrightarrow> False"
| "string_content f (One v) \<longleftrightarrow> (case field_type f of T_STRING bytes \<Rightarrow> True | t \<Rightarrow> string_in t v)"
| "string_content f (Many vs) \<longleftrightarrow> string_items (field_type f) vs"
| "string_items t [] \<longleftrightarrow> False"
| "string_items t (v # vs) \<longleftrightarrow> string_in t v \<or> string_items t vs"
| "string_in (T_MESSAGE d) (PMsg m) \<longleftrightarrow> string_set d m"
| "string_in t v \<longleftrightarrow> False"

text \<open>What serialisation makes of typed contents.\<close>

definition written :: "'d json option result \<Rightarrow> bool \<Rightarrow> bool" where
  "written r b \<longleftrightarrow> (\<exists>j. r = Inr (Some j) \<and> (dangles j \<longleftrightarrow> b))"

definition written_list :: "'d json list option result \<Rightarrow> bool \<Rightarrow> bool" where
  "written_list r b \<longleftrightarrow> (\<exists>js. r = Inr (Some js) \<and> (list_ex dangles js \<longleftrightarrow> b))"

definition written_members :: "(string \<times> 'd json) list option result \<Rightarrow> bool \<Rightarrow> bool" where
  "written_members r b \<longleftrightarrow> (\<exists>ms. r = Inr (Some ms) \<and> (dangles (JObject ms) \<longleftrightarrow> b))"

lemma written_fields:
  "\<forall>x \<in> set fcs. is_set (snd x) \<and> written (serialize_field (fst x) (snd x)) (string_content (fst x) (snd x)) \<Longrightarrow>
     written_members (serialize_fields fcs) (\<exists>x \<in> set fcs. string_content (fst x) (snd x))"
proof (induction fcs)
  case (Cons x fcs)
  obtain f c where x: "x = (f, c)" by (cases x)
  have "is_set c" "written (serialize_field f c) (string_content f c)"
    "written_members (serialize_fields fcs) (\<exists>x \<in> set fcs. string_content (fst x) (snd x))" using Cons by (simp_all add: x)
  then show ?case unfolding written_def written_members_def x by (elim exE conjE) simp
qed (simp add: written_members_def)

lemma string_content_set: "string_content f c \<Longrightarrow> is_set c"
  by (cases c) auto

lemma written_message:
  assumes "length fs = length cs"
    "\<forall>x \<in> set (zip fs cs). is_set (snd x) \<longrightarrow> written (serialize_field (fst x) (snd x)) (string_content (fst x) (snd x))"
  shows "written_members (SerializeToJsonValue fs (Msg cs)) (string_contents fs cs)"
proof -
  have "string_contents fs cs \<longleftrightarrow> (\<exists>x \<in> set (zip fs cs). string_content (fst x) (snd x))"
    by (induction fs cs rule: list_induct2') auto
  then have "string_contents fs cs \<longleftrightarrow> (\<exists>x \<in> set (ListFields fs cs). string_content (fst x) (snd x))"
    unfolding set_ListFields using string_content_set by blast
  moreover have "written_members (serialize_fields (ListFields fs cs)) (\<exists>x \<in> set (ListFields fs cs). string_content (fst x) (snd x))"
    by (rule written_fields) (use assms(2) in \<open>auto simp: set_ListFields\<close>)
  ultimately show ?thesis by simp
qed

lemma written_One:
  assumes "typed_value E (field_type f) v" "\<not> is_repeated f"
    "\<And>d. field_type f = T_MESSAGE d \<Longrightarrow> written (serialize_message d v) (string_in (T_MESSAGE d) v)"
  shows "written (serialize_field f (One v)) (string_content f (One v))"
  using assms by (cases "field_type f"; cases v) (auto simp: written_def)

lemma written_Cons:
  assumes "typed_value E t v" "\<And>d. t = T_MESSAGE d \<Longrightarrow> written (serialize_message d v) (string_in t v)"
    "written_list (serialize_items t vs) (string_items t vs)"
  shows "written_list (serialize_items t (v # vs)) (string_items t (v # vs))"
proof -
  have "written (case t of T_MESSAGE d \<Rightarrow> serialize_message d v
            | T_STRING bytes \<Rightarrow> bindR (string_json True bytes v) (\<lambda>j. Inr (Some j))
            | _ \<Rightarrow> bindR (scalar_json t v) (\<lambda>j. Inr (Some j))) (string_in t v)"
    using assms(1,2) by (cases t; cases v) (auto simp: written_def)
  then show ?thesis using assms(3) unfolding written_def written_list_def by (elim exE conjE) simp
qed

lemma serialize_typed:
  "typed_message E fs m \<Longrightarrow> written_members (SerializeToJsonValue fs m) (string_set fs m)"
  "typed_contents E fs cs \<Longrightarrow> length fs = length cs \<and> (\<forall>x \<in> set (zip fs cs).
     is_set (snd x) \<longrightarrow> written (serialize_field (fst x) (snd x)) (string_content (fst x) (snd x)))"
  "typed_content E f c \<Longrightarrow> is_set c \<longrightarrow> written (serialize_field f c) (string_content f c)"
  "typed_values E t vs \<Longrightarrow> written_list (serialize_items t vs) (string_items t vs)"
  "typed_value E t v \<Longrightarrow> (\<forall>d. t = T_MESSAGE d \<longrightarrow> written (serialize_message d v) (string_in t v))"
proof (induction E fs m and E fs cs and E f c and E t vs and E t v
    rule: typed_message_typed_contents_typed_content_typed_values_typed_value.induct)
  case (1 E fs cs)
  then show ?case using written_message [of fs cs] by simp
next
  case (5 E f v)
  then show ?case using written_One [of E f v] by auto
next
  case (6 E f vs)
  then show ?case unfolding typed_content.simps written_list_def by (elim conjE) (auto simp: written_def written_list_def)
next
  case (8 E t v vs)
  then show ?case using written_Cons [of E t v vs] by auto
qed (auto simp: written_list_def written_def written_members_def)

subsection \<open>Properties\<close>

text \<open>
  C33: What was written is read back. For a message that fits its descriptor, a writer and a parser that agree on its
  document, and text without NUL bytes, ParseFromJson of the text SerializeToJson wrote fills an empty message with the same
  contents, whatever the nesting, bytes included.
\<close>
theorem Json_roundtrip:
  assumes "fits_message E fs m"
    and "\<And>ms. SerializeToJsonValue fs m = Inr (Some ms) \<Longrightarrow>
      parse (write (JObject ms)) = Some (JObject ms) \<and> CHR 0x00 \<notin> set (write (JObject ms))"
  shows "\<exists>text. SerializeToJson write fs m output = Inr (True, text) \<and>
    ParseFromJson parse E fs \<lparr>sp_mem = text @ [CHR 0x00], sp_ptr = 0, sp_len = length text\<rparr> (empty_message fs) = Inr (m, True)"
proof -
  obtain ms where ms: "SerializeToJsonValue fs m = Inr (Some ms)" "\<not> dangles (JObject ms)"
      "ParseFromJsonValue E fs (JObject ms) (empty_message fs) = Inr (m, True)"
    using fits_survives(1) [OF assms(1)] by (auto simp: message_survives_def)
  let ?t = "write (JObject ms)"
  have t: "parse ?t = Some (JObject ms)" "CHR 0x00 \<notin> set ?t" using assms(2) [OF ms(1)] by simp_all
  then have "c_string (?t @ [CHR 0x00]) = ?t" by (auto simp: c_string_def takeWhile_append)
  then have "data_c_str \<lparr>sp_mem = ?t @ [CHR 0x00], sp_ptr = 0, sp_len = length ?t\<rparr> = Inr ?t" by (simp add: data_c_str_def)
  then show ?thesis using ms t by (simp add: SerializeToJson_def ParseFromJson_def c_string_id del: dangles.simps ParseFromJsonValue.simps)
qed

text \<open>A format with one array of strings per document, and a message with one bytes field.\<close>

definition toy_write :: "unit json \<Rightarrow> string" where
  "toy_write j = (case j of JObject [(k, JArray [JString s])] \<Rightarrow> k @ ''='' @ s | _ \<Rightarrow> '''')"

definition toy_parse :: "string \<Rightarrow> unit json option" where
  "toy_parse s = (case dropWhile (\<lambda>c. c \<noteq> CHR ''='') s of
     [] \<Rightarrow> None | c # rest \<Rightarrow> Some (JObject [(takeWhile (\<lambda>c. c \<noteq> CHR ''='') s, JArray [JString rest])]))"

definition toy_env :: "unit number_env" where
  "toy_env = \<lparr>to_float = id, of_integer = (\<lambda>n. ()), lexical_int64 = (\<lambda>s. None), lexical_uint64 = (\<lambda>s. None)\<rparr>"

lemma escaped_percent: "UriEscape ''a%'' '''' Mode_ALL = ''a%25''"
proof -
  have "escape_ref Mode_ALL ''a%'' = ''a%25''" by code_simp
  then show ?thesis by (simp add: UriEscape_def UriEscape_loop_ref)
qed

lemma Json_roundtrip_witness:
  "\<exists>text. SerializeToJson toy_write [Field ''k'' 1 LABEL_REPEATED (T_STRING True)] (Msg [Many [PString ''a%'']]) '''' = Inr (True, text) \<and>
    ParseFromJson toy_parse toy_env [Field ''k'' 1 LABEL_REPEATED (T_STRING True)]
      \<lparr>sp_mem = text @ [CHR 0x00], sp_ptr = 0, sp_len = length text\<rparr>
      (empty_message [Field ''k'' 1 LABEL_REPEATED (T_STRING True)]) = Inr (Msg [Many [PString ''a%'']], True)"
  by (rule Json_roundtrip) (auto simp: ListFields_def is_repeated_def escaped_percent toy_write_def toy_parse_def)

text \<open>
  C34: Parsing keeps the message well typed, whether it ends with true or in the middle with false: every field still holds
  contents of its kind, numbers of their width and enumerators of their enum, for any JSON document.
\<close>
theorem ParseFromJson_typed:
  assumes "env_ok E" "typed_message E fs m" "ParseFromJson parse E fs json m = Inr (m', b)"
  shows "typed_message E fs m'"
  using assms parse_typed(1) [OF assms(1) _ assms(2)] by (auto simp: ParseFromJson_def split: option.splits)

lemma ParseFromJson_typed_witness:
  "typed_message toy_env [Field ''k'' 1 LABEL_REPEATED (T_STRING True)] (Msg [Many [PString ''a%'']])"
proof (rule ParseFromJson_typed [where E = toy_env and b = True])
  have "unescape_ref Mode_ALL ''a%25'' = Inr ''a%''" by code_simp
  then have u: "UriUnescape ''a%25'' '''' Mode_ALL = Inr ''a%''" by (simp add: UriUnescape_def UriUnescape_loop_ref)
  show "ParseFromJson toy_parse toy_env [Field ''k'' 1 LABEL_REPEATED (T_STRING True)] \<lparr>sp_mem = ''k=a%25'' @ [CHR 0x00], sp_ptr = 0, sp_len = 7\<rparr>
      (empty_message [Field ''k'' 1 LABEL_REPEATED (T_STRING True)]) = Inr (Msg [Many [PString ''a%'']], True)"
    by (simp add: ParseFromJson_def data_c_str_def c_string_def toy_parse_def empty_message_def empty_content_def is_repeated_def u)
qed (simp_all add: env_ok_def toy_env_def)

text \<open>
  C35: A well-typed message is always serialised: never does SerializeToJson return false, not even for a missing required
  field. But as soon as a singular string or bytes field is set anywhere in it the document holds a pointer to a string that
  is gone, and writing it reads it.
\<close>
theorem SerializeToJson_total:
  assumes "typed_message E fs m"
  shows "\<exists>ms. SerializeToJsonValue fs m = Inr (Some ms) \<and> SerializeToJson write fs m output =
    (if string_set fs m then Inl Dangling_Pointer else Inr (True, c_string (write (JObject ms))))"
proof -
  obtain ms where "SerializeToJsonValue fs m = Inr (Some ms)" "dangles (JObject ms) \<longleftrightarrow> string_set fs m"
    using serialize_typed(1) [OF assms] by (auto simp: written_members_def)
  then show ?thesis by (intro exI [of _ ms]) (simp add: SerializeToJson_def)
qed

lemma SerializeToJson_total_witness:
  "\<exists>ms. SerializeToJsonValue [Field ''k'' 1 LABEL_REQUIRED (T_STRING False)] (Msg [One (PString ''a'')]) = Inr (Some ms) \<and>
    SerializeToJson toy_write [Field ''k'' 1 LABEL_REQUIRED (T_STRING False)] (Msg [One (PString ''a'')]) '''' =
    (if string_set [Field ''k'' 1 LABEL_REQUIRED (T_STRING False)] (Msg [One (PString ''a'') :: unit content])
     then Inl Dangling_Pointer else Inr (True, c_string (toy_write (JObject ms))))"
  by (rule SerializeToJson_total [where E = toy_env]) (simp add: is_repeated_def)

end
