(* ===== verification/Pollers.thy ===== *)
theory Pollers
  imports Prelude
begin

unbundle bit_operations_syntax

text \<open>
  I/O channels and the poller: \<^verbatim>\<open>events/Channel.h,.cc\<close>, \<^verbatim>\<open>events/Poller.h\<close> and
  \<^verbatim>\<open>events/poller/EPollPoller.h,.cc\<close>.

  Channels live in a heap: a \<open>Channel*\<close> is an address, and \<open>ep_heap\<close> gives the live channels. The kernel's
  interest list, as \<open>epoll_ctl\<close> documents it, is the map \<open>ep_interest\<close> from descriptors to event
  masks: \<open>EPOLL_CTL_ADD\<close> fails on a descriptor that is present, \<open>MOD\<close> and \<open>DEL\<close> on one that is not, and
  the poller only logs the failure. Event masks are 32-bit words. A dispatch is the sequence of
  callbacks a channel calls; whether the owner a channel is tied to is alive is an argument.
\<close>

subsection \<open>Channel\<close>

type_synonym events = "32 word"

definition POLLIN :: events where "POLLIN = 0x1"
definition POLLPRI :: events where "POLLPRI = 0x2"
definition POLLOUT :: events where "POLLOUT = 0x4"
definition POLLERR :: events where "POLLERR = 0x8"
definition POLLHUP :: events where "POLLHUP = 0x10"
definition POLLNVAL :: events where "POLLNVAL = 0x20"
definition POLLRDHUP :: events where "POLLRDHUP = 0x2000"

lemmas poll_bits = POLLIN_def POLLPRI_def POLLOUT_def POLLERR_def POLLHUP_def POLLNVAL_def POLLRDHUP_def

definition kNoneEvent :: events where "kNoneEvent = 0"
definition kReadEvent :: events where "kReadEvent = POLLIN OR POLLPRI"
definition kWriteEvent :: events where "kWriteEvent = POLLOUT"

datatype channel_priority = kLow | kNormal | kHigh

fun priority_value :: "channel_priority \<Rightarrow> int" where
  "priority_value kLow = 0"
| "priority_value kNormal = 1"
| "priority_value kHigh = 2"

datatype channel_callback = Close_cb | Error_cb | Read_cb | Write_cb

record channel =
  ch_fd :: int
  ch_events :: events
  ch_revents :: events
  ch_context :: int
  ch_priority :: channel_priority
  ch_tied :: bool
  ch_event_handling :: bool
  ch_callbacks :: "channel_callback \<Rightarrow> bool"

definition Channel_new :: "int \<Rightarrow> channel" where
  "Channel_new fd = \<lparr>ch_fd = fd, ch_events = 0, ch_revents = 0, ch_context = -1, ch_priority = kNormal,
     ch_tied = False, ch_event_handling = False, ch_callbacks = (\<lambda>_. False)\<rparr>"

definition Channel_set_callback :: "channel \<Rightarrow> channel_callback \<Rightarrow> channel" where
  "Channel_set_callback c cb = c\<lparr>ch_callbacks := (ch_callbacks c)(cb := True)\<rparr>"

definition Channel_tie :: "channel \<Rightarrow> channel" where
  "Channel_tie c = c\<lparr>ch_tied := True\<rparr>"

definition Channel_set_revents :: "channel \<Rightarrow> events \<Rightarrow> channel" where
  "Channel_set_revents c ev = c\<lparr>ch_revents := ev\<rparr>"

definition Channel_set_priority :: "channel \<Rightarrow> channel_priority \<Rightarrow> channel" where
  "Channel_set_priority c p = c\<lparr>ch_priority := p\<rparr>"

definition Channel_IsNoneEvent :: "channel \<Rightarrow> bool" where
  "Channel_IsNoneEvent c \<longleftrightarrow> ch_events c = kNoneEvent"

definition Channel_IsWriting :: "channel \<Rightarrow> bool" where
  "Channel_IsWriting c \<longleftrightarrow> ch_events c AND kWriteEvent \<noteq> 0"

definition when_set :: "channel \<Rightarrow> bool \<Rightarrow> channel_callback \<Rightarrow> channel_callback list" where
  "when_set c b cb = (if b \<and> ch_callbacks c cb then [cb] else [])"

definition Channel_OnEventWithGuard :: "channel \<Rightarrow> channel_callback list \<times> channel" where
  "Channel_OnEventWithGuard c =
     (let r = ch_revents c;
          c1 = c\<lparr>ch_event_handling := True\<rparr>;
          calls = when_set c1 (r AND POLLHUP \<noteq> 0 \<and> \<not> (r AND POLLIN \<noteq> 0)) Close_cb @
                  when_set c1 (r AND (POLLERR OR POLLNVAL) \<noteq> 0) Error_cb @
                  when_set c1 (r AND (POLLIN OR POLLPRI OR POLLRDHUP) \<noteq> 0) Read_cb @
                  when_set c1 (r AND POLLOUT \<noteq> 0) Write_cb
      in (calls, c1\<lparr>ch_event_handling := False\<rparr>))"

definition Channel_OnEvent :: "bool \<Rightarrow> channel \<Rightarrow> channel_callback list \<times> channel" where
  "Channel_OnEvent owner_alive c =
     (if ch_tied c then (if owner_alive then Channel_OnEventWithGuard c else ([], c))
      else Channel_OnEventWithGuard c)"

subsection \<open>EPollPoller\<close>

definition kNew :: int where "kNew = -1"
definition kAdded :: int where "kAdded = 1"
definition kDeleted :: int where "kDeleted = 2"

lemmas context_defs = kNew_def kAdded_def kDeleted_def

datatype epoll_operation = EPOLL_CTL_ADD | EPOLL_CTL_MOD | EPOLL_CTL_DEL

record epoll =
  ep_heap :: "nat \<rightharpoonup> channel"
  ep_channels :: "nat option list"
  ep_interest :: "int \<rightharpoonup> events"
  ep_buffer :: nat

definition EPollPoller_new :: epoll where
  "EPollPoller_new = \<lparr>ep_heap = Map.empty, ep_channels = replicate 64 None, ep_interest = Map.empty, ep_buffer = 64\<rparr>"

definition epoll_ctl :: "(int \<rightharpoonup> events) \<Rightarrow> epoll_operation \<Rightarrow> int \<Rightarrow> events \<Rightarrow> (int \<rightharpoonup> events)" where
  "epoll_ctl interest op fd ev =
     (case op of
        EPOLL_CTL_ADD \<Rightarrow> if interest fd = None then interest(fd \<mapsto> ev) else interest
      | EPOLL_CTL_MOD \<Rightarrow> if interest fd = None then interest else interest(fd \<mapsto> ev)
      | EPOLL_CTL_DEL \<Rightarrow> interest(fd := None))"

definition EPollPoller_Update :: "epoll \<Rightarrow> epoll_operation \<Rightarrow> channel \<Rightarrow> epoll" where
  "EPollPoller_Update ep op c = ep\<lparr>ep_interest := epoll_ctl (ep_interest ep) op (ch_fd c) (ch_events c)\<rparr>"

definition set_channel :: "epoll \<Rightarrow> nat \<Rightarrow> channel \<Rightarrow> epoll" where
  "set_channel ep p c = ep\<lparr>ep_heap := (ep_heap ep)(p \<mapsto> c)\<rparr>"

definition fd_index :: "int \<Rightarrow> nat" where
  "fd_index fd = nat (fd mod 2 ^ 64)"

definition resize_vector :: "'a option list \<Rightarrow> nat \<Rightarrow> 'a option list" where
  "resize_vector xs n = take n xs @ replicate (n - length xs) None"

definition EPollPoller_UpdateChannel :: "epoll \<Rightarrow> nat \<Rightarrow> epoll result" where
  "EPollPoller_UpdateChannel ep p =
     (case ep_heap ep p of None \<Rightarrow> Inl Dangling_Pointer
      | Some c \<Rightarrow>
          let state = ch_context c; i = fd_index (ch_fd c)
          in if length (ep_channels ep) \<le> i \<and> state \<noteq> kNew then Inr ep
             else
               let chs = (if length (ep_channels ep) \<le> i then resize_vector (ep_channels ep) (length (ep_channels ep) * 2)
                          else ep_channels ep)
               in if state = kNew \<or> state = kDeleted then
                    bindR (if state = kNew then vec_set chs i (Some p)
                           else bindR (vec_get chs i) (\<lambda>q. DCHECK (q = Some p) (Inr chs))) (\<lambda>chs.
                      let c' = c\<lparr>ch_context := kAdded\<rparr>
                      in Inr (EPollPoller_Update (set_channel (ep\<lparr>ep_channels := chs\<rparr>) p c') EPOLL_CTL_ADD c'))
                  else if state = kAdded then
                    bindR (vec_get chs i) (\<lambda>q. DCHECK (q = Some p)
                      (if Channel_IsNoneEvent c
                       then Inr (set_channel (EPollPoller_Update ep EPOLL_CTL_DEL c) p (c\<lparr>ch_context := kDeleted\<rparr>))
                       else Inr (EPollPoller_Update ep EPOLL_CTL_MOD c)))
                  else Inr ep)"

definition EPollPoller_RemoveChannel :: "epoll \<Rightarrow> nat \<Rightarrow> epoll result" where
  "EPollPoller_RemoveChannel ep p =
     (case ep_heap ep p of None \<Rightarrow> Inl Dangling_Pointer
      | Some c \<Rightarrow>
          let i = fd_index (ch_fd c); state = ch_context c
          in DCHECK (i < length (ep_channels ep))
               (bindR (vec_get (ep_channels ep) i) (\<lambda>q. DCHECK (q = Some p)
               (DCHECK (Channel_IsNoneEvent c)
               (DCHECK (state = kAdded \<or> state = kDeleted)
                 (let ep = (if state = kAdded then EPollPoller_Update ep EPOLL_CTL_DEL c else ep);
                      ep = set_channel ep p (c\<lparr>ch_context := kNew\<rparr>)
                  in bindR (vec_set (ep_channels ep) i None) (\<lambda>chs. Inr (ep\<lparr>ep_channels := chs\<rparr>))))))))"

fun poll_loop :: "epoll \<Rightarrow> (int \<times> events) list \<Rightarrow> nat list \<Rightarrow> (nat list \<times> epoll) result" where
  "poll_loop ep [] active = Inr (active, ep)"
| "poll_loop ep ((fd, ev) # reports) active =
     (if int (length (ep_channels ep)) \<le> fd then poll_loop ep reports active
      else bindR (vec_get (ep_channels ep) (fd_index fd)) (\<lambda>channel.
        case channel of None \<Rightarrow> Inl Dangling_Pointer
        | Some p \<Rightarrow> (case ep_heap ep p of None \<Rightarrow> Inl Dangling_Pointer
            | Some c \<Rightarrow> DCHECK (ch_fd c = fd)
                (poll_loop (set_channel ep p (Channel_set_revents c ev)) reports (active @ [p])))))"

datatype epoll_result = Wait_Events "(int \<times> events) list" | Wait_Interrupted | Wait_Error

definition EPollPoller_poll :: "epoll \<Rightarrow> epoll_result \<Rightarrow> (nat list \<times> epoll) result" where
  "EPollPoller_poll ep res =
     (case res of
        Wait_Error \<Rightarrow> Inl Aborted
      | Wait_Interrupted \<Rightarrow> Inr ([], ep)
      | Wait_Events reports \<Rightarrow>
          bindR (poll_loop ep reports []) (\<lambda>(active, ep).
            Inr (active, if ep_buffer ep = length reports then ep\<lparr>ep_buffer := length reports * 2\<rparr> else ep)))"

text \<open>The channel's own operations change its mask and then update the poller.\<close>

definition Channel_change :: "epoll \<Rightarrow> nat \<Rightarrow> (events \<Rightarrow> events) \<Rightarrow> epoll result" where
  "Channel_change ep p f =
     (case ep_heap ep p of None \<Rightarrow> Inl Dangling_Pointer
      | Some c \<Rightarrow> EPollPoller_UpdateChannel (set_channel ep p (c\<lparr>ch_events := f (ch_events c)\<rparr>)) p)"

definition EnableReading :: "epoll \<Rightarrow> nat \<Rightarrow> epoll result" where
  "EnableReading ep p = Channel_change ep p (\<lambda>ev. ev OR kReadEvent)"

definition EnableWriting :: "epoll \<Rightarrow> nat \<Rightarrow> epoll result" where
  "EnableWriting ep p = Channel_change ep p (\<lambda>ev. ev OR kWriteEvent)"

definition DisableReading :: "epoll \<Rightarrow> nat \<Rightarrow> epoll result" where
  "DisableReading ep p = Channel_change ep p (\<lambda>ev. ev AND NOT kReadEvent)"

definition DisableWriting :: "epoll \<Rightarrow> nat \<Rightarrow> epoll result" where
  "DisableWriting ep p = Channel_change ep p (\<lambda>ev. ev AND NOT kWriteEvent)"

definition DisableAll :: "epoll \<Rightarrow> nat \<Rightarrow> epoll result" where
  "DisableAll ep p = Channel_change ep p (\<lambda>ev. kNoneEvent)"

subsection \<open>The interest list mirrors the channels\<close>

definition slots_ok :: "epoll \<Rightarrow> bool" where
  "slots_ok ep \<longleftrightarrow>
     (\<forall>p c. ep_heap ep p = Some c \<longrightarrow> 0 \<le> ch_fd c \<and> ch_fd c \<le> INT_MAX \<and> ch_context c \<in> {kNew, kAdded, kDeleted} \<and>
        (ch_context c \<noteq> kNew \<longrightarrow> nat (ch_fd c) < length (ep_channels ep) \<and> ep_channels ep ! nat (ch_fd c) = Some p)) \<and>
     (\<forall>i p. i < length (ep_channels ep) \<and> ep_channels ep ! i = Some p \<longrightarrow>
        (\<exists>c. ep_heap ep p = Some c \<and> ch_fd c = int i \<and> ch_context c \<noteq> kNew)) \<and>
     (\<forall>p q c d. ep_heap ep p = Some c \<and> ep_heap ep q = Some d \<and> ch_fd c = ch_fd d \<longrightarrow> p = q)"

definition interest_ok :: "epoll \<Rightarrow> bool" where
  "interest_ok ep \<longleftrightarrow> (\<forall>fd ev. ep_interest ep fd = Some ev \<longleftrightarrow>
     (\<exists>p c. ep_heap ep p = Some c \<and> ch_fd c = fd \<and> ch_context c = kAdded \<and> ch_events c = ev))"

definition ep_inv :: "epoll \<Rightarrow> bool" where
  "ep_inv ep \<longleftrightarrow> slots_ok ep \<and> interest_ok ep"

lemma fd_index_eq: "0 \<le> fd \<Longrightarrow> fd \<le> INT_MAX \<Longrightarrow> fd_index fd = nat fd"
  by (simp add: fd_index_def)

lemma slots_live:
  assumes "slots_ok ep" "ep_heap ep p = Some c"
  shows "0 \<le> ch_fd c" "ch_fd c \<le> INT_MAX" "fd_index (ch_fd c) = nat (ch_fd c)"
    "ch_context c = kNew \<or> ch_context c = kAdded \<or> ch_context c = kDeleted"
    "ch_context c \<noteq> kNew \<Longrightarrow> nat (ch_fd c) < length (ep_channels ep)"
    "ch_context c \<noteq> kNew \<Longrightarrow> ep_channels ep ! nat (ch_fd c) = Some p"
  using assms fd_index_eq [of "ch_fd c"] unfolding slots_ok_def by blast+

lemma slot_owner:
  "slots_ok ep \<Longrightarrow> i < length (ep_channels ep) \<Longrightarrow> ep_channels ep ! i = Some p \<Longrightarrow>
   \<exists>c. ep_heap ep p = Some c \<and> ch_fd c = int i \<and> ch_context c \<noteq> kNew"
  unfolding slots_ok_def by blast

lemma slots_okI:
  assumes "\<And>p c. ep_heap ep p = Some c \<Longrightarrow> 0 \<le> ch_fd c \<and> ch_fd c \<le> INT_MAX \<and> ch_context c \<in> {kNew, kAdded, kDeleted} \<and>
        (ch_context c \<noteq> kNew \<longrightarrow> nat (ch_fd c) < length (ep_channels ep) \<and> ep_channels ep ! nat (ch_fd c) = Some p)"
    and "\<And>i p. i < length (ep_channels ep) \<Longrightarrow> ep_channels ep ! i = Some p \<Longrightarrow>
        \<exists>c. ep_heap ep p = Some c \<and> ch_fd c = int i \<and> ch_context c \<noteq> kNew"
    and "\<And>p q c d. ep_heap ep p = Some c \<Longrightarrow> ep_heap ep q = Some d \<Longrightarrow> ch_fd c = ch_fd d \<Longrightarrow> p = q"
  shows "slots_ok ep"
  using assms unfolding slots_ok_def by blast

lemma slots_distinct:
  "slots_ok ep \<Longrightarrow> ep_heap ep p = Some c \<Longrightarrow> ep_heap ep q = Some d \<Longrightarrow> ch_fd c = ch_fd d \<Longrightarrow> p = q"
  unfolding slots_ok_def by blast

lemma interest_of:
  assumes "slots_ok ep" "interest_ok ep" "ep_heap ep p = Some c"
  shows "ep_interest ep (ch_fd c) = (if ch_context c = kAdded then Some (ch_events c) else None)"
proof (cases "ep_interest ep (ch_fd c)")
  case None
  then have "ch_context c \<noteq> kAdded" using assms(2,3) unfolding interest_ok_def by (metis option.distinct(1))
  with None show ?thesis by simp
next
  case (Some ev)
  then obtain q d where "ep_heap ep q = Some d" "ch_fd d = ch_fd c" "ch_context d = kAdded" "ch_events d = ev"
    using assms(2) unfolding interest_ok_def by blast
  moreover from this have "q = p" using slots_distinct [OF assms(1)] assms(3) by blast
  ultimately show ?thesis using Some assms(3) by simp
qed

text \<open>
  The effect of replacing one channel, with the interest entry of its descriptor kept in step.
\<close>

lemma interest_ok_replace:
  assumes "slots_ok ep" "interest_ok ep" "ep_heap ep p = Some c" "ch_fd c' = ch_fd c"
    and heap: "ep_heap ep' = (ep_heap ep)(p \<mapsto> c')"
    and int: "ep_interest ep' = (ep_interest ep)(ch_fd c := (if ch_context c' = kAdded then Some (ch_events c') else None))"
  shows "interest_ok ep'"
  unfolding interest_ok_def
proof (intro allI)
  fix fd ev
  show "ep_interest ep' fd = Some ev \<longleftrightarrow>
     (\<exists>q d. ep_heap ep' q = Some d \<and> ch_fd d = fd \<and> ch_context d = kAdded \<and> ch_events d = ev)"
  proof (cases "fd = ch_fd c")
    case True
    then have "q = p" if "ep_heap ep' q = Some d" "ch_fd d = fd" for q d
      using that slots_distinct [OF assms(1) assms(3), of q d] by (auto simp: heap split: if_splits)
    moreover have "ep_heap ep' p = Some c'" by (simp add: heap)
    ultimately have "(\<exists>q d. ep_heap ep' q = Some d \<and> ch_fd d = fd \<and> ch_context d = kAdded \<and> ch_events d = ev) \<longleftrightarrow>
        ch_context c' = kAdded \<and> ch_events c' = ev" using True assms(4) by auto
    then show ?thesis using True by (simp add: int)
  next
    case False
    then have "ep_heap ep' q = Some d \<and> ch_fd d = fd \<longleftrightarrow> ep_heap ep q = Some d \<and> ch_fd d = fd" for q d
      using assms(3,4) by (auto simp: heap)
    then show ?thesis using assms(2) False unfolding interest_ok_def int by (simp, metis)
  qed
qed

lemma slots_ok_replace:
  assumes "slots_ok ep" "ep_heap ep p = Some c" "ch_fd c' = ch_fd c" "ch_context c' \<in> {kNew, kAdded, kDeleted}"
    and heap: "ep_heap ep' = (ep_heap ep)(p \<mapsto> c')"
    and len: "length (ep_channels ep) \<le> length (ep_channels ep')"
    and new: "\<forall>i < length (ep_channels ep'). i \<noteq> nat (ch_fd c) \<longrightarrow>
        ep_channels ep' ! i = (if i < length (ep_channels ep) then ep_channels ep ! i else None)"
    and here: "if ch_context c' = kNew then nat (ch_fd c) < length (ep_channels ep') \<longrightarrow> ep_channels ep' ! nat (ch_fd c) = None
       else nat (ch_fd c) < length (ep_channels ep') \<and> ep_channels ep' ! nat (ch_fd c) = Some p"
  shows "slots_ok ep'"
proof -
  note fd = slots_live(1,2) [OF assms(1,2)]
  have other: "nat (ch_fd d) \<noteq> nat (ch_fd c)" if "q \<noteq> p" "ep_heap ep q = Some d" for q d
    using that slots_distinct [OF assms(1,2), of q d] slots_live(1) [OF assms(1) that(2)] fd
    by (metis eq_nat_nat_iff)
  have 1: "0 \<le> ch_fd d \<and> ch_fd d \<le> INT_MAX \<and> ch_context d \<in> {kNew, kAdded, kDeleted} \<and>
        (ch_context d \<noteq> kNew \<longrightarrow> nat (ch_fd d) < length (ep_channels ep') \<and> ep_channels ep' ! nat (ch_fd d) = Some q)"
    if "ep_heap ep' q = Some d" for q d
  proof (cases "q = p")
    case True
    then have "d = c'" using that by (simp add: heap)
    then show ?thesis using True fd assms(3,4) here by (auto split: if_splits)
  next
    case False
    then have q: "ep_heap ep q = Some d" using that by (simp add: heap)
    note l = slots_live [OF assms(1) q]
    have "nat (ch_fd d) < length (ep_channels ep')" "ep_channels ep' ! nat (ch_fd d) = Some q" if "ch_context d \<noteq> kNew"
      using l(5,6) [OF that] len new other [OF False q] by auto
    then show ?thesis using l(1,2,4) by auto
  qed
  have 2: "\<exists>d. ep_heap ep' q = Some d \<and> ch_fd d = int i \<and> ch_context d \<noteq> kNew"
    if i: "i < length (ep_channels ep')" "ep_channels ep' ! i = Some q" for i q
  proof (cases "i = nat (ch_fd c)")
    case True
    then have "q = p" "ch_context c' \<noteq> kNew" using i here by (auto split: if_splits)
    then show ?thesis using True assms(3) fd by (simp add: heap)
  next
    case False
    then have "i < length (ep_channels ep)" "ep_channels ep ! i = Some q" using i new by (auto split: if_splits)
    then obtain d where d: "ep_heap ep q = Some d" "ch_fd d = int i" "ch_context d \<noteq> kNew"
      using assms(1) unfolding slots_ok_def by blast
    moreover have "q \<noteq> p" using d assms(2) False by auto
    ultimately show ?thesis by (simp add: heap)
  qed
  have 3: "q = r" if "ep_heap ep' q = Some d" "ep_heap ep' r = Some e" "ch_fd d = ch_fd e" for q r d e
    using that assms(2,3) slots_distinct [OF assms(1), of q _ r] by (auto simp: heap split: if_splits)
  show ?thesis unfolding slots_ok_def using 1 2 3 by blast
qed

lemma resize_vector_nth:
  "i < n \<Longrightarrow> length xs \<le> n \<Longrightarrow> resize_vector xs n ! i = (if i < length xs then xs ! i else None)"
  by (simp add: resize_vector_def nth_append)

lemma length_resize_vector [simp]: "length xs \<le> n \<Longrightarrow> length (resize_vector xs n) = n"
  by (simp add: resize_vector_def)

text \<open>
  What an update does to a well-formed poller, the changed channel being \<open>c\<close>: it either fails with the
  slot outside the resized vector, or brings the channel's interest entry in step with its mask.
\<close>

definition after_update :: "channel \<Rightarrow> channel" where
  "after_update c = c\<lparr>ch_context := (if ch_context c = kAdded \<and> Channel_IsNoneEvent c then kDeleted else kAdded)\<rparr>"

lemma Channel_change_ok:
  assumes inv: "ep_inv ep" and p: "ep_heap ep p = Some c0"
    and room: "ch_context c0 = kNew \<longrightarrow> nat (ch_fd c0) < 2 * length (ep_channels ep)"
    and c_def: "c = c0\<lparr>ch_events := f (ch_events c0)\<rparr>"
  shows "\<exists>ep'. Channel_change ep p f = Inr ep' \<and> ep_inv ep' \<and> ep_heap ep' = (ep_heap ep)(p \<mapsto> after_update c) \<and>
     ep_interest ep' = (ep_interest ep)(ch_fd c0 := (if ch_context (after_update c) = kAdded then Some (ch_events c) else None)) \<and>
     ep_buffer ep' = ep_buffer ep"
proof -
  have so: "slots_ok ep" and io: "interest_ok ep" using inv by (simp_all add: ep_inv_def)
  note l = slots_live [OF so p]
  have cf: "ch_fd c = ch_fd c0" "ch_context c = ch_context c0" by (simp_all add: c_def)
  note io' = interest_of [OF so io p]
  let ?i = "nat (ch_fd c0)" let ?chs = "ep_channels ep"
  let ?c' = "after_update c"
  define chs where "chs = (if ch_context c0 = kNew then
      (if length ?chs \<le> ?i then resize_vector ?chs (length ?chs * 2) else ?chs)[?i := Some p] else ?chs)"
  define ep' where "ep' = ep\<lparr>ep_heap := (ep_heap ep)(p \<mapsto> ?c'), ep_channels := chs,
      ep_interest := (ep_interest ep)(ch_fd c0 := (if ch_context ?c' = kAdded then Some (ch_events c) else None))\<rparr>"
  have same: "c\<lparr>ch_context := 1\<rparr> = c" if "ch_context c0 = 1"
    using that by (simp add: c_def)
  have run: "Channel_change ep p f = Inr ep'"
    using l p room io'
    by (auto simp: same Channel_change_def c_def [symmetric] EPollPoller_UpdateChannel_def set_channel_def cf Let_def
        EPollPoller_Update_def epoll_ctl_def after_update_def context_defs chs_def ep'_def fun_upd_idem_iff)
  have slots: "slots_ok ep'"
  proof (rule slots_ok_replace [OF so p, where c' = ?c'])
    show "\<forall>i < length (ep_channels ep'). i \<noteq> ?i \<longrightarrow>
        ep_channels ep' ! i = (if i < length ?chs then ?chs ! i else None)"
      by (simp add: ep'_def chs_def resize_vector_nth)
    show "if ch_context ?c' = kNew then ?i < length (ep_channels ep') \<longrightarrow> ep_channels ep' ! ?i = None
       else ?i < length (ep_channels ep') \<and> ep_channels ep' ! ?i = Some p"
      using l(5,6) room by (auto simp: after_update_def context_defs ep'_def chs_def cf)
  qed (auto simp: after_update_def cf ep'_def chs_def)
  have "interest_ok ep'"
    by (rule interest_ok_replace [OF so io p, where c' = ?c']) (simp_all add: after_update_def cf ep'_def)
  with run slots show ?thesis by (auto simp: ep_inv_def ep'_def)
qed

lemma Channel_change_no_room:
  assumes "ep_inv ep" "ep_heap ep p = Some c" "ch_context c = kNew" "2 * length (ep_channels ep) \<le> nat (ch_fd c)"
  shows "Channel_change ep p f = Inl Out_Of_Bounds"
proof -
  have "fd_index (ch_fd c) = nat (ch_fd c)" using slots_live(3) assms by (auto simp: ep_inv_def)
  then show ?thesis
    using assms by (simp add: Channel_change_def EPollPoller_UpdateChannel_def set_channel_def vec_set_def Let_def context_defs)
qed

lemma RemoveChannel_ok:
  assumes inv: "ep_inv ep" and p: "ep_heap ep p = Some c" and ev: "ch_events c = 0" and cx: "ch_context c \<noteq> kNew"
  shows "\<exists>ep'. EPollPoller_RemoveChannel ep p = Inr ep' \<and> ep_inv ep' \<and>
     ep_heap ep' = (ep_heap ep)(p \<mapsto> c\<lparr>ch_context := kNew\<rparr>) \<and> ep_interest ep' = (ep_interest ep)(ch_fd c := None)"
proof -
  have so: "slots_ok ep" and io: "interest_ok ep" using inv by (simp_all add: ep_inv_def)
  note l = slots_live [OF so p]
  let ?i = "nat (ch_fd c)" let ?c' = "c\<lparr>ch_context := kNew\<rparr>"
  define ep' where "ep' = ep\<lparr>ep_heap := (ep_heap ep)(p \<mapsto> ?c'), ep_channels := (ep_channels ep)[?i := None],
      ep_interest := (ep_interest ep)(ch_fd c := None)\<rparr>"
  have "ep_interest ep (ch_fd c) = None" if "ch_context c \<noteq> kAdded" using interest_of [OF so io p] that by simp
  then have same: "(ep_interest ep)(ch_fd c := None) = ep_interest ep" if "ch_context c \<noteq> kAdded"
    using that by auto
  have run: "EPollPoller_RemoveChannel ep p = Inr ep'"
    using l(3-5) l(6) [OF cx] p ev cx same
    by (auto simp: EPollPoller_RemoveChannel_def Channel_IsNoneEvent_def kNoneEvent_def EPollPoller_Update_def
        epoll_ctl_def set_channel_def Let_def ep'_def context_defs)
  have "slots_ok ep'"
    by (rule slots_ok_replace [OF so p, where c' = ?c']) (auto simp: ep'_def)
  moreover have "interest_ok ep'"
    by (rule interest_ok_replace [OF so io p, where c' = ?c']) (simp_all add: ep'_def context_defs)
  ultimately show ?thesis using run by (auto simp: ep_inv_def ep'_def)
qed

subsection \<open>The interface of a poller\<close>

text \<open>
  What the event loop and the channels rely on (\<open>Poller\<close>): changing a channel's mask makes
  the kernel watch its descriptor for exactly the new mask when that is not empty, and leaves every other
  descriptor alone; a removed channel is not watched.
\<close>

locale poller =
  fixes inv :: "'s \<Rightarrow> bool"
    and mask_of :: "'s \<Rightarrow> nat \<Rightarrow> events option"
    and fd_of :: "'s \<Rightarrow> nat \<Rightarrow> int option"
    and watched :: "'s \<Rightarrow> int \<Rightarrow> events option"
    and change :: "'s \<Rightarrow> nat \<Rightarrow> (events \<Rightarrow> events) \<Rightarrow> 's result"
    and remove :: "'s \<Rightarrow> nat \<Rightarrow> 's result"
  assumes change_law: "inv s \<Longrightarrow> mask_of s p = Some m \<Longrightarrow> fd_of s p = Some fd \<Longrightarrow> change s p f = Inr s' \<Longrightarrow>
      inv s' \<and> mask_of s' = (mask_of s)(p \<mapsto> f m) \<and> fd_of s' = fd_of s \<and>
      (f m \<noteq> 0 \<longrightarrow> watched s' fd = Some (f m)) \<and> (\<forall>fd'. fd' \<noteq> fd \<longrightarrow> watched s' fd' = watched s fd')"
    and remove_law: "inv s \<Longrightarrow> fd_of s p = Some fd \<Longrightarrow> remove s p = Inr s' \<Longrightarrow>
      inv s' \<and> mask_of s' = mask_of s \<and> fd_of s' = fd_of s \<and> watched s' fd = None \<and>
      (\<forall>fd'. fd' \<noteq> fd \<longrightarrow> watched s' fd' = watched s fd')"
begin

lemma change_twice:
  assumes "inv s" "mask_of s p = Some m" "fd_of s p = Some fd" "change s p f = Inr s1" "change s1 p g = Inr s2"
  shows "inv s2" "mask_of s2 p = Some (g (f m))" "g (f m) \<noteq> 0 \<Longrightarrow> watched s2 fd = Some (g (f m))"
    "fd' \<noteq> fd \<Longrightarrow> watched s2 fd' = watched s fd'"
proof -
  note 1 = change_law [OF assms(1-4)]
  then have "mask_of s1 p = Some (f m)" "fd_of s1 p = Some fd" using assms(3) by auto
  note 2 = change_law [OF conjunct1 [OF 1] this assms(5)]
  show "inv s2" "mask_of s2 p = Some (g (f m))" "g (f m) \<noteq> 0 \<Longrightarrow> watched s2 fd = Some (g (f m))"
    "fd' \<noteq> fd \<Longrightarrow> watched s2 fd' = watched s fd'" using 1 2 by auto
qed

end

definition ep_mask :: "epoll \<Rightarrow> nat \<Rightarrow> events option" where
  "ep_mask ep p = map_option ch_events (ep_heap ep p)"

definition ep_fd :: "epoll \<Rightarrow> nat \<Rightarrow> int option" where
  "ep_fd ep p = map_option ch_fd (ep_heap ep p)"

interpretation epoll_poller: poller ep_inv ep_mask ep_fd ep_interest Channel_change EPollPoller_RemoveChannel
proof (unfold_locales, goal_cases)
  case (1 s p m fd f s')
  then obtain c where c: "ep_heap s p = Some c" "ch_events c = m" "ch_fd c = fd" by (auto simp: ep_mask_def ep_fd_def)
  have "ch_context c = kNew \<longrightarrow> nat (ch_fd c) < 2 * length (ep_channels s)"
    using Channel_change_no_room [OF 1(1) c(1), of f] 1(4) by (cases "2 * length (ep_channels s) \<le> nat (ch_fd c)") auto
  from Channel_change_ok [OF 1(1) c(1) this refl, of f] show ?case
    using 1(4) c by (auto simp: ep_mask_def ep_fd_def after_update_def Channel_IsNoneEvent_def kNoneEvent_def
        context_defs fun_eq_iff)
next
  case (2 s p fd s')
  then obtain c where c: "ep_heap s p = Some c" "ch_fd c = fd" by (auto simp: ep_fd_def)
  have "ch_events c = 0 \<and> ch_context c \<noteq> kNew"
    using 2(3) c by (auto simp: EPollPoller_RemoveChannel_def Channel_IsNoneEvent_def kNoneEvent_def Let_def context_defs
        split: if_splits)
  then show ?case using RemoveChannel_ok [OF 2(1) c(1)] 2(3) c
    by (auto simp: ep_mask_def ep_fd_def fun_eq_iff)
qed

subsection \<open>Properties\<close>

inductive epoll_step :: "epoll \<Rightarrow> epoll \<Rightarrow> bool" where
  ep_create: "ep_heap ep p = None \<Longrightarrow> 0 \<le> fd \<Longrightarrow> fd \<le> INT_MAX \<Longrightarrow> \<forall>c \<in> ran (ep_heap ep). ch_fd c \<noteq> fd \<Longrightarrow>
     epoll_step ep (set_channel ep p (Channel_new fd))"
| ep_destroy: "ep_heap ep p = Some c \<Longrightarrow> ch_context c = kNew \<Longrightarrow> epoll_step ep (ep\<lparr>ep_heap := (ep_heap ep)(p := None)\<rparr>)"
| ep_enable_reading: "EnableReading ep p = Inr ep' \<Longrightarrow> epoll_step ep ep'"
| ep_enable_writing: "EnableWriting ep p = Inr ep' \<Longrightarrow> epoll_step ep ep'"
| ep_disable_reading: "DisableReading ep p = Inr ep' \<Longrightarrow> epoll_step ep ep'"
| ep_disable_writing: "DisableWriting ep p = Inr ep' \<Longrightarrow> epoll_step ep ep'"
| ep_disable_all: "DisableAll ep p = Inr ep' \<Longrightarrow> epoll_step ep ep'"
| ep_remove: "EPollPoller_RemoveChannel ep p = Inr ep' \<Longrightarrow> epoll_step ep ep'"
| ep_poll: "EPollPoller_poll ep res = Inr (active, ep') \<Longrightarrow> epoll_step ep ep'"

inductive epoll_reachable :: "epoll \<Rightarrow> bool" where
  ep_init: "epoll_reachable EPollPoller_new"
| ep_next: "epoll_reachable ep \<Longrightarrow> epoll_step ep ep' \<Longrightarrow> epoll_reachable ep'"

text \<open>Only the descriptor, the mask and the state of a channel matter to the poller.\<close>

lemma same_registration_inv:
  assumes "ep_inv ep" "ep_heap ep p = Some c" "ch_fd c' = ch_fd c" "ch_events c' = ch_events c" "ch_context c' = ch_context c"
  shows "ep_inv (set_channel ep p c')"
proof -
  have so: "slots_ok ep" and io: "interest_ok ep" using assms(1) by (simp_all add: ep_inv_def)
  note l = slots_live [OF so assms(2)]
  have free: "nat (ch_fd c) < length (ep_channels ep) \<longrightarrow> ep_channels ep ! nat (ch_fd c) = None" if "ch_context c = kNew"
  proof (intro impI, rule ccontr)
    assume i: "nat (ch_fd c) < length (ep_channels ep)" and "ep_channels ep ! nat (ch_fd c) \<noteq> None"
    then obtain q where "ep_channels ep ! nat (ch_fd c) = Some q" by blast
    with i obtain d where "ep_heap ep q = Some d" "ch_fd d = int (nat (ch_fd c))" "ch_context d \<noteq> kNew"
      using so unfolding slots_ok_def by blast
    moreover from this have "q = p" using slots_distinct [OF so _ assms(2)] l(1) by simp
    ultimately show False using assms(2) that by simp
  qed
  have "slots_ok (set_channel ep p c')"
    by (rule slots_ok_replace [OF so assms(2), where c' = c'])
      (use l free assms(3-5) in \<open>auto simp: set_channel_def\<close>)
  moreover have "interest_ok (set_channel ep p c')"
    using interest_of [OF so io assms(2)]
    by (intro interest_ok_replace [OF so io assms(2), where c' = c'])
      (auto simp: set_channel_def fun_upd_idem_iff assms(3-5))
  ultimately show ?thesis by (simp add: ep_inv_def)
qed

lemma set_revents_inv:
  "ep_inv ep \<Longrightarrow> ep_heap ep p = Some c \<Longrightarrow> ep_inv (set_channel ep p (Channel_set_revents c ev))"
  by (rule same_registration_inv) (simp_all add: Channel_set_revents_def)

lemma poll_loop_inv: "ep_inv ep \<Longrightarrow> poll_loop ep reports active = Inr (active', ep') \<Longrightarrow> ep_inv ep'"
proof (induction ep reports active rule: poll_loop.induct)
  case (2 ep fd ev reports active)
  then show ?case
    by (auto split: if_splits option.splits intro: set_revents_inv)
qed simp

lemma ep_inv_buffer [simp]: "ep_inv (ep\<lparr>ep_buffer := n\<rparr>) = ep_inv ep"
  by (simp add: ep_inv_def slots_ok_def interest_ok_def)

lemma poll_inv: "ep_inv ep \<Longrightarrow> EPollPoller_poll ep res = Inr (active, ep') \<Longrightarrow> ep_inv ep'"
  by (auto simp: EPollPoller_poll_def dest: poll_loop_inv split: epoll_result.splits if_splits)

lemma Channel_change_live: "Channel_change ep p f = Inr ep' \<Longrightarrow> \<exists>m fd. ep_mask ep p = Some m \<and> ep_fd ep p = Some fd"
  by (auto simp: Channel_change_def ep_mask_def ep_fd_def split: option.splits)

lemma Channel_change_inv: "ep_inv ep \<Longrightarrow> Channel_change ep p f = Inr ep' \<Longrightarrow> ep_inv ep'"
  using Channel_change_live epoll_poller.change_law by blast

lemma RemoveChannel_inv: "ep_inv ep \<Longrightarrow> EPollPoller_RemoveChannel ep p = Inr ep' \<Longrightarrow> ep_inv ep'"
proof -
  assume a: "ep_inv ep" "EPollPoller_RemoveChannel ep p = Inr ep'"
  then have "\<exists>fd. ep_fd ep p = Some fd" by (auto simp: EPollPoller_RemoveChannel_def ep_fd_def split: option.splits)
  then show "ep_inv ep'" using epoll_poller.remove_law a by blast
qed

lemma interest_ok_cong:
  assumes "interest_ok ep" "ep_interest ep' = ep_interest ep"
    and "\<And>p c. ch_context c = kAdded \<Longrightarrow> ep_heap ep' p = Some c \<longleftrightarrow> ep_heap ep p = Some c"
  shows "interest_ok ep'"
  using assms unfolding interest_ok_def by metis

lemma Channel_new_fd: "Some (Channel_new fd) = Some c \<Longrightarrow> ch_fd c = fd"
  by (auto simp: Channel_new_def)

lemma create_inv:
  assumes "ep_inv ep" "ep_heap ep p = None" "0 \<le> fd" "fd \<le> INT_MAX" "\<forall>c \<in> ran (ep_heap ep). ch_fd c \<noteq> fd"
  shows "ep_inv (set_channel ep p (Channel_new fd))"
proof -
  have other: "q \<noteq> p \<and> ch_fd c \<noteq> fd" if "ep_heap ep q = Some c" for q c
    using that assms(2,5) by (auto simp: ran_def)
  have so: "slots_ok ep" using assms(1) by (simp add: ep_inv_def)
  have "slots_ok (set_channel ep p (Channel_new fd))"
  proof (rule slots_okI, goal_cases)
    case (1 q c)
    then show ?case using assms(3,4) slots_live [OF so, of q c]
      by (auto simp: set_channel_def Channel_new_def context_defs split: if_splits)
  next
    case (2 i q)
    then show ?case using slot_owner [OF so, of i q] assms(2) by (auto simp: set_channel_def)
  next
    case (3 q r c d)
    have fd: "ch_fd e = fd \<longleftrightarrow> t = p" if "ep_heap (set_channel ep p (Channel_new fd)) t = Some e" for t e
      using that other [of t e] by (auto simp: set_channel_def Channel_new_def split: if_splits)
    have old: "ep_heap ep t = Some e" if "ep_heap (set_channel ep p (Channel_new fd)) t = Some e" "t \<noteq> p" for t e
      using that by (simp add: set_channel_def)
    show ?case
      using fd [OF 3(1)] fd [OF 3(2)] 3(3) old [OF 3(1)] old [OF 3(2)] slots_distinct [OF so, of q c r d] by metis
  qed
  moreover have "interest_ok (set_channel ep p (Channel_new fd))"
    by (rule interest_ok_cong [of ep])
      (use assms(1,2) in \<open>auto simp: ep_inv_def set_channel_def Channel_new_def context_defs\<close>)
  ultimately show ?thesis by (simp add: ep_inv_def)
qed

lemma destroy_inv:
  assumes "ep_inv ep" "ep_heap ep p = Some c" "ch_context c = kNew"
  shows "ep_inv (ep\<lparr>ep_heap := (ep_heap ep)(p := None)\<rparr>)"
proof -
  have so: "slots_ok ep" using assms(1) by (simp add: ep_inv_def)
  have "slots_ok (ep\<lparr>ep_heap := (ep_heap ep)(p := None)\<rparr>)"
  proof (rule slots_okI, goal_cases)
    case (1 q d)
    then show ?case using slots_live [OF so, of q d] by (auto split: if_splits)
  next
    case (2 i q)
    then show ?case using slot_owner [OF so, of i q] assms(2,3) by auto
  next
    case (3 q r c d)
    then show ?case using slots_distinct [OF so, of q c r d] by (auto split: if_splits)
  qed
  moreover have "interest_ok (ep\<lparr>ep_heap := (ep_heap ep)(p := None)\<rparr>)"
    by (rule interest_ok_cong [of ep]) (use assms in \<open>auto simp: ep_inv_def context_defs\<close>)
  ultimately show ?thesis by (simp add: ep_inv_def)
qed

lemma epoll_step_inv: "epoll_step ep ep' \<Longrightarrow> ep_inv ep \<Longrightarrow> ep_inv ep'"
  by (induction rule: epoll_step.induct)
    (auto simp: EnableReading_def EnableWriting_def DisableReading_def DisableWriting_def DisableAll_def
      intro: create_inv destroy_inv Channel_change_inv RemoveChannel_inv poll_inv)

lemma epoll_reachable_inv: "epoll_reachable ep \<Longrightarrow> ep_inv ep"
proof (induction rule: epoll_reachable.induct)
  case ep_init
  then show ?case by (simp add: EPollPoller_new_def ep_inv_def slots_ok_def interest_ok_def)
qed (rule epoll_step_inv)


definition demo_epoll :: epoll where
  "demo_epoll = EPollPoller_new\<lparr>ep_heap := [0 \<mapsto> Channel_new 5]\<rparr>"

lemma demo_epoll_reachable: "epoll_reachable demo_epoll"
  using ep_next [OF ep_init ep_create [of EPollPoller_new 0 5]]
  by (simp add: demo_epoll_def EPollPoller_new_def set_channel_def)


lemma poll_loop_reported:
  assumes "ep_inv ep" "\<forall>(fd, ev) \<in> set reports. ep_interest ep fd \<noteq> None" "distinct (map fst reports)"
  shows "\<exists>ps ep'. poll_loop ep reports active = Inr (active @ ps, ep') \<and> ep_inv ep' \<and> ep_buffer ep' = ep_buffer ep \<and>
     (\<forall>q. map_option ch_fd (ep_heap ep' q) = map_option ch_fd (ep_heap ep q)) \<and>
     (\<forall>q. q \<notin> set ps \<longrightarrow> ep_heap ep' q = ep_heap ep q) \<and>
     map (\<lambda>p. map_option (\<lambda>c. (ch_fd c, ch_revents c)) (ep_heap ep' p)) ps = map Some reports"
  using assms
proof (induction reports arbitrary: ep active)
  case (Cons report reports)
  obtain fd ev where r: "report = (fd, ev)" by (cases report)
  have so: "slots_ok ep" and io: "interest_ok ep" using Cons.prems(1) by (simp_all add: ep_inv_def)
  have "ep_interest ep fd \<noteq> None" using Cons.prems(2) r by simp
  then obtain p c where c: "ep_heap ep p = Some c" "ch_fd c = fd" "ch_context c = kAdded"
    using io unfolding interest_ok_def by (metis not_None_eq)
  note l = slots_live [OF so c(1)]
  have slot: "\<not> int (length (ep_channels ep)) \<le> fd" "vec_get (ep_channels ep) (fd_index fd) = Inr (Some p)"
    using l(1,3,5,6) c by (auto simp: context_defs)
  define ep1 where "ep1 = set_channel ep p (Channel_set_revents c ev)"
  have inv1: "ep_inv ep1" unfolding ep1_def by (rule set_revents_inv [OF Cons.prems(1) c(1)])
  have "ep_interest ep1 = ep_interest ep" by (simp add: ep1_def set_channel_def)
  then have "\<forall>(fd, ev) \<in> set reports. ep_interest ep1 fd \<noteq> None" using Cons.prems(2) by auto
  from Cons.IH [OF inv1 this, of "active @ [p]"] Cons.prems(3)
  obtain ps ep' where ih: "poll_loop ep1 reports (active @ [p]) = Inr ((active @ [p]) @ ps, ep')" "ep_inv ep'"
      "ep_buffer ep' = ep_buffer ep1" "\<forall>q. map_option ch_fd (ep_heap ep' q) = map_option ch_fd (ep_heap ep1 q)"
      "\<forall>q. q \<notin> set ps \<longrightarrow> ep_heap ep' q = ep_heap ep1 q"
      "map (\<lambda>p. map_option (\<lambda>c. (ch_fd c, ch_revents c)) (ep_heap ep' p)) ps = map Some reports" by auto
  have "p \<notin> set ps"
  proof
    assume "p \<in> set ps"
    then have "map_option (\<lambda>c. (ch_fd c, ch_revents c)) (ep_heap ep' p) \<in> set (map Some reports)"
      using ih(6) [symmetric] by simp
    then obtain d where "ep_heap ep' p = Some d" "ch_fd d \<in> fst ` set reports" by force
    then have "fd \<in> fst ` set reports" using ih(4) [rule_format, of p] c by (simp add: ep1_def set_channel_def Channel_set_revents_def)
    then show False using Cons.prems(3) r by simp
  qed
  then have p': "ep_heap ep' p = Some (Channel_set_revents c ev)" using ih(5) by (simp add: ep1_def set_channel_def)
  have run: "poll_loop ep (report # reports) active = Inr (active @ p # ps, ep')"
    using slot c ih(1) by (simp add: r ep1_def)
  have fds: "map_option ch_fd (ep_heap ep' q) = map_option ch_fd (ep_heap ep q)" for q
    using ih(4) [rule_format, of q] c by (simp add: ep1_def set_channel_def Channel_set_revents_def split: if_splits)
  have rest: "ep_heap ep' q = ep_heap ep q" if "q \<notin> set (p # ps)" for q
    using ih(5) [rule_format, of q] that by (simp add: ep1_def set_channel_def)
  show ?case
    using run ih(2,3,6) fds rest p' c
    by (intro exI [of _ "p # ps"] exI [of _ ep']) (simp add: r ep1_def set_channel_def Channel_set_revents_def)
qed simp

text \<open>
  A poll returns, for events the kernel reports on watched descriptors, exactly the channels of these
  descriptors in the order of the reports, each with the reported events, without following a null or
  dangling pointer; the event buffer doubles when the kernel filled it.
\<close>
theorem poll_activates_reported:
  assumes "ep_inv ep" "\<forall>(fd, ev) \<in> set reports. ep_interest ep fd \<noteq> None" "distinct (map fst reports)"
  shows "\<exists>active ep'. EPollPoller_poll ep (Wait_Events reports) = Inr (active, ep') \<and> ep_inv ep' \<and>
     map (\<lambda>p. map_option (\<lambda>c. (ch_fd c, ch_revents c)) (ep_heap ep' p)) active = map Some reports \<and>
     ep_buffer ep' = (if length reports = ep_buffer ep then 2 * length reports else ep_buffer ep)"
proof -
  obtain ps ep' where "poll_loop ep reports [] = Inr ([] @ ps, ep')" "ep_inv ep'" "ep_buffer ep' = ep_buffer ep"
      "map (\<lambda>p. map_option (\<lambda>c. (ch_fd c, ch_revents c)) (ep_heap ep' p)) ps = map Some reports"
    using poll_loop_reported [OF assms, of "[]"] by blast
  then show ?thesis
    by (intro exI [of _ ps] exI [of _ "if ep_buffer ep' = length reports then ep'\<lparr>ep_buffer := length reports * 2\<rparr> else ep'"])
      (simp add: EPollPoller_poll_def mult.commute)
qed

text \<open>
  Dispatch calls the callbacks of a channel in the order close, error, read, write, each at most
  once and only when it is set; a hang-up with data still readable is delivered as a read and not as a
  close, an error condition alone calls neither read nor write, nothing is called for a channel
  whose tied owner is gone, and the handling flag is clear afterwards.
\<close>
theorem OnEvent_dispatch:
  assumes "Channel_OnEvent alive c = (calls, c')"
  shows "distinct calls \<and> sorted_wrt (\<lambda>a b. (a, b) \<in> {(Close_cb, Error_cb), (Close_cb, Read_cb), (Close_cb, Write_cb),
        (Error_cb, Read_cb), (Error_cb, Write_cb), (Read_cb, Write_cb)}) calls \<and>
     (\<forall>cb \<in> set calls. ch_callbacks c cb) \<and> (ch_tied c \<and> \<not> alive \<longrightarrow> calls = []) \<and>
     (ch_revents c AND POLLIN \<noteq> 0 \<longrightarrow> Close_cb \<notin> set calls \<and> (ch_callbacks c Read_cb \<and> \<not> (ch_tied c \<and> \<not> alive) \<longrightarrow> Read_cb \<in> set calls)) \<and>
     (ch_revents c = POLLERR \<longrightarrow> set calls \<subseteq> {Error_cb}) \<and>
     (ch_event_handling c = False \<longrightarrow> c' = c)"
proof -
  have bits: "POLLERR AND POLLHUP = 0" "POLLERR AND (POLLIN OR POLLPRI OR POLLRDHUP) = 0" "POLLERR AND POLLOUT = 0"
    by (simp_all add: poll_bits)
  have rd: "ev AND (POLLIN OR POLLPRI OR POLLRDHUP) \<noteq> 0" if "ev AND POLLIN \<noteq> 0" for ev :: events
    using that by (metis bit.conj_disj_distrib or_eq_0_iff)
  show ?thesis
  proof (cases "ch_tied c \<and> \<not> alive")
    case True
    then show ?thesis using assms by (auto simp: Channel_OnEvent_def)
  next
    case False
    define A B C D where "A \<longleftrightarrow> ch_revents c AND POLLHUP \<noteq> 0 \<and> \<not> (ch_revents c AND POLLIN \<noteq> 0)"
      and "B \<longleftrightarrow> ch_revents c AND (POLLERR OR POLLNVAL) \<noteq> 0"
      and "C \<longleftrightarrow> ch_revents c AND (POLLIN OR POLLPRI OR POLLRDHUP) \<noteq> 0" and "D \<longleftrightarrow> ch_revents c AND POLLOUT \<noteq> 0"
    have ws: "when_set (c\<lparr>ch_event_handling := True\<rparr>) = when_set c" by (simp add: when_set_def fun_eq_iff)
    have "Channel_OnEventWithGuard c = (calls, c')" using assms False by (simp add: Channel_OnEvent_def split: if_splits)
    then have "calls = when_set c A Close_cb @ when_set c B Error_cb @ when_set c C Read_cb @ when_set c D Write_cb"
      and c': "c' = c\<lparr>ch_event_handling := False\<rparr>"
      unfolding Channel_OnEventWithGuard_def Let_def ws A_def B_def C_def D_def by auto
    then have calls: "calls = (if A \<and> ch_callbacks c Close_cb then [Close_cb] else []) @
        (if B \<and> ch_callbacks c Error_cb then [Error_cb] else []) @ (if C \<and> ch_callbacks c Read_cb then [Read_cb] else []) @
        (if D \<and> ch_callbacks c Write_cb then [Write_cb] else [])" by (simp only: when_set_def)
    have pollin: "ch_revents c AND POLLIN \<noteq> 0 \<Longrightarrow> \<not> A \<and> C" and err: "ch_revents c = POLLERR \<Longrightarrow> \<not> A \<and> \<not> C \<and> \<not> D"
      using rd bits unfolding A_def C_def D_def by auto
    have "ch_event_handling c = False \<longrightarrow> c' = c" by (simp add: c')
    moreover have "distinct calls" "\<forall>cb \<in> set calls. ch_callbacks c cb"
      "sorted_wrt (\<lambda>a b. (a, b) \<in> {(Close_cb, Error_cb), (Close_cb, Read_cb), (Close_cb, Write_cb),
        (Error_cb, Read_cb), (Error_cb, Write_cb), (Read_cb, Write_cb)}) calls"
      by (auto simp: calls)
    moreover have "\<not> A \<Longrightarrow> Close_cb \<notin> set calls" "C \<and> ch_callbacks c Read_cb \<Longrightarrow> Read_cb \<in> set calls"
      "\<not> A \<and> \<not> C \<and> \<not> D \<Longrightarrow> set calls \<subseteq> {Error_cb}" by (auto simp: calls)
    ultimately show ?thesis using pollin err False by blast
  qed
qed

text \<open>
  The channel table is doubled only once: enabling a new channel whose descriptor is at least twice
  the size of the table writes outside it.
\<close>
theorem UpdateChannel_grows_once:
  assumes "ep_inv ep" "ep_heap ep p = Some c" "ch_context c = kNew" "2 * length (ep_channels ep) \<le> nat (ch_fd c)"
  shows "EnableReading ep p = Inl Out_Of_Bounds"
  using Channel_change_no_room [OF assms] by (simp add: EnableReading_def)

text \<open>
  Enabling and disabling write interest on a watched channel leaves the kernel watching exactly
  the read interest it had, and every other descriptor as it was.
\<close>
theorem Writing_toggles:
  assumes "ep_inv ep" "ep_heap ep p = Some c" "ch_events c AND NOT kWriteEvent \<noteq> 0"
    and "EnableWriting ep p = Inr ep1" "DisableWriting ep1 p = Inr ep2"
  shows "ep_interest ep2 (ch_fd c) = Some (ch_events c AND NOT kWriteEvent) \<and>
     (\<forall>fd. fd \<noteq> ch_fd c \<longrightarrow> ep_interest ep2 fd = ep_interest ep fd) \<and> ep_inv ep2"
proof -
  have m: "(ch_events c OR kWriteEvent) AND NOT kWriteEvent = ch_events c AND NOT kWriteEvent"
    by (simp add: bit.conj_disj_distrib2)
  have "ep_mask ep p = Some (ch_events c)" "ep_fd ep p = Some (ch_fd c)" using assms(2) by (simp_all add: ep_mask_def ep_fd_def)
  note t = epoll_poller.change_twice [OF assms(1) this assms(4) [unfolded EnableWriting_def] assms(5) [unfolded DisableWriting_def]]
  show ?thesis using t assms(3) by (simp add: m)
qed

lemma DisableAll_twice_watches_again:
  assumes "ep_inv ep" "ep_heap ep p = Some c" "ch_context c = kDeleted"
  shows "\<exists>ep'. DisableAll ep p = Inr ep' \<and> ep_interest ep' (ch_fd c) = Some 0"
  using Channel_change_ok [OF assms(1,2) _ refl, of "\<lambda>ev. kNoneEvent"] assms(3)
  by (auto simp: DisableAll_def after_update_def context_defs kNoneEvent_def)

end
