(* ===== verification/Reactor.thy ===== *)
theory Reactor
  imports Pollers "HOL-Library.Multiset"
begin

text \<open>
  The event loop of \<^verbatim>\<open>events/EventLoop.cc\<close> together with its poller and its channels: construction, the registration of the
  loop with its thread, the round of \<open>loop\<close> that polls, sorts and dispatches the active channels, and the checks with
  which \<open>UpdateChannel\<close>, \<open>RemoveChannel\<close> and the destructor of a channel guard that round.

  Callbacks and tasks may create, change, remove and destroy channels; they are the steps between the beginning and the
  end of \<open>OnEvent\<close> and those after the dispatch. The tasks themselves are in Loops.thy.
\<close>

subsection \<open>State\<close>

datatype reactor_pc = R_Outside | R_Next | R_Callback nat

record reactor =
  rx_self :: nat
  rx_tid :: nat
  rx_poller :: epoll
  rx_owner :: "nat \<Rightarrow> nat"
  rx_active :: "nat list"
  rx_current :: "nat option"
  rx_rest :: "nat list"
  rx_pc :: reactor_pc

subsection \<open>One loop per thread\<close>

text \<open>\<open>tLoopInThisThread\<close> for every thread.\<close>

type_synonym loops_of_threads = "nat \<rightharpoonup> nat"

definition EventLoop_register :: "loops_of_threads \<Rightarrow> nat \<Rightarrow> nat \<Rightarrow> loops_of_threads result" where
  "EventLoop_register loops tid loop = (if loops tid \<noteq> None then Inl Aborted else Inr (loops(tid \<mapsto> loop)))"

definition EventLoop_unregister :: "loops_of_threads \<Rightarrow> nat \<Rightarrow> nat \<Rightarrow> loops_of_threads result" where
  "EventLoop_unregister loops tid loop = DCHECK (loops tid = Some loop) (Inr (loops(tid := None)))"

definition CurrentLoopInThisThread :: "loops_of_threads \<Rightarrow> nat \<Rightarrow> nat option" where
  "CurrentLoopInThisThread loops tid = loops tid"

definition AssertInLoopThread :: "reactor \<Rightarrow> nat \<Rightarrow> 'a result \<Rightarrow> 'a result" where
  "AssertInLoopThread rx tid m = DCHECK (rx_tid rx = tid) m"

subsection \<open>Channels of a loop\<close>

definition with_channel :: "reactor \<Rightarrow> nat \<Rightarrow> (channel \<Rightarrow> 'a result) \<Rightarrow> 'a result" where
  "with_channel rx p f = (case ep_heap (rx_poller rx) p of None \<Rightarrow> Inl Dangling_Pointer | Some c \<Rightarrow> f c)"

definition EventLoop_UpdateChannel :: "reactor \<Rightarrow> nat \<Rightarrow> nat \<Rightarrow> reactor result" where
  "EventLoop_UpdateChannel rx tid p =
     with_channel rx p (\<lambda>c.
     DCHECK (rx_owner rx p = rx_self rx)
     (AssertInLoopThread rx tid
       (bindR (EPollPoller_UpdateChannel (rx_poller rx) p) (\<lambda>ep. Inr (rx\<lparr>rx_poller := ep\<rparr>)))))"

definition EventLoop_RemoveChannel :: "reactor \<Rightarrow> nat \<Rightarrow> nat \<Rightarrow> reactor result" where
  "EventLoop_RemoveChannel rx tid p =
     with_channel rx p (\<lambda>c.
     DCHECK (rx_owner rx p = rx_self rx)
     (AssertInLoopThread rx tid
     (DCHECK (rx_current rx \<noteq> None \<longrightarrow> rx_current rx = Some p \<or> p \<notin> set (rx_active rx))
       (bindR (EPollPoller_RemoveChannel (rx_poller rx) p) (\<lambda>ep. Inr (rx\<lparr>rx_poller := ep\<rparr>))))))"

definition Channel_create :: "reactor \<Rightarrow> nat \<Rightarrow> int \<Rightarrow> reactor" where
  "Channel_create rx p fd = rx\<lparr>rx_poller := set_channel (rx_poller rx) p (Channel_new fd), rx_owner := (rx_owner rx)(p := rx_self rx)\<rparr>"

text \<open>Enabling and disabling change the mask and then call \<open>UpdateChannel\<close> of the loop.\<close>

definition Channel_Update :: "reactor \<Rightarrow> nat \<Rightarrow> nat \<Rightarrow> (events \<Rightarrow> events) \<Rightarrow> reactor result" where
  "Channel_Update rx tid p f =
     with_channel rx p (\<lambda>c.
       EventLoop_UpdateChannel (rx\<lparr>rx_poller := set_channel (rx_poller rx) p (c\<lparr>ch_events := f (ch_events c)\<rparr>)\<rparr>) tid p)"

definition Channel_Remove :: "reactor \<Rightarrow> nat \<Rightarrow> nat \<Rightarrow> reactor result" where
  "Channel_Remove rx tid p = with_channel rx p (\<lambda>c. EventLoop_RemoveChannel rx tid p)"

definition Channel_destroy :: "reactor \<Rightarrow> nat \<Rightarrow> reactor result" where
  "Channel_destroy rx p =
     with_channel rx p (\<lambda>c. CHECK (\<not> ch_event_handling c)
       (Inr (rx\<lparr>rx_poller := (rx_poller rx)\<lparr>ep_heap := (ep_heap (rx_poller rx))(p := None)\<rparr>\<rparr>)))"

subsection \<open>Construction\<close>

text \<open>The timer queue makes the channel of the timer, of high priority; then comes the one of the eventfd.\<close>

definition EventLoop_create :: "loops_of_threads \<Rightarrow> nat \<Rightarrow> nat \<Rightarrow> int \<Rightarrow> int \<Rightarrow> (loops_of_threads \<times> reactor) result" where
  "EventLoop_create loops tid loop timer_fd wakeup_fd =
     (let rx = \<lparr>rx_self = loop, rx_tid = tid, rx_poller = EPollPoller_new, rx_owner = (\<lambda>_. loop), rx_active = [], rx_current = None,
                rx_rest = [], rx_pc = R_Outside\<rparr>;
          rx = Channel_create rx 0 timer_fd
      in bindR (Channel_Update rx tid 0 (\<lambda>ev. ev OR kReadEvent)) (\<lambda>rx.
         bindR (with_channel rx 0 (\<lambda>c. Inr (rx\<lparr>rx_poller := set_channel (rx_poller rx) 0 (Channel_set_priority c kHigh)\<rparr>))) (\<lambda>rx.
         let rx = Channel_create rx 1 wakeup_fd
         in bindR (EventLoop_register loops tid loop) (\<lambda>loops.
            bindR (Channel_Update rx tid 1 (\<lambda>ev. ev OR kReadEvent)) (\<lambda>rx. Inr (loops, rx))))))"

subsection \<open>A round of the loop\<close>

definition channel_prio :: "epoll \<Rightarrow> nat \<Rightarrow> int" where
  "channel_prio ep p = (case ep_heap ep p of None \<Rightarrow> 0 | Some c \<Rightarrow> priority_value (ch_priority c))"

text \<open>\<open>sorted\<close> is what \<open>std::sort\<close> may make of the reported channels; it leaves the order of equal priorities open.\<close>

definition may_sort :: "epoll \<Rightarrow> nat list \<Rightarrow> nat list \<Rightarrow> bool" where
  "may_sort ep reported ordered \<longleftrightarrow>
     mset ordered = mset reported \<and> sorted_wrt (\<lambda>p q. channel_prio ep q \<le> channel_prio ep p) ordered"

definition loop_dispatch :: "reactor \<Rightarrow> epoll \<Rightarrow> nat list \<Rightarrow> reactor" where
  "loop_dispatch rx ep ordered = rx\<lparr>rx_poller := ep, rx_active := ordered, rx_rest := ordered, rx_pc := R_Next\<rparr>"

text \<open>The iterator yields the next channel and its \<open>OnEvent\<close> begins; \<open>event_handling_\<close> brackets the callbacks.\<close>

definition OnEvent_begin :: "reactor \<Rightarrow> reactor result" where
  "OnEvent_begin rx =
     (case rx_rest rx of [] \<Rightarrow> Inl Out_Of_Bounds
      | p # ps \<Rightarrow>
          with_channel rx p (\<lambda>c. Inr (rx\<lparr>rx_current := Some p, rx_rest := ps, rx_pc := R_Callback p,
            rx_poller := set_channel (rx_poller rx) p (c\<lparr>ch_event_handling := True\<rparr>)\<rparr>)))"

definition OnEvent_end :: "reactor \<Rightarrow> nat \<Rightarrow> reactor result" where
  "OnEvent_end rx p =
     with_channel rx p (\<lambda>c. Inr (rx\<lparr>rx_pc := R_Next, rx_poller := set_channel (rx_poller rx) p (c\<lparr>ch_event_handling := False\<rparr>)\<rparr>))"

definition loop_after :: "reactor \<Rightarrow> reactor" where
  "loop_after rx = rx\<lparr>rx_current := None, rx_pc := R_Outside\<rparr>"

text \<open>
  What can happen. The kernel reports a descriptor at most once per call; user code runs in callbacks and outside the
  dispatch, and destroys only channels it has removed or never enabled.
\<close>

inductive reactor_step :: "reactor \<Rightarrow> reactor \<Rightarrow> bool" where
  rx_poll: "rx_pc rx = R_Outside \<Longrightarrow> EPollPoller_poll (rx_poller rx) res = Inr (reported, ep) \<Longrightarrow>
     (\<forall>reports. res = Wait_Events reports \<longrightarrow> distinct (map fst reports)) \<Longrightarrow> may_sort ep reported ordered \<Longrightarrow>
     reactor_step rx (loop_dispatch rx ep ordered)"
| rx_begin: "rx_pc rx = R_Next \<Longrightarrow> OnEvent_begin rx = Inr rx' \<Longrightarrow> reactor_step rx rx'"
| rx_end: "rx_pc rx = R_Callback p \<Longrightarrow> OnEvent_end rx p = Inr rx' \<Longrightarrow> reactor_step rx rx'"
| rx_after: "rx_pc rx = R_Next \<Longrightarrow> rx_rest rx = [] \<Longrightarrow> reactor_step rx (loop_after rx)"
| rx_create: "rx_pc rx \<noteq> R_Next \<Longrightarrow> ep_heap (rx_poller rx) p = None \<Longrightarrow> 0 \<le> fd \<Longrightarrow> fd \<le> INT_MAX \<Longrightarrow>
     \<forall>c \<in> ran (ep_heap (rx_poller rx)). ch_fd c \<noteq> fd \<Longrightarrow> reactor_step rx (Channel_create rx p fd)"
| rx_update: "rx_pc rx \<noteq> R_Next \<Longrightarrow> Channel_Update rx tid p f = Inr rx' \<Longrightarrow> reactor_step rx rx'"
| rx_remove: "rx_pc rx \<noteq> R_Next \<Longrightarrow> Channel_Remove rx tid p = Inr rx' \<Longrightarrow> reactor_step rx rx'"
| rx_destroy: "rx_pc rx \<noteq> R_Next \<Longrightarrow> ep_heap (rx_poller rx) p = Some c \<Longrightarrow> ch_context c = kNew \<Longrightarrow>
     Channel_destroy rx p = Inr rx' \<Longrightarrow> reactor_step rx rx'"

inductive reactor_reachable :: "reactor \<Rightarrow> bool" where
  rx_init: "EventLoop_create loops tid loop timer_fd wakeup_fd = Inr (loops', rx) \<Longrightarrow> 0 \<le> timer_fd \<Longrightarrow> timer_fd \<le> INT_MAX \<Longrightarrow>
     0 \<le> wakeup_fd \<Longrightarrow> wakeup_fd \<le> INT_MAX \<Longrightarrow> timer_fd \<noteq> wakeup_fd \<Longrightarrow> reactor_reachable rx"
| rx_next: "reactor_reachable rx \<Longrightarrow> reactor_step rx rx' \<Longrightarrow> reactor_reachable rx'"

subsection \<open>What the operations keep\<close>

definition registered :: "epoll \<Rightarrow> nat \<Rightarrow> bool" where
  "registered ep p \<longleftrightarrow> (\<exists>c. ep_heap ep p = Some c \<and> ch_context c \<noteq> kNew)"

definition handling :: "epoll \<Rightarrow> nat \<Rightarrow> bool" where
  "handling ep p \<longleftrightarrow> (\<exists>c. ep_heap ep p = Some c \<and> ch_event_handling c)"

lemma Channel_change_heap:
  assumes "ep_inv ep" "Channel_change ep p f = Inr ep'"
  obtains c where "ep_heap ep p = Some c" "ep_heap ep' = (ep_heap ep)(p \<mapsto> after_update (c\<lparr>ch_events := f (ch_events c)\<rparr>))"
proof -
  obtain c where c: "ep_heap ep p = Some c" using assms(2) by (auto simp: Channel_change_def split: option.splits)
  have "ch_context c = kNew \<longrightarrow> nat (ch_fd c) < 2 * length (ep_channels ep)"
    using Channel_change_no_room [OF assms(1) c, of f] assms(2) by (cases "2 * length (ep_channels ep) \<le> nat (ch_fd c)") auto
  from Channel_change_ok [OF assms(1) c this refl, of f]
  have "ep_heap ep' = (ep_heap ep)(p \<mapsto> after_update (c\<lparr>ch_events := f (ch_events c)\<rparr>))" using assms(2) by auto
  with c show ?thesis by (rule that)
qed

lemma Channel_change_frame:
  assumes "ep_inv ep" "Channel_change ep p f = Inr ep'"
  shows "registered ep q \<Longrightarrow> registered ep' q" "handling ep q \<Longrightarrow> handling ep' q"
proof -
  obtain c where "ep_heap ep p = Some c" "ep_heap ep' = (ep_heap ep)(p \<mapsto> after_update (c\<lparr>ch_events := f (ch_events c)\<rparr>))"
    by (rule Channel_change_heap [OF assms])
  then show "registered ep q \<Longrightarrow> registered ep' q" "handling ep q \<Longrightarrow> handling ep' q"
    by (auto simp: registered_def handling_def after_update_def context_defs)
qed

lemma RemoveChannel_frame:
  assumes "ep_inv ep" "EPollPoller_RemoveChannel ep p = Inr ep'"
  shows "q \<noteq> p \<Longrightarrow> registered ep q \<Longrightarrow> registered ep' q" "handling ep q \<Longrightarrow> handling ep' q"
proof -
  obtain c where c: "ep_heap ep p = Some c" "ch_events c = 0 \<and> ch_context c \<noteq> kNew"
    using assms(2) by (auto simp: EPollPoller_RemoveChannel_def Channel_IsNoneEvent_def kNoneEvent_def Let_def context_defs
        split: if_splits option.splits)
  from RemoveChannel_ok [OF assms(1) c(1)] c(2) assms(2)
  have "ep_heap ep' = (ep_heap ep)(p \<mapsto> c\<lparr>ch_context := kNew\<rparr>)" by auto
  then show "q \<noteq> p \<Longrightarrow> registered ep q \<Longrightarrow> registered ep' q" "handling ep q \<Longrightarrow> handling ep' q"
    using c(1) by (auto simp: registered_def handling_def)
qed

text \<open>The reported channels are registered and, as each descriptor is reported once, distinct.\<close>

lemma poll_loop_registered:
  assumes "ep_inv ep" "poll_loop ep reports active = Inr (active', ep')" "\<forall>p \<in> set active. registered ep p"
  shows "\<forall>p \<in> set active'. registered ep' p"
  using assms
proof (induction ep reports active rule: poll_loop.induct)
  case (2 ep fd ev reports active)
  show ?case
  proof (cases "int (length (ep_channels ep)) \<le> fd")
    case True
    then show ?thesis using 2 by simp
  next
    case False
    then obtain p c where p: "vec_get (ep_channels ep) (fd_index fd) = Inr (Some p)" "ep_heap ep p = Some c" "ch_fd c = fd"
      and rec: "poll_loop (set_channel ep p (Channel_set_revents c ev)) reports (active @ [p]) = Inr (active', ep')"
      using 2(4) by (auto split: option.splits)
    have "ch_context c \<noteq> kNew"
      using slot_owner [of ep "fd_index fd" p] p 2(3) by (auto simp: ep_inv_def)
    moreover have "registered (set_channel ep p (Channel_set_revents c ev)) q \<longleftrightarrow> registered ep q" for q
      using p(2) by (auto simp: registered_def set_channel_def Channel_set_revents_def)
    ultimately have "\<forall>q \<in> set (active @ [p]). registered (set_channel ep p (Channel_set_revents c ev)) q"
      using 2(5) p(2) by (auto simp: registered_def)
    then show ?thesis using 2(2) [OF False p(1) refl p(2)] set_revents_inv [OF 2(3) p(2)] rec p(3) by simp
  qed
qed simp

lemma poll_loop_distinct:
  assumes "poll_loop ep reports active = Inr (active', ep')" "distinct (map fst reports)" "distinct active"
    "\<forall>p \<in> set active. \<forall>c. ep_heap ep p = Some c \<longrightarrow> ch_fd c \<notin> fst ` set reports" "\<forall>p \<in> set active. ep_heap ep p \<noteq> None"
  shows "distinct active'"
  using assms
proof (induction ep reports active rule: poll_loop.induct)
  case (2 ep fd ev reports active)
  show ?case
  proof (cases "int (length (ep_channels ep)) \<le> fd")
    case True
    then show ?thesis using 2 by auto
  next
    case False
    then obtain p c where p: "vec_get (ep_channels ep) (fd_index fd) = Inr (Some p)" "ep_heap ep p = Some c" "ch_fd c = fd"
      and rec: "poll_loop (set_channel ep p (Channel_set_revents c ev)) reports (active @ [p]) = Inr (active', ep')"
      using 2(3) by (auto split: option.splits)
    have np: "p \<notin> set active" using 2(6) p by force
    show ?thesis
    proof (rule 2(2) [OF False p(1) refl p(2)])
      show "\<forall>q \<in> set (active @ [p]). \<forall>d. ep_heap (set_channel ep p (Channel_set_revents c ev)) q = Some d \<longrightarrow> ch_fd d \<notin> fst ` set reports"
        using 2(4,6) np p by (auto simp: set_channel_def Channel_set_revents_def)
    qed (use rec 2 np p in \<open>auto simp: set_channel_def\<close>)
  qed
qed simp

lemma poll_active:
  assumes "ep_inv ep" "EPollPoller_poll ep res = Inr (reported, ep')"
    "\<forall>reports. res = Wait_Events reports \<longrightarrow> distinct (map fst reports)"
  shows "(\<forall>p \<in> set reported. registered ep' p) \<and> distinct reported"
proof (cases res)
  case (Wait_Events reports)
  then obtain ep1 where 1: "poll_loop ep reports [] = Inr (reported, ep1)" "ep_heap ep' = ep_heap ep1"
    using assms(2) by (auto simp: EPollPoller_poll_def split: if_splits)
  from poll_loop_registered [OF assms(1) 1(1)] poll_loop_distinct [OF 1(1)] assms(3) Wait_Events 1(2)
  show ?thesis by (simp add: registered_def)
qed (use assms(2) in \<open>simp_all add: EPollPoller_poll_def\<close>)

subsection \<open>The invariant\<close>

definition reactor_inv :: "reactor \<Rightarrow> bool" where
  "reactor_inv rx \<longleftrightarrow> ep_inv (rx_poller rx) \<and>
     (rx_pc rx = R_Outside \<longrightarrow> rx_current rx = None \<and> rx_rest rx = []) \<and>
     (\<forall>p. rx_pc rx = R_Callback p \<longrightarrow> rx_current rx = Some p \<and> handling (rx_poller rx) p \<and> p \<notin> set (rx_rest rx)) \<and>
     distinct (rx_rest rx) \<and> set (rx_rest rx) \<subseteq> set (rx_active rx) \<and> (\<forall>q \<in> set (rx_rest rx). registered (rx_poller rx) q)"

lemma Channel_Update_change:
  "Channel_Update rx tid p f = Inr rx' \<Longrightarrow> \<exists>ep. Channel_change (rx_poller rx) p f = Inr ep \<and> rx' = rx\<lparr>rx_poller := ep\<rparr>"
  by (auto simp: Channel_Update_def EventLoop_UpdateChannel_def with_channel_def Channel_change_def AssertInLoopThread_def split: option.splits)

lemma Channel_Remove_poller:
  "Channel_Remove rx tid p = Inr rx' \<Longrightarrow> \<exists>ep. EPollPoller_RemoveChannel (rx_poller rx) p = Inr ep \<and> rx' = rx\<lparr>rx_poller := ep\<rparr> \<and>
     (rx_current rx \<noteq> None \<longrightarrow> rx_current rx = Some p \<or> p \<notin> set (rx_active rx))"
  by (auto simp: Channel_Remove_def EventLoop_RemoveChannel_def with_channel_def AssertInLoopThread_def split: option.splits)

lemma may_sort_set: "may_sort ep reported ordered \<Longrightarrow> set ordered = set reported \<and> (distinct reported \<longrightarrow> distinct ordered)"
  by (metis may_sort_def mset_eq_setD mset_eq_imp_distinct_iff)

lemma reactor_inv_poller:
  assumes "reactor_inv rx" "ep_inv ep" "\<And>q. q \<in> set (rx_rest rx) \<Longrightarrow> registered ep q"
    "\<And>p. rx_pc rx = R_Callback p \<Longrightarrow> handling ep p"
  shows "reactor_inv (rx\<lparr>rx_poller := ep\<rparr>)"
  using assms by (auto simp: reactor_inv_def)

lemma reactor_step_inv:
  assumes "reactor_step rx rx'" "reactor_inv rx"
  shows "reactor_inv rx'"
  using assms
proof (induction rule: reactor_step.induct)
  case (rx_poll rx res reported ep ordered)
  have i: "ep_inv (rx_poller rx)" using rx_poll by (simp add: reactor_inv_def)
  have "ep_inv ep" using poll_inv [OF i rx_poll(2)] .
  then show ?case using poll_active [OF i rx_poll(2,3)] may_sort_set [OF rx_poll(4)] by (auto simp: reactor_inv_def loop_dispatch_def)
next
  case (rx_begin rx rx')
  then obtain p ps c where p: "rx_rest rx = p # ps" "ep_heap (rx_poller rx) p = Some c"
    "rx' = rx\<lparr>rx_current := Some p, rx_rest := ps, rx_pc := R_Callback p,
       rx_poller := set_channel (rx_poller rx) p (c\<lparr>ch_event_handling := True\<rparr>)\<rparr>"
    by (auto simp: OnEvent_begin_def with_channel_def split: list.splits option.splits)
  have "ep_inv (set_channel (rx_poller rx) p (c\<lparr>ch_event_handling := True\<rparr>))"
    by (rule same_registration_inv [of _ _ c]) (use rx_begin p in \<open>auto simp: reactor_inv_def\<close>)
  then show ?case using rx_begin p by (auto simp: reactor_inv_def registered_def handling_def set_channel_def)
next
  case (rx_end rx p rx')
  then obtain c where p: "ep_heap (rx_poller rx) p = Some c"
    "rx' = rx\<lparr>rx_pc := R_Next, rx_poller := set_channel (rx_poller rx) p (c\<lparr>ch_event_handling := False\<rparr>)\<rparr>"
    by (auto simp: OnEvent_end_def with_channel_def split: option.splits)
  have "ep_inv (set_channel (rx_poller rx) p (c\<lparr>ch_event_handling := False\<rparr>))"
    by (rule same_registration_inv [of _ _ c]) (use rx_end p in \<open>auto simp: reactor_inv_def\<close>)
  then show ?case using rx_end p by (auto simp: reactor_inv_def registered_def set_channel_def)
next
  case (rx_after rx)
  then show ?case by (auto simp: reactor_inv_def loop_after_def)
next
  case (rx_create rx p fd)
  have "ep_inv (set_channel (rx_poller rx) p (Channel_new fd))"
    by (rule create_inv) (use rx_create in \<open>auto simp: reactor_inv_def\<close>)
  then show ?case using rx_create by (auto simp: reactor_inv_def Channel_create_def registered_def handling_def set_channel_def)
next
  case (rx_update rx tid p f rx')
  then obtain ep where ep: "Channel_change (rx_poller rx) p f = Inr ep" "rx' = rx\<lparr>rx_poller := ep\<rparr>" using Channel_Update_change by blast
  have i: "ep_inv (rx_poller rx)" using rx_update by (simp add: reactor_inv_def)
  show ?case unfolding ep(2)
    by (rule reactor_inv_poller [OF rx_update(3) Channel_change_inv [OF i ep(1)]])
      (use Channel_change_frame [OF i ep(1)] rx_update in \<open>auto simp: reactor_inv_def\<close>)
next
  case (rx_remove rx tid p rx')
  then obtain ep where ep: "EPollPoller_RemoveChannel (rx_poller rx) p = Inr ep" "rx' = rx\<lparr>rx_poller := ep\<rparr>"
    "rx_current rx \<noteq> None \<longrightarrow> rx_current rx = Some p \<or> p \<notin> set (rx_active rx)" using Channel_Remove_poller by blast
  have i: "ep_inv (rx_poller rx)" using rx_remove by (simp add: reactor_inv_def)
  have "p \<notin> set (rx_rest rx)" using rx_remove ep(3) by (cases "rx_pc rx") (auto simp: reactor_inv_def)
  then have r: "registered ep q" if "q \<in> set (rx_rest rx)" for q
    using that rx_remove(3) by (intro RemoveChannel_frame(1) [OF i ep(1)]) (auto simp: reactor_inv_def)
  show ?case unfolding ep(2)
    by (rule reactor_inv_poller [OF rx_remove(3) RemoveChannel_inv [OF i ep(1)]], erule r)
      (use RemoveChannel_frame(2) [OF i ep(1)] rx_remove in \<open>auto simp: reactor_inv_def\<close>)
next
  case (rx_destroy rx p c rx')
  then have rx': "rx' = rx\<lparr>rx_poller := (rx_poller rx)\<lparr>ep_heap := (ep_heap (rx_poller rx))(p := None)\<rparr>\<rparr>" "\<not> ch_event_handling c"
    by (auto simp: Channel_destroy_def with_channel_def)
  have "ep_inv ((rx_poller rx)\<lparr>ep_heap := (ep_heap (rx_poller rx))(p := None)\<rparr>)"
    by (rule destroy_inv) (use rx_destroy in \<open>auto simp: reactor_inv_def\<close>)
  then show ?case unfolding rx'(1)
    by (rule reactor_inv_poller [OF rx_destroy(5)])
      (use rx_destroy(2,3,5) rx'(2) in \<open>auto simp: reactor_inv_def registered_def handling_def\<close>)
qed

lemma EventLoop_create_inv:
  assumes "EventLoop_create loops tid loop timer_fd wakeup_fd = Inr (loops', rx)" "0 \<le> timer_fd" "timer_fd \<le> INT_MAX"
    "0 \<le> wakeup_fd" "wakeup_fd \<le> INT_MAX" "timer_fd \<noteq> wakeup_fd"
  shows "reactor_inv rx"
proof -
  let ?ep = "set_channel EPollPoller_new 0 (Channel_new timer_fd)"
  have i0: "ep_inv ?ep"
    by (rule create_inv) (use assms(2,3) epoll_reachable_inv [OF ep_init] in \<open>simp_all add: EPollPoller_new_def\<close>)
  obtain ep1 c ep2 where ep: "Channel_change ?ep 0 (\<lambda>ev. ev OR kReadEvent) = Inr ep1"
    "Channel_change (set_channel (set_channel ep1 0 (Channel_set_priority c kHigh)) 1 (Channel_new wakeup_fd)) 1 (\<lambda>ev. ev OR kReadEvent) = Inr ep2"
    "rx_poller rx = ep2" "rx_pc rx = R_Outside" "rx_current rx = None" "rx_rest rx = []" and c: "ep_heap ep1 0 = Some c"
    using assms(1)
    by (auto simp: EventLoop_create_def Let_def Channel_create_def with_channel_def dest!: Channel_Update_change split: option.splits)
  let ?ep1 = "set_channel ep1 0 (Channel_set_priority c kHigh)"
  have h: "ep_heap ?ep1 = [0 \<mapsto> Channel_set_priority c kHigh]" "ch_fd c = timer_fd"
  proof -
    obtain d where "ep_heap ?ep 0 = Some d" "ep_heap ep1 = (ep_heap ?ep)(0 \<mapsto> after_update (d\<lparr>ch_events := ch_events d OR kReadEvent\<rparr>))"
      by (rule Channel_change_heap [OF i0 ep(1)])
    then show "ep_heap ?ep1 = [0 \<mapsto> Channel_set_priority c kHigh]" "ch_fd c = timer_fd"
      using c by (auto simp: set_channel_def EPollPoller_new_def after_update_def Channel_new_def)
  qed
  have "ep_inv ?ep1"
    by (rule same_registration_inv [OF Channel_change_inv [OF i0 ep(1)] c]) (simp_all add: Channel_set_priority_def)
  then have i1: "ep_inv (set_channel ?ep1 1 (Channel_new wakeup_fd))"
    by (rule create_inv) (use assms h in \<open>auto simp: Channel_set_priority_def ran_def split: if_splits\<close>)
  show ?thesis using Channel_change_inv [OF i1 ep(2)] ep(3-6) by (simp add: reactor_inv_def)
qed

lemma reactor_reachable_inv: "reactor_reachable rx \<Longrightarrow> reactor_inv rx"
proof (induction rule: reactor_reachable.induct)
  case (rx_init loops tid loop timer_fd wakeup_fd loops' rx)
  then show ?case by (rule EventLoop_create_inv)
qed (rule reactor_step_inv)

subsection \<open>Properties\<close>


text \<open>The check of \<open>RemoveChannel\<close> is what keeps the round safe: a channel that is still to come cannot be removed, nor one that has been.\<close>

lemma Remove_active_fails:
  "rx_pc rx = R_Callback p \<Longrightarrow> reactor_inv rx \<Longrightarrow> q \<noteq> p \<Longrightarrow> q \<in> set (rx_active rx) \<Longrightarrow> \<exists>e. Channel_Remove rx tid q = Inl e"
  by (auto simp: reactor_inv_def Channel_Remove_def EventLoop_RemoveChannel_def with_channel_def AssertInLoopThread_def DCHECK_def
      split: option.splits)

lemma Destroy_current_fails:
  "rx_pc rx = R_Callback p \<Longrightarrow> reactor_inv rx \<Longrightarrow> Channel_destroy rx p = Inl Check_Failed"
  by (auto simp: reactor_inv_def Channel_destroy_def with_channel_def handling_def)

lemma One_loop_per_thread: "EventLoop_register loops tid loop = Inr loops' \<Longrightarrow> EventLoop_register loops' tid other = Inl Aborted"
  by (auto simp: EventLoop_register_def split: if_splits)

text \<open>A loop whose eventfd is reported: its channel is dispatched.\<close>

lemma demo_reactor:
  "\<exists>loops rx ep. EventLoop_create Map.empty 7 1 5 6 = Inr (loops, rx) \<and> rx_pc rx = R_Outside \<and>
     EPollPoller_poll (rx_poller rx) (Wait_Events [(6, POLLIN)]) = Inr ([1], ep)"
  by (simp add: EventLoop_create_def Let_def Channel_create_def Channel_Update_def EventLoop_UpdateChannel_def with_channel_def set_channel_def
      AssertInLoopThread_def EPollPoller_UpdateChannel_def EPollPoller_new_def Channel_new_def Channel_set_priority_def context_defs fd_index_def
      vec_set_def vec_get_def EPollPoller_Update_def EventLoop_register_def EPollPoller_poll_def)


end
