(* ===== verification/Readers.thy ===== *)
theory Readers
  imports Strings
begin

text \<open>
  The byte readers of the DWARF parser (the anonymous namespace of \<^verbatim>\<open>symbolizer/Dwarf.cc\<close>).

  All pieces of an object file point into one block of memory, the mapped file; every reader returns the
  value and the piece it leaves. A reader moves its piece with \<open>StringPiece::advance\<close>, which keeps
  \<open>length_\<close>: the number of bytes a piece claims to have never shrinks, and a read past the block is
  the failure \<open>Out_Of_Bounds\<close>. Unsigned 64-bit values are naturals below \<open>2^64\<close>; a shift by 64 or more,
  which C++ leaves undefined, is the failure \<open>Undefined_Shift\<close>. The host is little-endian, as x86-64.
\<close>

unbundle bit_operations_syntax

definition u64 :: "nat \<Rightarrow> nat" where "u64 x = x mod 2 ^ 64"

subsection \<open>Fixed-width values\<close>

fun le_value :: "string \<Rightarrow> nat" where
  "le_value [] = 0"
| "le_value (c # cs) = of_char c + 256 * le_value cs"

definition Read :: "nat \<Rightarrow> string_piece \<Rightarrow> (nat \<times> string_piece) result" where
  "Read n s =
     CHECK (n \<le> sp_len s)
       (bindR (read_block s 0 n) (\<lambda>bs. bindR (StringPiece_advance s n) (\<lambda>s'. Inr (le_value bs, s'))))"

definition ReadOffset :: "string_piece \<Rightarrow> bool \<Rightarrow> (nat \<times> string_piece) result" where
  "ReadOffset s is_64_bits = (if is_64_bits then Read 8 s else Read 4 s)"

subsection \<open>Variable-length integers\<close>

function ReadULEB_loop :: "string_piece \<Rightarrow> nat \<Rightarrow> nat \<Rightarrow> (nat \<times> nat \<times> nat \<times> string_piece) result" where
  "ReadULEB_loop s r shift =
     bindR (Read 1 s) (\<lambda>(val, s').
       if 64 \<le> shift then Inl Undefined_Shift
       else let r' = r OR u64 (push_bit shift (val AND 0x7f)); shift' = (shift + 7) mod 256
            in if val AND 0x80 \<noteq> 0 then ReadULEB_loop s' r' shift' else Inr (r', shift', val, s'))"
  by pat_completeness auto
termination
  by (relation "measure (\<lambda>(s, r, shift). 71 - shift)") auto

declare ReadULEB_loop.simps [simp del]

definition ReadULEB :: "string_piece \<Rightarrow> (nat \<times> string_piece) result" where
  "ReadULEB s = bindR (ReadULEB_loop s 0 0) (\<lambda>(r, shift, val, s'). Inr (r, s'))"

text \<open>The \<open>int64_t\<close> of \<open>ReadSLEB\<close> is given by its 64 bits, as every caller adds it to an unsigned register.\<close>

definition ReadSLEB :: "string_piece \<Rightarrow> (nat \<times> string_piece) result" where
  "ReadSLEB s =
     bindR (ReadULEB_loop s 0 0) (\<lambda>(r, shift, val, s').
       Inr (if shift < 64 \<and> val AND 0x40 \<noteq> 0 then r OR (2 ^ 64 - 2 ^ shift) else r, s'))"

subsection \<open>Byte strings\<close>

definition StringPiece_assign :: "string_piece \<Rightarrow> nat \<Rightarrow> nat \<Rightarrow> string_piece" where
  "StringPiece_assign s start stop = s\<lparr>sp_ptr := start, sp_len := size_sub stop start\<rparr>"

definition ReadBytes :: "string_piece \<Rightarrow> nat \<Rightarrow> (string_piece \<times> string_piece) result" where
  "ReadBytes s len =
     CHECK (sp_len s \<le> len)
       (bindR (StringPiece_advance s len) (\<lambda>s'. Inr (s\<lparr>sp_len := len\<rparr>, s')))"

definition ReadNullTerminated :: "string_piece \<Rightarrow> (string_piece \<times> string_piece) result" where
  "ReadNullTerminated s =
     (let bytes = take (sp_len s) (drop (sp_ptr s) (sp_mem s)); i = std_find bytes (CHR 0x00)
      in if i < length bytes
         then Inr (s\<lparr>sp_len := i\<rparr>, StringPiece_assign s (sp_ptr s + i + 1) (sp_ptr s + sp_len s))
         else if length bytes < sp_len s then Inl Out_Of_Bounds else Inl Check_Failed)"

definition SkipPadding :: "string_piece \<Rightarrow> nat \<Rightarrow> nat \<Rightarrow> string_piece result" where
  "SkipPadding s start alignment =
     (let remainder = size_sub (sp_ptr s) start mod alignment
      in if remainder \<noteq> 0
         then CHECK (alignment - remainder \<le> sp_len s) (StringPiece_advance s (alignment - remainder))
         else Inr s)"

subsection \<open>Every reader moves forward inside the block\<close>

definition forward :: "string_piece \<Rightarrow> string_piece \<Rightarrow> bool" where
  "forward s s' \<longleftrightarrow> sp_mem s' = sp_mem s \<and> sp_ptr s < sp_ptr s' \<and> sp_ptr s' \<le> length (sp_mem s)"

named_theorems forward_reads "a reader that succeeds moves its piece forward"

lemma forward_trans [trans]: "forward s s' \<Longrightarrow> forward s' s'' \<Longrightarrow> forward s s''"
  by (auto simp: forward_def)

lemma forward_measure: "forward s s' \<Longrightarrow> length (sp_mem s') - sp_ptr s' < length (sp_mem s) - sp_ptr s"
  by (auto simp: forward_def)

lemma Read_Inr:
  "Read n s = Inr (v, s') \<longleftrightarrow> n < sp_len s \<and> sp_ptr s + n \<le> length (sp_mem s) \<and>
     v = le_value (take n (drop (sp_ptr s) (sp_mem s))) \<and> s' = s\<lparr>sp_ptr := sp_ptr s + n\<rparr>"
  by (auto simp: Read_def read_block_def StringPiece_advance_def)

lemma Read_forward [forward_reads]: "Read n s = Inr (v, s') \<Longrightarrow> 0 < n \<Longrightarrow> forward s s'"
  by (auto simp: Read_Inr forward_def)

lemma Read_numeral_forward [forward_reads]: "Read (numeral k) s = Inr (v, s') \<Longrightarrow> forward s s'"
  by (erule Read_forward) (rule zero_less_numeral)

lemma ReadOffset_forward [forward_reads]: "ReadOffset s b = Inr (v, s') \<Longrightarrow> forward s s'"
  by (auto simp: ReadOffset_def intro: forward_reads split: if_splits)

lemma ReadULEB_loop_forward [forward_reads]: "ReadULEB_loop s r shift = Inr (v, sh, val, s') \<Longrightarrow> forward s s'"
proof (induction s r shift rule: ReadULEB_loop.induct)
  case (1 s r shift)
  then obtain b s1 where b: "Read 1 s = Inr (b, s1)"
    by (auto simp: ReadULEB_loop.simps [of s])
  then have f: "forward s s1" by (rule Read_forward) simp
  define r' shift' where "r' = r OR u64 (push_bit shift (b AND 0x7f))" and "shift' = (shift + 7) mod 256"
  have l: "\<not> 64 \<le> shift" "if b AND 0x80 \<noteq> 0 then ReadULEB_loop s1 r' shift' = Inr (v, sh, val, s') else s1 = s'"
    using 1(2) b by (auto simp: ReadULEB_loop.simps [of s] Let_def r'_def shift'_def split: if_splits)
  show ?case
  proof (cases "b AND 0x80 \<noteq> 0")
    case True
    with l have "ReadULEB_loop s1 r' shift' = Inr (v, sh, val, s')" by simp
    from forward_trans [OF f 1(1) [OF b refl _ _ _ _ this]] show ?thesis using l True by (simp add: r'_def shift'_def)
  qed (use l f in simp)
qed

lemma ReadULEB_forward [forward_reads]: "ReadULEB s = Inr (v, s') \<Longrightarrow> forward s s'"
  by (auto simp: ReadULEB_def intro: forward_reads)

lemma ReadSLEB_forward [forward_reads]: "ReadSLEB s = Inr (v, s') \<Longrightarrow> forward s s'"
  by (auto simp: ReadSLEB_def intro: forward_reads)

lemma std_find_le: "std_find xs c \<le> length xs"
  by (induction xs) auto

lemma ReadNullTerminated_forward [forward_reads]: "ReadNullTerminated s = Inr (t, s') \<Longrightarrow> forward s s'"
  by (auto simp: ReadNullTerminated_def Let_def StringPiece_assign_def forward_def split: if_splits)

subsection \<open>Reading text that is there\<close>

definition moved :: "string_piece \<Rightarrow> nat \<Rightarrow> string_piece" where
  "moved s n = s\<lparr>sp_ptr := sp_ptr s + n\<rparr>"

definition text_at :: "string_piece \<Rightarrow> string \<Rightarrow> bool" where
  "text_at s bs \<longleftrightarrow> take (length bs) (drop (sp_ptr s) (sp_mem s)) = bs"

lemma moved_simps [simp]:
  "sp_mem (moved s n) = sp_mem s" "sp_ptr (moved s n) = sp_ptr s + n" "sp_len (moved s n) = sp_len s"
  "moved s 0 = s" "moved (moved s n) k = moved s (n + k)"
  by (simp_all add: moved_def)

lemma text_at_append [simp]: "text_at s (a @ b) \<longleftrightarrow> text_at s a \<and> text_at (moved s (length a)) b"
proof -
  have "take (length (a @ b)) (drop (sp_ptr s) (sp_mem s)) =
      take (length a) (drop (sp_ptr s) (sp_mem s)) @ take (length b) (drop (sp_ptr s + length a) (sp_mem s))"
    by (simp add: take_add add.commute)
  moreover have "take (length a) (drop (sp_ptr s) (sp_mem s)) @ take (length b) (drop (sp_ptr s + length a) (sp_mem s)) = a @ b \<longleftrightarrow>
      take (length a) (drop (sp_ptr s) (sp_mem s)) = a \<and> take (length b) (drop (sp_ptr s + length a) (sp_mem s)) = b"
  proof (cases "length a \<le> length (sp_mem s) - sp_ptr s")
    case False
    then have "length (take (length a) (drop (sp_ptr s) (sp_mem s))) < length a"
      "take (length b) (drop (sp_ptr s + length a) (sp_mem s)) = []" by auto
    then show ?thesis by (auto dest: arg_cong [of _ _ length])
  qed auto
  ultimately show ?thesis by (simp add: text_at_def)
qed

lemma text_at_Nil [simp]: "text_at s []"
  by (simp add: text_at_def)

lemma text_at_Cons: "text_at s (c # cs) \<longleftrightarrow> text_at s [c] \<and> text_at (moved s 1) cs"
  using text_at_append [of s "[c]" cs] by simp

lemma text_at_block: "text_at s bs \<Longrightarrow> bs \<noteq> [] \<Longrightarrow> sp_ptr s + length bs \<le> length (sp_mem s)"
proof -
  assume t: "text_at s bs" "bs \<noteq> []"
  have "length (take (length bs) (drop (sp_ptr s) (sp_mem s))) = length bs" using t(1) by (simp only: text_at_def)
  moreover have "0 < length bs" using t(2) by simp
  ultimately show ?thesis unfolding length_take length_drop by linarith
qed

lemma Read_text:
  assumes "text_at s bs" "bs \<noteq> []" "length bs < sp_len s" "n = length bs"
  shows "Read n s = Inr (le_value bs, moved s n)"
  using assms text_at_block [OF assms(1,2)] by (simp add: Read_Inr text_at_def moved_def)

lemma Read_byte: "text_at s [c] \<Longrightarrow> 1 < sp_len s \<Longrightarrow> Read 1 s = Inr (of_char c, moved s 1)"
  using Read_text [of s "[c]" 1] by simp

fun le_bytes :: "nat \<Rightarrow> nat \<Rightarrow> string" where
  "le_bytes 0 v = []"
| "le_bytes (Suc n) v = char_of (v mod 256) # le_bytes n (v div 256)"

lemma length_le_bytes [simp]: "length (le_bytes n v) = n"
  by (induction n arbitrary: v) auto

lemma le_value_le_bytes [simp]: "le_value (le_bytes n v) = v mod 256 ^ n"
  by (induction n arbitrary: v) (auto simp: of_char_of mod_mult2_eq)

lemma Read_le_bytes:
  "text_at s (le_bytes n v) \<Longrightarrow> 0 < n \<Longrightarrow> n < sp_len s \<Longrightarrow> v < 256 ^ n \<Longrightarrow> Read n s = Inr (v, moved s n)"
  using Read_text [of s "le_bytes n v" n] by (metis le_value_le_bytes length_0_conv length_le_bytes less_irrefl mod_less)

subsection \<open>The encodings of the DWARF standard and their round trips\<close>

fun uleb :: "nat \<Rightarrow> string" where
  "uleb n = (if n < 128 then [char_of n] else char_of (128 + n mod 128) # uleb (n div 128))"

declare uleb.simps [simp del]

function sleb :: "int \<Rightarrow> string" where
  "sleb v = (if - 64 \<le> v \<and> v < 64 then [char_of (nat (v mod 128))] else char_of (128 + nat (v mod 128)) # sleb (v div 128))"
  by pat_completeness auto
termination
  by (relation "measure (\<lambda>v. nat \<bar>v\<bar>)") auto

declare sleb.simps [simp del]

lemma or_push_bit: "(r :: nat) < 2 ^ shift \<Longrightarrow> r OR push_bit shift m = r + 2 ^ shift * m"
proof -
  assume r: "r < 2 ^ shift"
  have "r AND push_bit shift m = 0"
  proof (rule bit_eqI)
    fix n
    have "\<not> bit r n" if "shift \<le> n"
      using r that by (metis bit_take_bit_iff leD take_bit_nat_eq_self)
    then show "bit (r AND push_bit shift m) n = bit 0 n" by (auto simp: bit_simps)
  qed
  then show ?thesis by (simp add: disjunctive_add_eq_or [symmetric] push_bit_eq_mult mult.commute)
qed

lemma u64_take_bit: "u64 x = take_bit 64 x"
  by (simp add: u64_def take_bit_eq_mod)

lemma or_shifted:
  assumes "(r :: nat) < 2 ^ shift" "shift < 64"
  shows "r OR u64 (push_bit shift m) = u64 (r + 2 ^ shift * m)"
proof -
  have "u64 (push_bit shift m) = push_bit shift (take_bit (64 - shift) m)"
    using assms(2) by (simp add: u64_take_bit push_bit_take_bit)
  then have "r OR u64 (push_bit shift m) = r + 2 ^ shift * take_bit (64 - shift) m"
    using or_push_bit [OF assms(1)] by simp
  moreover have "take_bit 64 (r OR push_bit shift m) = take_bit 64 r OR take_bit 64 (push_bit shift m)" by simp
  moreover have "take_bit 64 r = r"
    using assms by (meson dual_order.strict_trans1 less_imp_le_nat power_increasing_iff take_bit_nat_eq_self one_less_numeral_iff semiring_norm(76))
  ultimately show ?thesis
    using or_push_bit [OF assms(1), of m] by (simp add: u64_take_bit)
qed

lemma byte_masks: "b < 128 \<Longrightarrow> (128 + b) AND 0x80 \<noteq> 0 \<and> (128 + b) AND 0x7f = b \<and> b AND 0x80 = 0 \<and> b AND 0x7f = (b :: nat)"
proof -
  assume b: "b < 128"
  have m: "x AND 0x7f = x mod 128" for x :: nat using take_bit_eq_mask [of 7 x] by (simp add: take_bit_eq_mod mask_eq_exp_minus_1)
  have "x AND 0x80 = 0 \<longleftrightarrow> even (x div 128)" for x :: nat
    using and_exp_eq_0_iff_not_bit [of x 7] by (simp add: bit_iff_odd)
  moreover have "(128 + b) div 128 = 1" using b div_add_self1 [of 128 b] by simp
  ultimately show ?thesis using m b by simp
qed

lemma ReadULEB_loop_byte:
  assumes "text_at s [char_of b]" "b < 256" "1 < sp_len s" "shift < 64" "r < 2 ^ shift"
  shows "ReadULEB_loop s r shift =
    (let r' = u64 (r + 2 ^ shift * (b AND 0x7f))
     in if b AND 0x80 \<noteq> 0 then ReadULEB_loop (moved s 1) r' (shift + 7) else Inr (r', shift + 7, b, moved s 1))"
proof -
  have "Read 1 s = Inr (b, moved s 1)" using Read_byte [OF assms(1,3)] assms(2) by (simp add: of_char_of)
  then show ?thesis using assms(4,5) by (simp add: ReadULEB_loop.simps [of s] or_shifted Let_def del: push_bit_and)
qed

lemma shifted_digit_less:
  assumes "(r :: nat) < 2 ^ shift" "b < 128"
  shows "r + 2 ^ shift * b < 2 ^ (shift + 7)"
proof -
  have "r + 2 ^ shift * b < 2 ^ shift * Suc b" using assms(1) by simp
  also have "\<dots> \<le> 2 ^ shift * 128" using assms(2) by (intro mult_le_mono2) simp
  finally show ?thesis by (simp add: power_add)
qed

lemma u64_le: "u64 x \<le> x"
  by (simp add: u64_def)

lemma ReadULEB_loop_uleb:
  assumes "text_at s (uleb n)" "1 < sp_len s" "shift < 64" "r < 2 ^ shift" "r + 2 ^ shift * n < 2 ^ 64"
  shows "\<exists>val. ReadULEB_loop s r shift = Inr (r + 2 ^ shift * n, shift + 7 * length (uleb n), val, moved s (length (uleb n)))"
  using assms
proof (induction n arbitrary: s r shift rule: uleb.induct)
  case (1 n)
  show ?case
  proof (cases "n < 128")
    case True
    then have "uleb n = [char_of n]" by (simp add: uleb.simps [of n])
    then show ?thesis using 1 True ReadULEB_loop_byte [of s n shift r] byte_masks [OF True] by (simp add: Let_def u64_def)
  next
    case False
    define b where "b = n mod 128"
    have b: "b < 128" "n = b + 128 * (n div 128)" by (simp_all add: b_def)
    have u: "uleb n = char_of (128 + b) # uleb (n div 128)" using False by (simp add: uleb.simps [of n] b_def)
    define r' where "r' = r + 2 ^ shift * b"
    have total: "r + 2 ^ shift * n = r' + 2 ^ (shift + 7) * (n div 128)"
      by (subst b(2)) (simp add: r'_def algebra_simps power_add)
    have "r' < 2 ^ (shift + 7)" unfolding r'_def by (rule shifted_digit_less) (use 1 b in auto)
    moreover have "shift + 7 < 64"
    proof (rule ccontr)
      assume "\<not> shift + 7 < 64"
      then have "(2 :: nat) ^ 64 \<le> 2 ^ (shift + 7)" by (intro power_increasing) auto
      moreover have "2 ^ (shift + 7) * 1 \<le> (2 :: nat) ^ (shift + 7) * (n div 128)" using False by (intro mult_le_mono2) auto
      ultimately show False using 1(6) total by linarith
    qed
    moreover have "r' < 2 ^ 64" using 1(6) total by simp
    moreover have at: "text_at s [char_of (128 + b)]" "text_at (moved s 1) (uleb (n div 128))"
      using 1(2) text_at_Cons [of s "char_of (128 + b)" "uleb (n div 128)"] by (simp_all add: u)
    ultimately obtain val where
      "ReadULEB_loop (moved s 1) r' (shift + 7) = Inr (r' + 2 ^ (shift + 7) * (n div 128), shift + 7 + 7 * length (uleb (n div 128)), val, moved (moved s 1) (length (uleb (n div 128))))"
      using 1(1) [OF False, of "moved s 1" "shift + 7" r'] 1(3,6) total by auto
    moreover have "ReadULEB_loop s r shift = ReadULEB_loop (moved s 1) r' (shift + 7)"
      using ReadULEB_loop_byte [OF at(1), of shift r] byte_masks [OF b(1)] b(1) 1 \<open>r' < 2 ^ 64\<close>
      by (simp add: Let_def r'_def u64_def)
    ultimately show ?thesis by (simp add: u total)
  qed
qed

lemma ReadULEB_uleb:
  assumes "text_at s (uleb n)" "1 < sp_len s" "n < 2 ^ 64"
  shows "ReadULEB s = Inr (n, moved s (length (uleb n)))"
  using ReadULEB_loop_uleb [OF assms(1,2), of 0 0] assms(3) by (auto simp: ReadULEB_def)

lemma div_digits: "1 \<le> k \<Longrightarrow> (v :: int) div 2 ^ (7 * k) = v div 128 div 2 ^ (7 * (k - 1))"
proof -
  assume "1 \<le> k"
  then have "(2 :: int) ^ (7 * k) = 128 * 2 ^ (7 * (k - 1))" by (cases k) (auto simp: power_add)
  then show ?thesis by (simp add: zdiv_zmult2_eq)
qed

lemma sleb_nonempty: "1 \<le> length (sleb v)"
  by (simp add: sleb.simps [of v])

lemma ReadULEB_loop_sleb:
  assumes "text_at s (sleb v)" "1 < sp_len s" "shift < 64" "r < 2 ^ shift" "7 * length (sleb v) + shift \<le> 70"
  shows "ReadULEB_loop s r shift =
    Inr (u64 (r + 2 ^ shift * nat (v mod 2 ^ (7 * length (sleb v)))), shift + 7 * length (sleb v),
         nat (v div 2 ^ (7 * (length (sleb v) - 1)) mod 128) + 0, moved s (length (sleb v)))"
  using assms
proof (induction v arbitrary: s r shift rule: sleb.induct)
  case (1 v)
  define b where "b = nat (v mod 128)"
  have b: "b < 128" "v = int b + 128 * (v div 128)" "int b = v mod 128" by (auto simp: b_def)
  show ?case
  proof (cases "- 64 \<le> v \<and> v < 64")
    case True
    then have "sleb v = [char_of b]" by (simp add: sleb.simps [of v] b_def)
    then show ?thesis using 1 ReadULEB_loop_byte [of s b shift r] byte_masks [OF b(1)] b(1) by (simp add: Let_def flip: b_def)
  next
    case False
    have u: "sleb v = char_of (128 + b) # sleb (v div 128)" using False by (simp add: sleb.simps [of v] b_def)
    define k where "k = length (sleb (v div 128))"
    have k: "1 \<le> k" unfolding k_def by (rule sleb_nonempty)
    have sh: "shift + 7 < 64" "7 * k + (shift + 7) \<le> 70" using 1(6) k by (auto simp: u k_def)
    define r' where "r' = r + 2 ^ shift * b"
    have r': "r' < 2 ^ (shift + 7)" unfolding r'_def by (rule shifted_digit_less) (use 1 b in auto)
    moreover have "(2 :: nat) ^ (shift + 7) \<le> 2 ^ 64" using sh(1) by (intro power_increasing) auto
    ultimately have "u64 r' = r'" by (simp add: u64_def)
    have at: "text_at s [char_of (128 + b)]" "text_at (moved s 1) (sleb (v div 128))"
      using 1(2) text_at_Cons [of s "char_of (128 + b)" "sleb (v div 128)"] by (simp_all add: u)
    have "ReadULEB_loop s r shift = ReadULEB_loop (moved s 1) r' (shift + 7)"
      using ReadULEB_loop_byte [OF at(1), of shift r] byte_masks [OF b(1)] b(1) 1 \<open>u64 r' = r'\<close>
      by (simp add: Let_def r'_def)
    also have "\<dots> = Inr (u64 (r' + 2 ^ (shift + 7) * nat (v div 128 mod 2 ^ (7 * k))), shift + 7 + 7 * k,
         nat (v div 128 div 2 ^ (7 * (k - 1)) mod 128) + 0, moved (moved s 1) k)"
      using 1(1) [OF False at(2), of "shift + 7" r'] 1(3) sh r' by (simp add: k_def)
    finally have step: "ReadULEB_loop s r shift = Inr (u64 (r' + 2 ^ (shift + 7) * nat (v div 128 mod 2 ^ (7 * k))), shift + 7 + 7 * k,
         nat (v div 128 div 2 ^ (7 * (k - 1)) mod 128) + 0, moved (moved s 1) k)" .
    have "v mod 2 ^ (7 * Suc k) = int b + 128 * (v div 128 mod 2 ^ (7 * k))"
      using zmod_zmult2_eq [of "2 ^ (7 * k)" v 128] by (simp add: b(3) power_add)
    then have "nat (v mod 2 ^ (7 * Suc k)) = b + 128 * nat (v div 128 mod 2 ^ (7 * k))" by (simp add: nat_add_distrib nat_mult_distrib)
    then have tot: "r + 2 ^ shift * nat (v mod 2 ^ (7 * Suc k)) = r' + 2 ^ (shift + 7) * nat (v div 128 mod 2 ^ (7 * k))"
      by (simp add: r'_def algebra_simps power_add)
    with step div_digits [OF k, of v] show ?thesis by (simp add: u k_def [symmetric] add.assoc)
  qed
qed

lemma sleb_top: "- 64 \<le> v div 2 ^ (7 * (length (sleb v) - 1)) \<and> v div 2 ^ (7 * (length (sleb v) - 1)) < 64"
proof (induction v rule: sleb.induct)
  case (1 v)
  show ?case
  proof (cases "- 64 \<le> v \<and> v < 64")
    case False
    define k where "k = length (sleb (v div 128))"
    have "v div 2 ^ (7 * k) = v div 128 div 2 ^ (7 * (k - 1))" unfolding k_def by (rule div_digits [OF sleb_nonempty])
    moreover have "sleb v = char_of (128 + nat (v mod 128)) # sleb (v div 128)" using False by (simp add: sleb.simps [of v])
    ultimately show ?thesis using 1 [OF False] by (simp add: k_def)
  qed (simp add: sleb.simps [of v])
qed

lemma sleb_length:
  assumes "- (64 * 128 ^ k) \<le> v" "v < 64 * 128 ^ k"
  shows "length (sleb v) \<le> Suc k"
  using assms
proof (induction k arbitrary: v)
  case 0
  then show ?case by (simp add: sleb.simps [of v])
next
  case (Suc k)
  have "- (64 * 128 ^ k) \<le> v div 128" "v div 128 < 64 * 128 ^ k"
    using Suc.prems by auto
  from Suc.IH [OF this] show ?case by (simp add: sleb.simps [of v])
qed

lemma ReadSLEB_sleb:
  assumes "text_at s (sleb v)" "1 < sp_len s" "is_i64 v"
  shows "ReadSLEB s = Inr (nat (v mod 2 ^ 64), moved s (length (sleb v)))"
proof -
  define k where "k = length (sleb v)"
  define w where "w = v div 2 ^ (7 * (k - 1))"
  have "k \<le> 10" using sleb_length [of 9 v] assms(3) by (simp add: k_def is_i64_def)
  then have loop: "ReadULEB_loop s 0 0 = Inr (u64 (nat (v mod 2 ^ (7 * k))), 7 * k, nat (w mod 128), moved s k)"
    using ReadULEB_loop_sleb [OF assms(1,2), of 0 0] by (simp add: k_def w_def)
  have "1 \<le> k" unfolding k_def by (rule sleb_nonempty)
  have w: "- 64 \<le> w" "w < 64" using sleb_top [of v] by (simp_all add: k_def w_def)
  have range: "- (2 ^ (7 * k)) \<le> v" "v < 2 ^ (7 * k)"
  proof -
    define P where "P = (2 :: int) ^ (7 * (k - 1))"
    have "v = P * w + v mod P" "0 \<le> v mod P" "v mod P < P" "0 < P" by (simp_all add: P_def w_def)
    moreover have "P * - 64 \<le> P * w" "P * w \<le> P * 63" using w \<open>0 < P\<close> by (intro mult_left_mono; simp)+
    moreover have "(2 :: int) ^ (7 * k) = 128 * P" unfolding P_def using \<open>1 \<le> k\<close> by (cases k) (auto simp: power_add)
    ultimately show "- (2 ^ (7 * k)) \<le> v" "v < 2 ^ (7 * k)" by linarith+
  qed
  have "w < 0 \<longleftrightarrow> v < 0" by (simp add: w_def pos_imp_zdiv_neg_iff)
  have sgn: "nat (w mod 128) AND 0x40 \<noteq> 0 \<longleftrightarrow> v < 0"
  proof -
    have "nat (w mod 128) AND 2 ^ 6 = 0 \<longleftrightarrow> even (nat (w mod 128) div 64)"
      using and_exp_eq_0_iff_not_bit [of "nat (w mod 128)" 6] by (simp add: bit_iff_odd)
    moreover have "nat (w mod 128) div 64 = (if w < 0 then 1 else 0)"
    proof (cases "w < 0")
      case True
      then have "w mod 128 = w + 128" using w mod_pos_pos_trivial [of "w + 128" 128] by simp
      then show ?thesis using True w by auto
    qed (use w in auto)
    ultimately show ?thesis using \<open>w < 0 \<longleftrightarrow> v < 0\<close> by simp
  qed
  show ?thesis
  proof (cases "7 * k < 64 \<and> v < 0")
    case True
    have "(2 :: int) ^ (7 * k) \<le> 2 ^ 64" using True by (intro power_increasing) auto
    then have m: "v mod 2 ^ (7 * k) = v + 2 ^ (7 * k)" "v mod 2 ^ 64 = v + 2 ^ 64"
      using range True mod_pos_pos_trivial [of "v + 2 ^ (7 * k)" "2 ^ (7 * k)"] mod_pos_pos_trivial [of "v + 2 ^ 64" "2 ^ 64"]
      by simp_all
    have le: "(2 :: nat) ^ (7 * k) \<le> 2 ^ 64" using True by (intro power_increasing) auto
    define r where "r = nat (v + 2 ^ (7 * k))"
    have r: "int r = v + 2 ^ (7 * k)" "r < 2 ^ (7 * k)" using range True by (auto simp: r_def nat_less_iff)
    have split: "(2 :: nat) ^ 64 = 2 ^ (7 * k) * 2 ^ (64 - 7 * k)" using True by (simp flip: power_add)
    then have "(2 :: nat) ^ 64 - 2 ^ (7 * k) = push_bit (7 * k) (2 ^ (64 - 7 * k) - 1)"
      by (simp only: split push_bit_eq_mult diff_mult_distrib mult_1 mult.commute [of "2 ^ (7 * k)" "2 ^ (64 - 7 * k)"])
    then have "r OR (2 ^ 64 - 2 ^ (7 * k)) = r + (2 ^ 64 - 2 ^ (7 * k))"
      by (simp only: or_push_bit [OF r(2)]) (simp only: push_bit_eq_mult mult.commute)
    also have "\<dots> = nat (v + 2 ^ 64)"
    proof -
      have "int (r + (2 ^ 64 - 2 ^ (7 * k))) = v + 2 ^ 64" using r(1) le by (simp add: of_nat_diff)
      then show ?thesis by (metis nat_int)
    qed
    finally have "r OR (2 ^ 64 - 2 ^ (7 * k)) = nat (v mod 2 ^ 64)" using m by simp
    moreover have "u64 r = r" using less_le_trans [OF r(2) le] by (simp add: u64_def)
    ultimately show ?thesis using loop sgn True by (simp add: ReadSLEB_def m r_def [symmetric] k_def [symmetric])
  next
    case False
    have "u64 (nat (v mod 2 ^ (7 * k))) = nat (v mod 2 ^ 64)"
    proof (cases "64 \<le> 7 * k")
      case True
      then have "(2 :: int) ^ 64 dvd 2 ^ (7 * k)" by (rule le_imp_power_dvd)
      then have "v mod 2 ^ (7 * k) mod 2 ^ 64 = v mod 2 ^ 64" by (rule mod_mod_cancel)
      moreover have "nat (v mod 2 ^ (7 * k) mod 2 ^ 64) = nat (v mod 2 ^ (7 * k)) mod 2 ^ 64"
        by (subst nat_mod_distrib) simp_all
      ultimately show ?thesis by (simp only: u64_def)
    next
      case small: False
      then have "v mod 2 ^ (7 * k) = v" using False range by simp
      then show ?thesis using small False assms(3) by (simp add: u64_def is_i64_def nat_mod_distrib)
    qed
    then show ?thesis using loop sgn False by (auto simp: ReadSLEB_def k_def [symmetric])
  qed
qed

text \<open>
  C30: wherever the standard's encoding of an integer lies in the file, the variable-length readers
  give the integer back and stop right behind it: every \<open>uint64_t\<close> with \<open>ReadULEB\<close>, and with \<open>ReadSLEB\<close>
  every \<open>int64_t\<close> as its 64 bits, the least one (ten bytes, whose last shift passes bit 63) included.
\<close>
theorem LEB_roundtrip:
  assumes "1 < sp_len s"
  shows "(text_at s (uleb n) \<and> n < 2 ^ 64 \<longrightarrow> ReadULEB s = Inr (n, moved s (length (uleb n)))) \<and>
    (text_at s (sleb v) \<and> is_i64 v \<longrightarrow> ReadSLEB s = Inr (nat (v mod 2 ^ 64), moved s (length (sleb v))))"
  using ReadULEB_uleb [OF _ assms] ReadSLEB_sleb [OF _ assms] by blast

lemma LEB_roundtrip_witness:
  "ReadULEB (StringPiece_of_string (uleb 624485)) = Inr (624485, moved (StringPiece_of_string (uleb 624485)) 3) \<and>
   ReadSLEB (StringPiece_of_string (sleb (-123456))) = Inr (2 ^ 64 - 123456, moved (StringPiece_of_string (sleb (-123456))) 3)"
proof -
  have l: "length (uleb 624485) = 3" "length (sleb (-123456)) = 3" by (simp_all add: uleb.simps sleb.simps)
  then have "ReadULEB (StringPiece_of_string (uleb 624485)) = Inr (624485, moved (StringPiece_of_string (uleb 624485)) 3)"
    using LEB_roundtrip [of "StringPiece_of_string (uleb 624485)" 624485 0]
    by (simp add: StringPiece_of_string_def text_at_def)
  moreover have "ReadSLEB (StringPiece_of_string (sleb (-123456))) = Inr (2 ^ 64 - 123456, moved (StringPiece_of_string (sleb (-123456))) 3)"
    using l LEB_roundtrip [of "StringPiece_of_string (sleb (-123456))" 0 "-123456"]
    by (simp add: StringPiece_of_string_def text_at_def is_i64_def)
  ultimately show ?thesis ..
qed

lemma ReadNullTerminated_text:
  assumes "text_at s (t @ [CHR 0x00])" "CHR 0x00 \<notin> set t" "length t < sp_len s"
  shows "ReadNullTerminated s = Inr (s\<lparr>sp_len := length t\<rparr>, s\<lparr>sp_ptr := sp_ptr s + length t + 1, sp_len := sp_len s - length t - 1\<rparr>)"
proof -
  obtain rest where rest: "drop (sp_ptr s) (sp_mem s) = (t @ [CHR 0x00]) @ rest"
    using assms(1) unfolding text_at_def by (metis append_take_drop_id)
  then obtain more where "take (sp_len s) (drop (sp_ptr s) (sp_mem s)) = t @ [CHR 0x00] @ more"
    using assms(3) by (cases "sp_len s - length t") auto
  moreover have "std_find (t @ [CHR 0x00] @ more) (CHR 0x00) = length t" using assms(2) by (induction t) auto
  ultimately show ?thesis using assms(3) by (simp add: ReadNullTerminated_def StringPiece_assign_def Let_def)
qed

lemma text_at_view: "text_at s t \<Longrightarrow> view (s\<lparr>sp_len := length t\<rparr>) = t"
  by (simp add: text_at_def view_def)

text \<open>
  \<open>ReadBytes\<close> has its check the wrong way round, and behind it \<open>advance\<close> asserts the opposite, so no block
  can be read.
\<close>

lemma ReadBytes_never_succeeds: "ReadBytes s len = Inl Check_Failed"
  by (auto simp: ReadBytes_def StringPiece_advance_def CHECK_def)

end
