(* ===== verification/Paths.thy ===== *)
theory Paths
  imports Readers
begin

text \<open>
  \<open>Dwarf::Path\<close> of \<^verbatim>\<open>symbolizer/Dwarf.h,.cc\<close>: a path kept as three pieces so that no heap is needed, its
  normalisation, and its two renderings. The buffer of \<open>ToBuffer\<close> is the text written so far
  with the room that is left.
\<close>

record path =
  base_dir :: string_piece
  sub_dir :: string_piece
  file_piece :: string_piece

fun skip_leading :: "string_piece \<Rightarrow> nat \<Rightarrow> nat \<Rightarrow> nat result" where
  "skip_leading s p 0 = Inr p"
| "skip_leading s p (Suc n) =
     bindR (read_char s p) (\<lambda>c. if c = CHR ''/'' then skip_leading s (p + 1) n else Inr p)"

fun skip_trailing :: "string_piece \<Rightarrow> nat \<Rightarrow> nat \<Rightarrow> nat result" where
  "skip_trailing s p 0 = Inr p"
| "skip_trailing s p (Suc n) =
     bindR (read_char s (p + n)) (\<lambda>c. if c = CHR ''/'' then skip_trailing s p n else Inr (p + Suc n))"

definition StripSlashes :: "string_piece \<Rightarrow> bool \<Rightarrow> string_piece result" where
  "StripSlashes s keep_initial_slash =
     (if StringPiece_empty s then Inr s
      else bindR (skip_leading s 0 (sp_len s)) (\<lambda>p.
           bindR (skip_trailing s p (sp_len s - p)) (\<lambda>q.
           let p = (if keep_initial_slash \<and> p \<noteq> 0 then p - 1 else p)
           in Inr (StringPiece_assign s (sp_ptr s + p) (sp_ptr s + q)))))"

definition starts_with_slash :: "string_piece \<Rightarrow> bool result" where
  "starts_with_slash s =
     (if StringPiece_empty s then Inr False else bindR (read_char s 0) (\<lambda>c. Inr (c = CHR ''/'')))"

definition Path_new :: "string_piece \<Rightarrow> string_piece \<Rightarrow> string_piece \<Rightarrow> path result" where
  "Path_new base sub file =
     (if StringPiece_empty file
      then Inr \<lparr>base_dir = StringPiece_null, sub_dir = StringPiece_null, file_piece = file\<rparr>
      else bindR (starts_with_slash file) (\<lambda>file_absolute.
           let base = (if file_absolute then StringPiece_null else base);
               sub = (if file_absolute then StringPiece_null else sub)
           in bindR (starts_with_slash sub) (\<lambda>sub_absolute.
              let base = (if sub_absolute then StringPiece_null else base);
                  (base, sub) = (if StringPiece_empty base then (sub, base) else (base, sub))
              in bindR (StripSlashes base True) (\<lambda>base.
                 bindR (StripSlashes sub False) (\<lambda>sub.
                 bindR (StripSlashes file False) (\<lambda>file.
                   Inr \<lparr>base_dir = base, sub_dir = sub, file_piece = file\<rparr>))))))"

definition Path_size :: "path \<Rightarrow> nat" where
  "Path_size p = sp_len (base_dir p) + (if StringPiece_empty (sub_dir p) then 0 else 1) + sp_len (sub_dir p) +
     (if StringPiece_empty (file_piece p) then 0 else 1) + sp_len (file_piece p)"

definition buffer_Append :: "string_piece \<Rightarrow> string \<times> nat \<times> nat \<Rightarrow> (string \<times> nat \<times> nat) result" where
  "buffer_Append s st =
     (case st of (buf, buf_size, total_size) \<Rightarrow>
       if 2 \<le> buf_size
       then let to_copy = min (sp_len s) (buf_size - 1)
            in bindR (read_block s 0 to_copy) (\<lambda>t. Inr (buf @ t, buf_size - to_copy, total_size + sp_len s))
       else Inr (buf, buf_size, total_size + sp_len s))"

definition Path_ToBuffer :: "path \<Rightarrow> nat \<Rightarrow> (string \<times> nat) result" where
  "Path_ToBuffer p buf_size =
     bindR (if StringPiece_empty (base_dir p) then Inr ('''', buf_size, 0) else buffer_Append (base_dir p) ('''', buf_size, 0)) (\<lambda>st.
     bindR (if StringPiece_empty (sub_dir p) then Inr st
            else CHECK (\<not> StringPiece_empty (base_dir p))
                   (bindR (buffer_Append (StringPiece_of_string ''/'') st) (buffer_Append (sub_dir p)))) (\<lambda>st.
     bindR (if StringPiece_empty (file_piece p) then Inr st
            else bindR (buffer_Append (StringPiece_of_string ''/'') st) (buffer_Append (file_piece p))) (\<lambda>(buf, room, total_size).
     CHECK (total_size = Path_size p) (Inr (if room \<noteq> 0 then buf @ [CHR 0x00] else buf, total_size)))))"

definition Path_ToString :: "path \<Rightarrow> string \<Rightarrow> string result" where
  "Path_ToString p dest =
     bindR (if StringPiece_empty (base_dir p) then Inr dest else StringPiece_AppendToString (base_dir p) dest) (\<lambda>out.
     bindR (if StringPiece_empty (sub_dir p) then Inr out
            else CHECK (\<not> StringPiece_empty (base_dir p)) (StringPiece_AppendToString (sub_dir p) (out @ ''/''))) (\<lambda>out.
     bindR (if StringPiece_empty (file_piece p) then Inr out
            else StringPiece_AppendToString (file_piece p) (out @ ''/'')) (\<lambda>out.
     DCHECK (length out = length dest + Path_size p) (Inr out))))"

subsection \<open>The text a path stands for\<close>

definition strip :: "bool \<Rightarrow> string \<Rightarrow> string" where
  "strip keep v =
     (let core = rev (dropWhile ((=) (CHR ''/'')) (rev (dropWhile ((=) (CHR ''/'')) v)))
      in if keep \<and> (\<exists>r. v = CHR ''/'' # r) then CHR ''/'' # core else core)"

definition absolute :: "string \<Rightarrow> bool" where
  "absolute v \<longleftrightarrow> v \<noteq> [] \<and> hd v = CHR ''/''"

definition path_text :: "string \<Rightarrow> string \<Rightarrow> string \<Rightarrow> string" where
  "path_text base sub file =
     (if file = [] then []
      else let (base, sub) = (if absolute file then ([], []) else (base, sub));
               base = (if absolute sub then [] else base);
               (base, sub) = (if base = [] then (sub, []) else (base, sub));
               join = (\<lambda>x. if x = [] then [] else CHR ''/'' # x)
           in strip True base @ join (strip False sub) @ join (strip False file))"

lemma skip_leading_view:
  assumes "in_block s" "p + n = sp_len s"
  shows "skip_leading s p n = Inr (p + length (takeWhile ((=) (CHR ''/'')) (drop p (view s))))"
  using assms(2)
proof (induction n arbitrary: p)
  case 0
  then show ?case using length_view [OF assms(1)] by simp
next
  case (Suc n)
  have l: "p < length (view s)" using Suc.prems length_view [OF assms(1)] by simp
  then have "drop p (view s) = view s ! p # drop (Suc p) (view s)" by (rule Cons_nth_drop_Suc [symmetric])
  moreover have "read_char s p = Inr (view s ! p)" using read_char_view [OF assms(1), of p] Suc.prems by simp
  ultimately show ?case using Suc.IH [of "Suc p"] Suc.prems by auto
qed

lemma skip_trailing_view:
  assumes "in_block s" "p + n \<le> sp_len s"
  shows "skip_trailing s p n = Inr (p + length (dropWhile ((=) (CHR ''/'')) (rev (take n (drop p (view s))))))"
  using assms(2)
proof (induction n)
  case (Suc n)
  have l: "p + n < length (view s)" using Suc.prems length_view [OF assms(1)] by simp
  then have "take (Suc n) (drop p (view s)) = take n (drop p (view s)) @ [view s ! (p + n)]"
    by (simp add: take_Suc_conv_app_nth)
  moreover have "read_char s (p + n) = Inr (view s ! (p + n))" using read_char_view [OF assms(1), of "p + n"] Suc.prems by simp
  ultimately show ?case using Suc l by auto
qed simp

lemma piece_view:
  assumes "in_block s" "p \<le> q" "q \<le> sp_len s"
  shows "in_block (StringPiece_assign s (sp_ptr s + p) (sp_ptr s + q))"
    "view (StringPiece_assign s (sp_ptr s + p) (sp_ptr s + q)) = take (q - p) (drop p (view s))"
    "sp_len (StringPiece_assign s (sp_ptr s + p) (sp_ptr s + q)) = q - p"
  using assms by (auto simp: StringPiece_assign_def in_block_def view_def drop_take add.commute min_def)

lemma StripSlashes_view:
  assumes "in_block s"
  shows "\<exists>s'. StripSlashes s keep = Inr s' \<and> in_block s' \<and> view s' = strip keep (view s)"
proof (cases "sp_len s = 0")
  case True
  then show ?thesis using assms by (auto simp: StripSlashes_def StringPiece_empty_def view_def strip_def)
next
  case False
  define v where "v = view s"
  define lead where "lead = takeWhile ((=) (CHR ''/'')) v"
  define core where "core = rev (dropWhile ((=) (CHR ''/'')) (rev (dropWhile ((=) (CHR ''/'')) v)))"
  define p q where "p = length lead" and "q = p + length core"
  have v: "length v = sp_len s" "v = lead @ dropWhile ((=) (CHR ''/'')) v"
    using length_view [OF assms] by (simp_all add: v_def lead_def)
  then have d: "drop p v = dropWhile ((=) (CHR ''/'')) v" unfolding p_def by (metis append_eq_conv_conj)
  have "length core \<le> length (dropWhile ((=) (CHR ''/'')) v)" by (simp add: core_def length_dropWhile_le [of _ "rev _", simplified])
  moreover have "length (dropWhile ((=) (CHR ''/'')) v) = length v - p" using d by (metis length_drop)
  moreover have "p \<le> length v" by (simp add: p_def lead_def length_takeWhile_le)
  ultimately have q: "p \<le> q" "q \<le> sp_len s" using v(1) by (simp_all add: q_def)
  have core: "take (length core) (dropWhile ((=) (CHR ''/'')) v) = core"
    unfolding core_def by (metis append_eq_conv_conj length_rev rev_append rev_rev_ident takeWhile_dropWhile_id)
  have run: "StripSlashes s keep = Inr (StringPiece_assign s (sp_ptr s + (if keep \<and> p \<noteq> 0 then p - 1 else p)) (sp_ptr s + q))"
    using False skip_leading_view [OF assms, of 0 "sp_len s"] skip_trailing_view [OF assms, of p "sp_len s - p"] q v(1) d
    by (simp add: StripSlashes_def StringPiece_empty_def Let_def p_def lead_def q_def core_def flip: v_def)
  show ?thesis
  proof (cases "keep \<and> p \<noteq> 0")
    case True
    then have i: "p - 1 < length lead" by (simp add: p_def)
    then have "lead ! (p - 1) \<in> set lead" by (rule nth_mem)
    then have "lead ! (p - 1) = CHR ''/''" unfolding lead_def by (auto dest: set_takeWhileD)
    moreover have "v ! (p - 1) = lead ! (p - 1)" using i unfolding lead_def by (simp add: takeWhile_nth)
    moreover have "p - 1 < length v" using True q v(1) by linarith
    ultimately have "drop (p - 1) v = CHR ''/'' # drop p v" using Cons_nth_drop_Suc [of "p - 1" v] True by simp
    moreover have "\<exists>r. v = CHR ''/'' # r" using True unfolding p_def lead_def by (cases v) (auto split: if_splits)
    ultimately show ?thesis
      using run True q piece_view [OF assms, of "p - 1" q] core d
      by (simp add: strip_def Let_def q_def Suc_diff_le flip: v_def core_def)
  next
    case False
    then have "\<not> (keep \<and> (\<exists>r. v = CHR ''/'' # r))" unfolding p_def lead_def by auto
    then have "strip keep v = core" unfolding strip_def Let_def core_def [symmetric] by (rule if_not_P)
    moreover have "StripSlashes s keep = Inr (StringPiece_assign s (sp_ptr s + p) (sp_ptr s + q))"
      using run unfolding if_not_P [OF False] .
    ultimately show ?thesis using q piece_view [OF assms, of p q] core d by (simp add: q_def flip: v_def)
  qed
qed

lemma StringPiece_empty_view: "in_block s \<Longrightarrow> StringPiece_empty s \<longleftrightarrow> view s = []"
  using length_view [of s] by (auto simp: StringPiece_empty_def view_def)

lemma null_piece [simp]: "in_block StringPiece_null" "view StringPiece_null = []"
  by (simp_all add: StringPiece_null_def in_block_def view_def)

lemma starts_with_slash_view: "in_block s \<Longrightarrow> starts_with_slash s = Inr (absolute (view s))"
proof -
  assume s: "in_block s"
  show ?thesis
  proof (cases "view s")
    case (Cons c cs)
    then have "0 < sp_len s" using length_view [OF s] by auto
    then show ?thesis using read_char_view [OF s, of 0] StringPiece_empty_view [OF s] Cons
      by (simp add: starts_with_slash_def absolute_def)
  qed (use StringPiece_empty_view [OF s] in \<open>simp add: starts_with_slash_def absolute_def\<close>)
qed

lemma strip_nonempty:
  "v \<noteq> [] \<Longrightarrow> strip True v \<noteq> []"
  "v \<noteq> [] \<Longrightarrow> \<not> absolute v \<Longrightarrow> strip False v \<noteq> []"
proof -
  assume v: "v \<noteq> []"
  then obtain c r where c: "v = c # r" by (cases v) auto
  have "dropWhile ((=) (CHR ''/'')) (rev (c # r)) \<noteq> []" if "c \<noteq> CHR ''/''" using that by (auto simp: dropWhile_eq_Nil_conv)
  then show "strip True v \<noteq> []" "\<not> absolute v \<Longrightarrow> strip False v \<noteq> []"
    using c by (auto simp: strip_def Let_def absolute_def)
qed

definition path_ok :: "path \<Rightarrow> bool" where
  "path_ok p \<longleftrightarrow> in_block (base_dir p) \<and> in_block (sub_dir p) \<and> in_block (file_piece p) \<and>
     (view (base_dir p) = [] \<longrightarrow> view (sub_dir p) = [])"

definition joined :: "string \<Rightarrow> string" where
  "joined x = (if x = [] then [] else CHR ''/'' # x)"

definition path_view :: "path \<Rightarrow> string" where
  "path_view p = view (base_dir p) @ joined (view (sub_dir p)) @ joined (view (file_piece p))"

lemma Path_new_view:
  assumes "in_block base" "in_block sub" "in_block file"
  shows "\<exists>p. Path_new base sub file = Inr p \<and> path_ok p \<and> path_view p = path_text (view base) (view sub) (view file)"
proof (cases "view file = []")
  case True
  then show ?thesis
    using assms StringPiece_empty_view [OF assms(3)] by (simp add: Path_new_def path_ok_def path_view_def path_text_def joined_def)
next
  case False
  define b1 s1 where "b1 = (if absolute (view file) then StringPiece_null else base)"
    and "s1 = (if absolute (view file) then StringPiece_null else sub)"
  define b2 where "b2 = (if absolute (view s1) then StringPiece_null else b1)"
  define b3 s3 where "b3 = (if view b2 = [] then s1 else b2)" and "s3 = (if view b2 = [] then b2 else s1)"
  have i: "in_block b1" "in_block s1" "in_block b2" "in_block b3" "in_block s3"
    using assms by (auto simp: b1_def s1_def b2_def b3_def s3_def)
  have abs3: "\<not> absolute (view s3)" by (auto simp: s3_def b2_def absolute_def)
  obtain b s f where r: "StripSlashes b3 True = Inr b" "in_block b" "view b = strip True (view b3)"
      "StripSlashes s3 False = Inr s" "in_block s" "view s = strip False (view s3)"
      "StripSlashes file False = Inr f" "in_block f" "view f = strip False (view file)"
    using StripSlashes_view [OF i(4)] StripSlashes_view [OF i(5)] StripSlashes_view [OF assms(3)] by metis
  have e: "StringPiece_empty file = False" using False StringPiece_empty_view [OF assms(3)] by simp
  have pair: "(if StringPiece_empty b2 then (s1, b2) else (b2, s1)) = (b3, s3)"
    using StringPiece_empty_view [OF i(3)] by (simp add: b3_def s3_def)
  have "Path_new base sub file = Inr \<lparr>base_dir = b, sub_dir = s, file_piece = f\<rparr>"
    by (simp only: Path_new_def e if_False starts_with_slash_view [OF assms(3)] bindR_simps Let_def b1_def [symmetric]
        s1_def [symmetric] starts_with_slash_view [OF i(2)] b2_def [symmetric] pair prod.case r)
  moreover have "path_ok \<lparr>base_dir = b, sub_dir = s, file_piece = f\<rparr>"
    using r strip_nonempty(1) [of "view b3"] by (auto simp: path_ok_def b3_def s3_def strip_def)
  moreover have "path_view \<lparr>base_dir = b, sub_dir = s, file_piece = f\<rparr> = path_text (view base) (view sub) (view file)"
    using False r by (simp add: path_view_def path_text_def joined_def b1_def s1_def b2_def b3_def s3_def Let_def split: if_splits)
  ultimately show ?thesis by blast
qed

subsection \<open>Rendering\<close>

text \<open>The buffer of \<open>n\<close> bytes after the text \<open>t\<close> was appended to it.\<close>

definition filled :: "nat \<Rightarrow> string \<Rightarrow> string \<times> nat \<times> nat" where
  "filled n t = (take (n - 1) t, n - min (n - 1) (length t), length t)"

lemma buffer_Append_filled: "in_block s \<Longrightarrow> buffer_Append s (filled n t) = Inr (filled n (t @ view s))"
proof -
  assume s: "in_block s"
  note l = length_view [OF s]
  show ?thesis
  proof (cases "2 \<le> n - min (n - 1) (length t)")
    case True
    then have "length t + 2 \<le> n" by linarith
    then obtain k where n: "n = length t + 2 + k" using le_Suc_ex by blast
    have "read_block s 0 (min (sp_len s) (Suc k)) = Inr (take (Suc k) (view s))"
      using read_block_view [OF s, of 0 "min (sp_len s) (Suc k)"] l by (simp add: min_def)
    then show ?thesis using l by (simp add: buffer_Append_def filled_def Let_def n)
  next
    case False
    then have "n - 1 \<le> length t" by linarith
    then show ?thesis using False l by (auto simp: buffer_Append_def filled_def min_def)
  qed
qed

lemma slash_piece [simp]: "in_block (StringPiece_of_string ''/'')" "view (StringPiece_of_string ''/'') = ''/''"
  by (simp_all add: StringPiece_of_string_def in_block_def view_def)

lemma Path_size_view: "path_ok p \<Longrightarrow> Path_size p = length (path_view p)"
  using length_view [of "base_dir p"] length_view [of "sub_dir p"] length_view [of "file_piece p"]
    StringPiece_empty_view [of "sub_dir p"] StringPiece_empty_view [of "file_piece p"]
  by (auto simp: path_ok_def Path_size_def path_view_def joined_def)

lemma Path_ToBuffer_view:
  assumes "path_ok p"
  shows "Path_ToBuffer p n = Inr (if n = 0 then [] else take (n - 1) (path_view p) @ [CHR 0x00], length (path_view p))"
proof -
  have i: "in_block (base_dir p)" "in_block (sub_dir p)" "in_block (file_piece p)"
    "view (base_dir p) = [] \<longrightarrow> view (sub_dir p) = []" using assms by (simp_all add: path_ok_def)
  note e = StringPiece_empty_view [OF i(1)] StringPiece_empty_view [OF i(2)] StringPiece_empty_view [OF i(3)]
  have st0: "('''', n, 0) = filled n ''''" by (simp add: filled_def)
  have 1: "(if StringPiece_empty (base_dir p) then Inr ('''', n, 0) else buffer_Append (base_dir p) ('''', n, 0)) =
      Inr (filled n (view (base_dir p)))"
    unfolding st0 using e(1) buffer_Append_filled [OF i(1), of n "''''"] by simp
  have 2: "(if StringPiece_empty (sub_dir p) then Inr (filled n t)
            else CHECK (\<not> StringPiece_empty (base_dir p))
                   (bindR (buffer_Append (StringPiece_of_string ''/'') (filled n t)) (buffer_Append (sub_dir p)))) =
      Inr (filled n (t @ joined (view (sub_dir p))))" for t
    using e i(4) buffer_Append_filled [OF slash_piece(1), of n t] buffer_Append_filled [OF i(2)]
    by (auto simp: joined_def)
  have 3: "(if StringPiece_empty (file_piece p) then Inr (filled n t)
            else bindR (buffer_Append (StringPiece_of_string ''/'') (filled n t)) (buffer_Append (file_piece p))) =
      Inr (filled n (t @ joined (view (file_piece p))))" for t
    using e buffer_Append_filled [OF slash_piece(1), of n t] buffer_Append_filled [OF i(3)]
    by (simp add: joined_def)
  have "Path_ToBuffer p n = (case filled n (path_view p) of (buf, room, total_size) \<Rightarrow>
      CHECK (total_size = Path_size p) (Inr (if room \<noteq> 0 then buf @ [CHR 0x00] else buf, total_size)))"
    by (simp only: Path_ToBuffer_def 1 2 3 bindR_simps path_view_def append_assoc)
  then show ?thesis using Path_size_view [OF assms] by (auto simp: filled_def min_def)
qed

lemma Path_ToString_view: "path_ok p \<Longrightarrow> Path_ToString p dest = Inr (dest @ path_view p)"
proof -
  assume p: "path_ok p"
  have i: "in_block (base_dir p)" "in_block (sub_dir p)" "in_block (file_piece p)"
    "view (base_dir p) = [] \<longrightarrow> view (sub_dir p) = []" using p by (simp_all add: path_ok_def)
  note e = StringPiece_empty_view [OF i(1)] StringPiece_empty_view [OF i(2)] StringPiece_empty_view [OF i(3)]
  have a: "StringPiece_AppendToString s t = Inr (t @ view s)" if "in_block s" for s t
    using read_block_view [OF that, of 0 "sp_len s"] length_view [OF that] by (simp add: StringPiece_AppendToString_def)
  show ?thesis
    using e i(4) Path_size_view [OF p] a [OF i(1)] a [OF i(2)] a [OF i(3)]
    by (auto simp: Path_ToString_def path_view_def joined_def)
qed

text \<open>
  For any three pieces a path renders as \<open>path_text\<close> says (an absolute file hides both directories,
  an absolute subdirectory hides the base, slashes at the joints collapse), no assertion fails, and
  \<open>ToBuffer\<close> is \<open>snprintf\<close>-like: the text cut to the buffer, always NUL-terminated, with the full length returned.
\<close>
theorem Path_rendering:
  assumes "in_block base" "in_block sub" "in_block file"
  shows "\<exists>p. Path_new base sub file = Inr p \<and>
    Path_ToString p dest = Inr (dest @ path_text (view base) (view sub) (view file)) \<and>
    Path_ToBuffer p n = Inr (if n = 0 then [] else take (n - 1) (path_text (view base) (view sub) (view file)) @ [CHR 0x00],
                             length (path_text (view base) (view sub) (view file)))"
  using Path_new_view [OF assms] Path_ToString_view Path_ToBuffer_view by metis

end
