(* ===== verification/Lines.thy ===== *)
theory Lines
  imports Paths
begin

text \<open>
  The line-number machine of the DWARF parser: \<open>Dwarf::Section\<close> and \<open>Dwarf::LineNumberVM\<close> of
  \<^verbatim>\<open>symbolizer/Dwarf.h,.cc\<close>.

  The header of a program and its registers are two records; the piece of the program still to be executed is
  passed along. The opcode numbers are those of the DWARF standard (\<^verbatim>\<open>dwarf.h\<close>). Every loop ends because each
  turn moves its piece forward inside the finite file, or fails. Registers are 64-bit unsigned and wrap.
\<close>

subsection \<open>Sections\<close>

record section_state =
  sec_is_64_bits :: bool
  sec_data :: string_piece

definition Section_new :: "string_piece \<Rightarrow> section_state" where
  "Section_new d = \<lparr>sec_is_64_bits = False, sec_data = d\<rparr>"

definition Section_Next :: "section_state \<Rightarrow> (string_piece option \<times> section_state) result" where
  "Section_Next sec =
     (let data = sec_data sec
      in if StringPiece_empty data then Inr (None, sec)
         else bindR (Read 4 data) (\<lambda>(initial_length, chunk).
              let is64 = (initial_length = 2 ^ 32 - 1)
              in bindR (if is64 then Read 8 chunk else Inr (initial_length, chunk)) (\<lambda>(length, chunk).
                 CHECK (length \<le> sp_len chunk)
                   (let chunk = chunk\<lparr>sp_len := length\<rparr>
                    in Inr (Some chunk, \<lparr>sec_is_64_bits = is64,
                              sec_data = StringPiece_assign data (sp_ptr chunk + length) (sp_ptr data + sp_len data)\<rparr>)))))"

subsection \<open>The header of a program\<close>

record line_header =
  lh_is_64_bits :: bool
  lh_data :: string_piece
  lh_compilation_directory :: string_piece
  lh_version :: nat
  lh_min_length :: nat
  lh_default_is_stmt :: bool
  lh_line_base :: int
  lh_line_range :: nat
  lh_opcode_base :: nat
  lh_standard_opcode_lengths :: nat
  lh_include_directories :: string_piece
  lh_include_directory_count :: nat
  lh_file_names :: string_piece
  lh_file_name_count :: nat

type_synonym file_name = "string_piece \<times> nat"

definition ReadFileName :: "string_piece \<Rightarrow> (file_name option \<times> string_piece) result" where
  "ReadFileName program =
     bindR (ReadNullTerminated program) (\<lambda>(name, program).
       if StringPiece_empty name then Inr (None, program)
       else bindR (ReadULEB program) (\<lambda>(directory_index, program).
            bindR (ReadULEB program) (\<lambda>(_, program).
            bindR (ReadULEB program) (\<lambda>(_, program). Inr (Some (name, directory_index), program)))))"

lemma ReadFileName_forward [forward_reads]: "ReadFileName s = Inr (r, s') \<Longrightarrow> forward s s'"
  by (auto simp: ReadFileName_def split: if_splits dest!: ReadNullTerminated_forward ReadULEB_forward intro: forward_trans)

function skip_directories :: "string_piece \<Rightarrow> nat \<Rightarrow> (nat \<times> string_piece) result" where
  "skip_directories header n =
     bindR (ReadNullTerminated header) (\<lambda>(s, header').
       if StringPiece_empty s then Inr (n, header') else skip_directories header' (n + 1))"
  by pat_completeness auto
termination
  by (relation "measure (\<lambda>(s, n). length (sp_mem s) - sp_ptr s)") (auto dest!: ReadNullTerminated_forward forward_measure)

function skip_file_names :: "string_piece \<Rightarrow> nat \<Rightarrow> (nat \<times> string_piece) result" where
  "skip_file_names header n =
     bindR (ReadFileName header) (\<lambda>(fn, header').
       case fn of None \<Rightarrow> Inr (n, header') | Some _ \<Rightarrow> skip_file_names header' (n + 1))"
  by pat_completeness auto
termination
  by (relation "measure (\<lambda>(s, n). length (sp_mem s) - sp_ptr s)") (auto dest!: ReadFileName_forward forward_measure)

declare skip_directories.simps [simp del] skip_file_names.simps [simp del]

definition int8 :: "nat \<Rightarrow> int" where
  "int8 b = (if b < 128 then int b else int b - 256)"

definition LineNumberVM_Init :: "bool \<Rightarrow> string_piece \<Rightarrow> string_piece \<Rightarrow> line_header result" where
  "LineNumberVM_Init is64 data compilation_directory =
     bindR (Read 2 data) (\<lambda>(version, data).
     CHECK (2 \<le> version \<and> version \<le> 4)
     (bindR (ReadOffset data is64) (\<lambda>(header_length, data).
      CHECK (header_length \<le> sp_len data)
      (let header = data\<lparr>sp_len := header_length\<rparr>;
           program = StringPiece_assign data (sp_ptr header + header_length) (sp_ptr data + sp_len data)
       in bindR (Read 1 header) (\<lambda>(min_length, header).
          bindR (if version = 4
                 then bindR (Read 1 header) (\<lambda>(max_ops, header). CHECK (max_ops = 1) (Inr header))
                 else Inr header) (\<lambda>header.
          bindR (Read 1 header) (\<lambda>(default_is_stmt, header).
          bindR (Read 1 header) (\<lambda>(line_base, header).
          bindR (Read 1 header) (\<lambda>(line_range, header).
          bindR (Read 1 header) (\<lambda>(opcode_base, header).
          CHECK (opcode_base \<noteq> 0)
          (let lengths = sp_ptr header
           in bindR (StringPiece_advance header (opcode_base - 1)) (\<lambda>header.
              bindR (skip_directories header 0) (\<lambda>(directory_count, header1).
              bindR (skip_file_names header1 0) (\<lambda>(file_count, header2).
              Inr \<lparr>lh_is_64_bits = is64, lh_data = program, lh_compilation_directory = compilation_directory,
                   lh_version = version, lh_min_length = min_length, lh_default_is_stmt = (default_is_stmt \<noteq> 0),
                   lh_line_base = int8 line_base, lh_line_range = line_range, lh_opcode_base = opcode_base,
                   lh_standard_opcode_lengths = lengths,
                   lh_include_directories = StringPiece_assign header (sp_ptr header) (sp_ptr header1),
                   lh_include_directory_count = directory_count,
                   lh_file_names = StringPiece_assign header1 (sp_ptr header1) (sp_ptr header2),
                   lh_file_name_count = file_count\<rparr>))))))))))))))"

definition LineNumberVM_new :: "string_piece \<Rightarrow> string_piece \<Rightarrow> line_header result" where
  "LineNumberVM_new data compilation_directory =
     bindR (Section_Next (Section_new data)) (\<lambda>(chunk, sec).
       case chunk of None \<Rightarrow> Inl Check_Failed
       | Some chunk \<Rightarrow> LineNumberVM_Init (sec_is_64_bits sec) chunk compilation_directory)"

subsection \<open>Registers and steps\<close>

record line_regs =
  reg_address :: nat
  reg_file :: nat
  reg_line :: nat
  reg_column :: nat
  reg_is_stmt :: bool
  reg_basic_block :: bool
  reg_end_sequence :: bool
  reg_prologue_end :: bool
  reg_epilogue_begin :: bool
  reg_isa :: nat
  reg_discriminator :: nat

definition LineNumberVM_Reset :: "line_header \<Rightarrow> line_regs" where
  "LineNumberVM_Reset h =
     \<lparr>reg_address = 0, reg_file = 1, reg_line = 1, reg_column = 0, reg_is_stmt = lh_default_is_stmt h,
      reg_basic_block = False, reg_end_sequence = False, reg_prologue_end = False, reg_epilogue_begin = False,
      reg_isa = 0, reg_discriminator = 0\<rparr>"

datatype step_result = Step_CONTINUE | Step_COMMIT | Step_END

definition row_flags_reset :: "line_regs \<Rightarrow> line_regs" where
  "row_flags_reset r =
     r\<lparr>reg_basic_block := False, reg_prologue_end := False, reg_epilogue_begin := False, reg_discriminator := 0\<rparr>"

definition add_address :: "line_regs \<Rightarrow> nat \<Rightarrow> line_regs" where
  "add_address r d = r\<lparr>reg_address := u64 (reg_address r + d)\<rparr>"

definition add_line :: "line_regs \<Rightarrow> int \<Rightarrow> line_regs" where
  "add_line r d = r\<lparr>reg_line := nat ((int (reg_line r) + d) mod 2 ^ 64)\<rparr>"

fun skip_args :: "nat \<Rightarrow> string_piece \<Rightarrow> string_piece result" where
  "skip_args 0 program = Inr program"
| "skip_args (Suc n) program = bindR (ReadULEB program) (\<lambda>(_, program). skip_args n program)"

definition skip_standard :: "line_header \<Rightarrow> nat \<Rightarrow> string_piece \<Rightarrow> string_piece result" where
  "skip_standard h opcode program =
     bindR (vec_get (sp_mem program) (lh_standard_opcode_lengths h + (opcode - 1))) (\<lambda>arg_count.
       skip_args (of_char arg_count) program)"

definition Step_special :: "line_header \<Rightarrow> nat \<Rightarrow> line_regs \<Rightarrow> line_regs result" where
  "Step_special h opcode r =
     (let adjusted_opcode = opcode - lh_opcode_base h
      in if lh_line_range h = 0 then Inl Divide_By_Zero
         else Inr (row_flags_reset
                (add_line (add_address r (lh_min_length h * (adjusted_opcode div lh_line_range h)))
                   (lh_line_base h + int (adjusted_opcode mod lh_line_range h)))))"

definition Step_standard ::
  "line_header \<Rightarrow> nat \<Rightarrow> line_regs \<Rightarrow> string_piece \<Rightarrow> (step_result \<times> line_regs \<times> string_piece) result" where
  "Step_standard h opcode r program =
     (if opcode = 1 then Inr (Step_COMMIT, row_flags_reset r, program)
      else if opcode = 2 then
        bindR (ReadULEB program) (\<lambda>(v, program). Inr (Step_CONTINUE, add_address r (u64 (lh_min_length h * v)), program))
      else if opcode = 3 then
        bindR (ReadSLEB program) (\<lambda>(v, program). Inr (Step_CONTINUE, add_line r (int v), program))
      else if opcode = 4 then bindR (ReadULEB program) (\<lambda>(v, program). Inr (Step_CONTINUE, r\<lparr>reg_file := v\<rparr>, program))
      else if opcode = 5 then bindR (ReadULEB program) (\<lambda>(v, program). Inr (Step_CONTINUE, r\<lparr>reg_column := v\<rparr>, program))
      else if opcode = 6 then Inr (Step_CONTINUE, r\<lparr>reg_is_stmt := \<not> reg_is_stmt r\<rparr>, program)
      else if opcode = 7 then Inr (Step_CONTINUE, r\<lparr>reg_basic_block := True\<rparr>, program)
      else if opcode = 8 then
        (if lh_line_range h = 0 then Inl Divide_By_Zero
         else Inr (Step_CONTINUE, add_address r (lh_min_length h * ((255 - lh_opcode_base h) div lh_line_range h)), program))
      else if opcode = 9 then bindR (Read 2 program) (\<lambda>(v, program). Inr (Step_CONTINUE, add_address r v, program))
      else if opcode = 10 \<and> lh_version h \<noteq> 2 then Inr (Step_CONTINUE, r\<lparr>reg_prologue_end := True\<rparr>, program)
      else if opcode = 11 \<and> lh_version h \<noteq> 2 then Inr (Step_CONTINUE, r\<lparr>reg_epilogue_begin := True\<rparr>, program)
      else if opcode = 12 \<and> lh_version h \<noteq> 2 then
        bindR (ReadULEB program) (\<lambda>(v, program). Inr (Step_CONTINUE, r\<lparr>reg_isa := v\<rparr>, program))
      else bindR (skip_standard h opcode program) (\<lambda>program. Inr (Step_CONTINUE, r, program)))"

definition Step_extended ::
  "line_regs \<Rightarrow> string_piece \<Rightarrow> (step_result \<times> line_regs \<times> string_piece) result" where
  "Step_extended r program =
     bindR (ReadULEB program) (\<lambda>(length, program).
     CHECK (length \<noteq> 0)
     (bindR (Read 1 program) (\<lambda>(extended_opcode, program).
        if extended_opcode = 1 then Inr (Step_END, r, program)
        else if extended_opcode = 2 then
          bindR (Read 8 program) (\<lambda>(v, program). Inr (Step_CONTINUE, r\<lparr>reg_address := v\<rparr>, program))
        else if extended_opcode = 4 then
          bindR (ReadULEB program) (\<lambda>(v, program). Inr (Step_CONTINUE, r\<lparr>reg_discriminator := v\<rparr>, program))
        else bindR (StringPiece_advance program (length - 1)) (\<lambda>program. Inr (Step_CONTINUE, r, program)))))"

definition LineNumberVM_Step ::
  "line_header \<Rightarrow> line_regs \<Rightarrow> string_piece \<Rightarrow> (step_result \<times> line_regs \<times> string_piece) result" where
  "LineNumberVM_Step h r program =
     bindR (Read 1 program) (\<lambda>(opcode, program).
       if lh_opcode_base h \<le> opcode
       then bindR (Step_special h opcode r) (\<lambda>r. Inr (Step_COMMIT, r, program))
       else if opcode \<noteq> 0 then Step_standard h opcode r program
       else Step_extended r program)"

lemma skip_args_ptr: "skip_args n s = Inr s' \<Longrightarrow> s' = s \<or> forward s s'"
proof (induction n arbitrary: s)
  case (Suc n)
  then obtain v s1 where "ReadULEB s = Inr (v, s1)" "skip_args n s1 = Inr s'" by auto
  then show ?case using Suc.IH [of s1] forward_trans [of s s1 s'] ReadULEB_forward [of s v s1] by blast
qed simp

lemma skip_standard_ptr: "skip_standard h opcode s = Inr s' \<Longrightarrow> s' = s \<or> forward s s'"
  by (auto simp: skip_standard_def dest: skip_args_ptr)

text \<open>A piece that moved forward may be moved past the end of the block by \<open>advance\<close>; the next read then fails.\<close>

definition onward :: "string_piece \<Rightarrow> string_piece \<Rightarrow> bool" where
  "onward s s' \<longleftrightarrow> sp_mem s' = sp_mem s \<and> sp_ptr s < sp_ptr s' \<and> sp_ptr s < length (sp_mem s)"

lemma forward_onward: "forward s s' \<Longrightarrow> onward s s'"
  by (auto simp: forward_def onward_def)

lemma onward_measure: "onward s s' \<Longrightarrow> length (sp_mem s') - sp_ptr s' < length (sp_mem s) - sp_ptr s"
  by (auto simp: onward_def)

lemma forward_advance: "forward s s1 \<Longrightarrow> StringPiece_advance s1 n = Inr s2 \<Longrightarrow> onward s s2"
  by (auto simp: forward_def onward_def StringPiece_advance_def)

lemma Step_standard_ptr: "Step_standard h opcode r s = Inr (res, r', s') \<Longrightarrow> s' = s \<or> forward s s'"
  by (auto simp: Step_standard_def split: if_splits dest: ReadULEB_forward ReadSLEB_forward Read_forward skip_standard_ptr)

lemma Step_extended_ptr:
  assumes "Step_extended r s = Inr (res, r', s')"
  shows "onward s s'"
proof -
  obtain len s1 op s2 where s: "ReadULEB s = Inr (len, s1)" "Read 1 s1 = Inr (op, s2)"
    using assms by (auto simp: Step_extended_def)
  then have f: "forward s s2" using forward_trans [OF ReadULEB_forward [of s] Read_forward [of 1 s1]] by auto
  show ?thesis
    using assms s f by (auto simp: Step_extended_def split: if_splits
        dest: ReadULEB_forward Read_numeral_forward forward_trans [OF f] intro: forward_onward forward_advance [OF f])
qed

lemma Step_onward: "LineNumberVM_Step h r s = Inr (res, r', s') \<Longrightarrow> onward s s'"
proof -
  assume step: "LineNumberVM_Step h r s = Inr (res, r', s')"
  then obtain op s1 where s1: "Read 1 s = Inr (op, s1)" by (auto simp: LineNumberVM_Step_def)
  then have f: "forward s s1" by (rule Read_forward) simp
  have "s' = s1 \<or> forward s1 s' \<or> onward s1 s'"
    using step s1 by (auto simp: LineNumberVM_Step_def split: if_splits dest: Step_standard_ptr Step_extended_ptr)
  then show ?thesis using f by (auto simp: forward_def onward_def)
qed

function LineNumberVM_Next :: "line_header \<Rightarrow> line_regs \<Rightarrow> string_piece \<Rightarrow> (bool \<times> line_regs \<times> string_piece) result" where
  "LineNumberVM_Next h r program =
     bindR (LineNumberVM_Step h r program) (\<lambda>(ret, r', program').
       if ret = Step_CONTINUE then LineNumberVM_Next h r' program' else Inr (ret = Step_COMMIT, r', program'))"
  by pat_completeness auto
termination
  by (relation "measure (\<lambda>(h, r, s). length (sp_mem s) - sp_ptr s)") (auto dest!: Step_onward onward_measure)

declare LineNumberVM_Next.simps [simp del]

lemma Next_onward: "LineNumberVM_Next h r s = Inr (c, r', s') \<Longrightarrow> onward s s'"
proof (induction h r s rule: LineNumberVM_Next.induct)
  case (1 h r s)
  then obtain ret r1 s1 where s1: "LineNumberVM_Step h r s = Inr (ret, r1, s1)"
    by (auto simp: LineNumberVM_Next.simps [of h r s])
  note o1 = Step_onward [OF s1]
  show ?case
  proof (cases "ret = Step_CONTINUE")
    case True
    then have "onward s1 s'" using 1(1) [OF s1 refl refl True] 1(2) s1 by (simp add: LineNumberVM_Next.simps [of h r s])
    with o1 show ?thesis by (auto simp: onward_def)
  qed (use 1(2) s1 o1 in \<open>auto simp: LineNumberVM_Next.simps [of h r s]\<close>)
qed

subsection \<open>File names\<close>

function NextDefineFile :: "line_header \<Rightarrow> string_piece \<Rightarrow> (file_name option \<times> string_piece) result" where
  "NextDefineFile h program =
     (if StringPiece_empty program then Inr (None, program)
      else bindR (Read 1 program) (\<lambda>(opcode, program1).
        if lh_opcode_base h \<le> opcode then NextDefineFile h program1
        else if opcode \<noteq> 0 then bindR (skip_standard h opcode program1) (\<lambda>program2. NextDefineFile h program2)
        else bindR (ReadULEB program1) (\<lambda>(length, program2).
             CHECK (length \<noteq> 0)
             (bindR (Read 1 program2) (\<lambda>(_, program3).
                if opcode = 3
                then bindR (ReadFileName program3) (\<lambda>(fn, program4).
                       case fn of None \<Rightarrow> Inl Check_Failed | Some fn \<Rightarrow> Inr (Some fn, program4))
                else bindR (StringPiece_advance program3 (length - 1)) (\<lambda>program4. NextDefineFile h program4))))))"
  by pat_completeness auto
termination
proof (relation "measure (\<lambda>(h, s). length (sp_mem s) - sp_ptr s)", goal_cases)
  case 1
  show ?case by simp
next
  case (2 h s x op s1)
  then show ?case using onward_measure [OF forward_onward [OF Read_forward [of 1 s op s1]]] by simp
next
  case (3 h s x op s1 s2)
  then have "forward s s1" using Read_forward [of 1 s op s1] by simp
  moreover have "s2 = s1 \<or> forward s1 s2" using 3 skip_standard_ptr by blast
  ultimately show ?case using forward_measure [of s s2] forward_trans [of s s1 s2] by auto
next
  case (4 h s x op s1 y len s2 z w s3 s4)
  then have f: "forward s s1" "forward s1 s2" "forward s2 s3"
    using Read_forward [of 1 s op s1] ReadULEB_forward [of s1 len s2] Read_forward [of 1 s2 w s3] by auto
  have "onward s s4" using 4 by (intro forward_advance [OF forward_trans [OF forward_trans [OF f(1,2)] f(3)]]) auto
  then show ?case using onward_measure by simp
qed

declare NextDefineFile.simps [simp del]

fun read_nth_file :: "nat \<Rightarrow> string_piece \<Rightarrow> file_name \<Rightarrow> file_name result" where
  "read_nth_file 0 s fn = Inr fn"
| "read_nth_file (Suc k) s fn =
     bindR (ReadFileName s) (\<lambda>(r, s'). case r of None \<Rightarrow> Inl Aborted | Some fn' \<Rightarrow> read_nth_file k s' fn')"

fun read_nth_define :: "line_header \<Rightarrow> nat \<Rightarrow> string_piece \<Rightarrow> file_name \<Rightarrow> file_name result" where
  "read_nth_define h 0 s fn = Inr fn"
| "read_nth_define h (Suc k) s fn =
     bindR (NextDefineFile h s) (\<lambda>(r, s'). case r of None \<Rightarrow> Inl Check_Failed | Some fn' \<Rightarrow> read_nth_define h k s' fn')"

definition GetFileName :: "line_header \<Rightarrow> nat \<Rightarrow> file_name result" where
  "GetFileName h index =
     DCHECK (index \<noteq> 0)
       (if index \<le> lh_file_name_count h then read_nth_file index (lh_file_names h) (StringPiece_null, 0)
        else read_nth_define h (index - lh_file_name_count h) (lh_data h) (StringPiece_null, 0))"

fun read_nth_directory :: "nat \<Rightarrow> string_piece \<Rightarrow> string_piece \<Rightarrow> string_piece result" where
  "read_nth_directory 0 s dir = Inr dir"
| "read_nth_directory (Suc k) s dir =
     bindR (ReadNullTerminated s) (\<lambda>(dir', s'). if StringPiece_empty dir' then Inl Aborted else read_nth_directory k s' dir')"

definition GetIncludeDirectory :: "line_header \<Rightarrow> nat \<Rightarrow> string_piece result" where
  "GetIncludeDirectory h index =
     (if index = 0 then Inr StringPiece_null
      else CHECK (index \<le> lh_include_directory_count h)
             (read_nth_directory index (lh_include_directories h) StringPiece_null))"

subsection \<open>Finding an address\<close>

datatype find_state = State_START | State_LOW_SEQ | State_HIGH_SEQ

definition found_line :: "line_header \<Rightarrow> nat \<Rightarrow> nat \<Rightarrow> (path \<times> nat) option result" where
  "found_line h prev_file prev_line =
     (if prev_file = 0 then Inr None
      else bindR (GetFileName h prev_file) (\<lambda>(name, directory_index).
           bindR (GetIncludeDirectory h directory_index) (\<lambda>dir.
           bindR (Path_new (lh_compilation_directory h) dir name) (\<lambda>file. Inr (Some (file, prev_line))))))"

function FindAddress_loop ::
  "line_header \<Rightarrow> nat \<Rightarrow> find_state \<Rightarrow> nat \<Rightarrow> nat \<Rightarrow> line_regs \<Rightarrow> string_piece \<Rightarrow> (path \<times> nat) option result" where
  "FindAddress_loop h target state prev_file prev_line r program =
     (if StringPiece_empty program then Inr None
      else bindR (LineNumberVM_Next h r program) (\<lambda>(committed, r', program').
        let seq_end = (\<not> committed);
            state = (if state = State_START \<and> \<not> seq_end
                     then (if reg_address r' \<le> target then State_LOW_SEQ else State_HIGH_SEQ) else state)
        in if state = State_LOW_SEQ \<and> target < reg_address r' then found_line h prev_file prev_line
           else let (prev_file, prev_line) = (if state = State_LOW_SEQ then (reg_file r', reg_line r') else (prev_file, prev_line))
                in if seq_end then FindAddress_loop h target State_START prev_file prev_line (LineNumberVM_Reset h) program'
                   else FindAddress_loop h target state prev_file prev_line r' program'))"
  by pat_completeness auto
termination
  by (relation "measure (\<lambda>(h, target, state, pf, pl, r, s). length (sp_mem s) - sp_ptr s)")
    (auto dest!: Next_onward onward_measure)

declare FindAddress_loop.simps [simp del]

definition LineNumberVM_FindAddress :: "line_header \<Rightarrow> nat \<Rightarrow> (path \<times> nat) option result" where
  "LineNumberVM_FindAddress h target = FindAddress_loop h target State_START 0 0 (LineNumberVM_Reset h) (lh_data h)"

subsection \<open>Line-number programs as instruction lists\<close>

datatype line_instr =
    Special nat
  | Copy
  | Advance_pc nat
  | Advance_line int
  | Set_file nat
  | Set_column nat
  | Negate_stmt
  | Set_basic_block
  | Const_add_pc
  | Fixed_advance_pc nat
  | Set_prologue_end
  | Set_epilogue_begin
  | Set_isa nat
  | Vendor nat "nat list"
  | End_sequence
  | Set_address nat
  | Set_discriminator nat
  | Other_extended nat string

fun encode :: "line_instr \<Rightarrow> string" where
  "encode (Special op) = [char_of op]"
| "encode Copy = [char_of (1 :: nat)]"
| "encode (Advance_pc v) = char_of (2 :: nat) # uleb v"
| "encode (Advance_line v) = char_of (3 :: nat) # sleb v"
| "encode (Set_file v) = char_of (4 :: nat) # uleb v"
| "encode (Set_column v) = char_of (5 :: nat) # uleb v"
| "encode Negate_stmt = [char_of (6 :: nat)]"
| "encode Set_basic_block = [char_of (7 :: nat)]"
| "encode Const_add_pc = [char_of (8 :: nat)]"
| "encode (Fixed_advance_pc v) = char_of (9 :: nat) # le_bytes 2 v"
| "encode Set_prologue_end = [char_of (10 :: nat)]"
| "encode Set_epilogue_begin = [char_of (11 :: nat)]"
| "encode (Set_isa v) = char_of (12 :: nat) # uleb v"
| "encode (Vendor op args) = char_of op # concat (map uleb args)"
| "encode End_sequence = char_of (0 :: nat) # uleb 1 @ [char_of (1 :: nat)]"
| "encode (Set_address v) = char_of (0 :: nat) # uleb 9 @ char_of (2 :: nat) # le_bytes 8 v"
| "encode (Set_discriminator v) = char_of (0 :: nat) # uleb (Suc (length (uleb v))) @ char_of (4 :: nat) # uleb v"
| "encode (Other_extended op bs) = char_of (0 :: nat) # uleb (Suc (length bs)) @ char_of op # bs"

text \<open>What the instruction is documented to do to the registers.\<close>

fun exec :: "line_header \<Rightarrow> line_instr \<Rightarrow> line_regs \<Rightarrow> step_result \<times> line_regs" where
  "exec h (Special op) r =
     (Step_COMMIT, row_flags_reset (add_line (add_address r (lh_min_length h * ((op - lh_opcode_base h) div lh_line_range h)))
        (lh_line_base h + int ((op - lh_opcode_base h) mod lh_line_range h))))"
| "exec h Copy r = (Step_COMMIT, row_flags_reset r)"
| "exec h (Advance_pc v) r = (Step_CONTINUE, add_address r (lh_min_length h * v))"
| "exec h (Advance_line v) r = (Step_CONTINUE, add_line r v)"
| "exec h (Set_file v) r = (Step_CONTINUE, r\<lparr>reg_file := v\<rparr>)"
| "exec h (Set_column v) r = (Step_CONTINUE, r\<lparr>reg_column := v\<rparr>)"
| "exec h Negate_stmt r = (Step_CONTINUE, r\<lparr>reg_is_stmt := \<not> reg_is_stmt r\<rparr>)"
| "exec h Set_basic_block r = (Step_CONTINUE, r\<lparr>reg_basic_block := True\<rparr>)"
| "exec h Const_add_pc r = (Step_CONTINUE, add_address r (lh_min_length h * ((255 - lh_opcode_base h) div lh_line_range h)))"
| "exec h (Fixed_advance_pc v) r = (Step_CONTINUE, add_address r v)"
| "exec h Set_prologue_end r = (Step_CONTINUE, r\<lparr>reg_prologue_end := True\<rparr>)"
| "exec h Set_epilogue_begin r = (Step_CONTINUE, r\<lparr>reg_epilogue_begin := True\<rparr>)"
| "exec h (Set_isa v) r = (Step_CONTINUE, r\<lparr>reg_isa := v\<rparr>)"
| "exec h (Vendor op args) r = (Step_CONTINUE, r)"
| "exec h End_sequence r = (Step_END, r)"
| "exec h (Set_address v) r = (Step_CONTINUE, r\<lparr>reg_address := v\<rparr>)"
| "exec h (Set_discriminator v) r = (Step_CONTINUE, r\<lparr>reg_discriminator := v\<rparr>)"
| "exec h (Other_extended op bs) r = (Step_CONTINUE, r)"

text \<open>An instruction that a program with this header, in this file, can contain.\<close>

fun instr_ok :: "line_header \<Rightarrow> string \<Rightarrow> line_instr \<Rightarrow> bool" where
  "instr_ok h mem (Special op) \<longleftrightarrow> lh_opcode_base h \<le> op \<and> op < 256 \<and> 0 < lh_line_range h"
| "instr_ok h mem (Advance_pc v) \<longleftrightarrow> v < 2 ^ 64"
| "instr_ok h mem (Advance_line v) \<longleftrightarrow> is_i64 v"
| "instr_ok h mem (Set_file v) \<longleftrightarrow> v < 2 ^ 64"
| "instr_ok h mem (Set_column v) \<longleftrightarrow> v < 2 ^ 64"
| "instr_ok h mem Const_add_pc \<longleftrightarrow> 0 < lh_line_range h"
| "instr_ok h mem (Fixed_advance_pc v) \<longleftrightarrow> v < 2 ^ 16"
| "instr_ok h mem Set_prologue_end \<longleftrightarrow> lh_version h \<noteq> 2"
| "instr_ok h mem Set_epilogue_begin \<longleftrightarrow> lh_version h \<noteq> 2"
| "instr_ok h mem (Set_isa v) \<longleftrightarrow> v < 2 ^ 64 \<and> lh_version h \<noteq> 2"
| "instr_ok h mem (Vendor op args) \<longleftrightarrow> 12 < op \<and> op < 256 \<and> (\<forall>a \<in> set args. a < 2 ^ 64) \<and>
     lh_standard_opcode_lengths h + (op - 1) < length mem \<and> of_char (mem ! (lh_standard_opcode_lengths h + (op - 1))) = length args"
| "instr_ok h mem (Set_address v) \<longleftrightarrow> v < 2 ^ 64"
| "instr_ok h mem (Set_discriminator v) \<longleftrightarrow> v < 2 ^ 64"
| "instr_ok h mem (Other_extended op bs) \<longleftrightarrow> op \<notin> {1, 2, 4} \<and> op < 256 \<and> length bs < 2 ^ 32"
| "instr_ok h mem _ \<longleftrightarrow> True"

lemma skip_args_text:
  assumes "text_at s (concat (map uleb args))" "1 < sp_len s" "\<forall>a \<in> set args. a < 2 ^ 64"
  shows "skip_args (length args) s = Inr (moved s (length (concat (map uleb args))))"
  using assms
proof (induction args arbitrary: s)
  case (Cons a args)
  then show ?case using ReadULEB_uleb [of s a] by (simp add: add.assoc)
qed simp

lemma uleb_ne [simp]: "uleb n \<noteq> []"
  by (simp add: uleb.simps [of n])

lemma uleb_length: "n < 128 ^ Suc k \<Longrightarrow> length (uleb n) \<le> Suc k"
proof (induction k arbitrary: n)
  case 0
  then show ?case by (simp add: uleb.simps [of n])
next
  case (Suc k)
  then have "n div 128 < 128 ^ Suc k" by (simp add: less_mult_imp_div_less)
  from Suc.IH [OF this] show ?case by (simp add: uleb.simps [of n])
qed

lemma Read_opcode:
  "text_at s (char_of op # bs) \<Longrightarrow> 1 < sp_len s \<Longrightarrow> op < 256 \<Longrightarrow> Read 1 s = Inr (op, moved s 1) \<and> text_at (moved s 1) bs"
  using text_at_Cons [of s "char_of op" bs] Read_byte [of s "char_of op"] by (simp add: of_char_of)

lemma add_address_u64: "add_address r (u64 d) = add_address r d"
  by (simp add: add_address_def u64_def mod_simps)

lemma add_line_bits: "add_line r (v mod 18446744073709551616) = add_line r v"
  by (simp add: add_line_def mod_simps)

lemma Step_extended_text:
  fixes op n :: nat
  assumes "text_at s (uleb n @ char_of op # bs)" "9 < sp_len s" "0 < n" "n < 2 ^ 64" "op < 256"
  defines "s2 \<equiv> moved s (length (uleb n) + 1)"
  shows "Step_extended r s =
      (if op = 1 then Inr (Step_END, r, s2)
       else if op = 2 then bindR (Read 8 s2) (\<lambda>(v, s). Inr (Step_CONTINUE, r\<lparr>reg_address := v\<rparr>, s))
       else if op = 4 then bindR (ReadULEB s2) (\<lambda>(v, s). Inr (Step_CONTINUE, r\<lparr>reg_discriminator := v\<rparr>, s))
       else bindR (StringPiece_advance s2 (n - 1)) (\<lambda>s. Inr (Step_CONTINUE, r, s)))"
    "text_at s2 bs"
proof -
  have 1: "ReadULEB s = Inr (n, moved s (length (uleb n)))" using assms by (intro ReadULEB_uleb) auto
  have 2: "Read 1 (moved s (length (uleb n))) = Inr (op, s2) \<and> text_at s2 bs"
    using Read_opcode [of "moved s (length (uleb n))" op bs] assms by simp
  show "text_at s2 bs" using 2 by simp
  show "Step_extended r s =
      (if op = 1 then Inr (Step_END, r, s2)
       else if op = 2 then bindR (Read 8 s2) (\<lambda>(v, s). Inr (Step_CONTINUE, r\<lparr>reg_address := v\<rparr>, s))
       else if op = 4 then bindR (ReadULEB s2) (\<lambda>(v, s). Inr (Step_CONTINUE, r\<lparr>reg_discriminator := v\<rparr>, s))
       else bindR (StringPiece_advance s2 (n - 1)) (\<lambda>s. Inr (Step_CONTINUE, r, s)))"
    using assms(3) 1 2 by (simp add: Step_extended_def)
qed

definition instr_fits :: "line_header \<Rightarrow> string \<Rightarrow> line_instr \<Rightarrow> bool" where
  "instr_fits h mem i \<longleftrightarrow> instr_ok h mem i \<and>
     ((\<exists>op. i = Special op) \<or> of_char (hd (encode i)) < lh_opcode_base h)"

definition step_to :: "string_piece \<Rightarrow> line_instr \<Rightarrow> step_result \<times> line_regs \<Rightarrow> (step_result \<times> line_regs \<times> string_piece) result" where
  "step_to s i x = Inr (fst x, snd x, moved s (length (encode i)))"

lemma Step_extended_encode:
  assumes "text_at s (char_of (0 :: nat) # bs)" "9 < sp_len s" "0 < lh_opcode_base h"
  shows "LineNumberVM_Step h r s = Step_extended r (moved s 1) \<and> text_at (moved s 1) bs"
  using Read_opcode [of s 0 bs] assms by (simp_all add: LineNumberVM_Step_def)

lemma Step_standard_encode:
  assumes "text_at s (char_of op # bs)" "9 < sp_len s" "op < 256" "0 < op" "op < lh_opcode_base h"
  shows "LineNumberVM_Step h r s = Step_standard h op r (moved s 1) \<and> text_at (moved s 1) bs"
  using Read_opcode [of s op bs] assms by (simp_all add: LineNumberVM_Step_def)

lemma Step_encode_extended:
  assumes "text_at s (encode i)" "instr_ok h (sp_mem s) i" "0 < lh_opcode_base h" "9 < sp_len s" "length (encode i) < sp_len s"
    "i \<in> {End_sequence, Set_address v, Set_discriminator v, Other_extended op bs}"
  shows "LineNumberVM_Step h r s = step_to s i (exec h i r)"
proof -
  have 9: "9 < sp_len (moved s 1)" using assms(4) by simp
  consider (e) "i = End_sequence" | (a) "i = Set_address v" | (d) "i = Set_discriminator v" | (x) "i = Other_extended op bs"
    using assms(6) by blast
  then show ?thesis
  proof cases
    case e
    note st = Step_extended_encode [of s "uleb 1 @ [char_of (1 :: nat)]" h r]
    then show ?thesis using Step_extended_text(1) [of "moved s 1" 1 1 "[]" r] assms 9 e
      by (simp add: step_to_def)
  next
    case a
    note st = Step_extended_encode [of s "uleb 9 @ char_of (2 :: nat) # le_bytes 8 v" h r]
    then have "text_at (moved s 1) (uleb 9 @ char_of (2 :: nat) # le_bytes 8 v)" using assms a by simp
    from Step_extended_text(1) [OF this 9, of r] Step_extended_text(2) [OF this 9] Read_le_bytes [of "moved s (Suc (length (uleb 9) + 1))" 8 v] st assms a
    show ?thesis by (simp add: step_to_def)
  next
    case d
    note st = Step_extended_encode [of s "uleb (Suc (length (uleb v))) @ char_of (4 :: nat) # uleb v" h r]
    then have "text_at (moved s 1) (uleb (Suc (length (uleb v))) @ char_of (4 :: nat) # uleb v)" using assms d by simp
    moreover have "length (uleb v) \<le> 10" using assms(2) d by (intro uleb_length [of v 9, simplified]) simp
    ultimately show ?thesis
      using Step_extended_text(1) [of "moved s 1" "Suc (length (uleb v))" 4 "uleb v" r]
        Step_extended_text(2) [of "moved s 1" "Suc (length (uleb v))" 4 "uleb v"] 9
        ReadULEB_uleb [of "moved s (Suc (length (uleb (Suc (length (uleb v)))) + 1))" v] st assms d
      by (simp add: step_to_def)
  next
    case x
    note st = Step_extended_encode [of s "uleb (Suc (length bs)) @ char_of op # bs" h r]
    then have "text_at (moved s 1) (uleb (Suc (length bs)) @ char_of op # bs)" using assms x by simp
    then show ?thesis
      using Step_extended_text(1) [of "moved s 1" "Suc (length bs)" op bs r] 9 st assms x
      by (simp add: step_to_def StringPiece_advance_def moved_def)
  qed
qed

lemma Step_encode_standard:
  assumes "text_at s (encode i)" "instr_fits h (sp_mem s) i" "9 < sp_len s"
    "of_char (hd (encode i)) \<noteq> (0 :: nat)" "\<not> (\<exists>op. i = Special op)"
  shows "LineNumberVM_Step h r s = step_to s i (exec h i r)"
proof -
  define op :: nat where "op = of_char (hd (encode i))"
  obtain bs where enc: "encode i = char_of op # bs"
    by (cases "encode i") (auto simp: op_def, cases i, auto)
  have op: "op < 256" "0 < op" "op < lh_opcode_base h" "instr_ok h (sp_mem s) i"
    using assms(2,4,5) by (auto simp: op_def instr_fits_def)
  from Step_standard_encode [OF assms(1) [unfolded enc] assms(3) op(1,2,3), of r]
  have st: "LineNumberVM_Step h r s = Step_standard h op r (moved s 1)" and bs: "text_at (moved s 1) bs" by auto
  have l: "1 < sp_len (moved s 1)" using assms(3) by simp
  have l2: "2 < sp_len (moved s 1)" using assms(3) by simp
  show ?thesis
  proof (cases i)
    case (Advance_pc v)
    with enc have "op = 2" "bs = uleb v" by (simp_all add: op_def of_char_of)
    then show ?thesis using st bs op ReadULEB_uleb [OF _ l, of v] Advance_pc by (simp add: Step_standard_def step_to_def add_address_u64)
  next
    case (Advance_line v)
    with enc have "op = 3" "bs = sleb v" by (simp_all add: op_def of_char_of)
    then show ?thesis using st bs op ReadSLEB_sleb [OF _ l, of v] Advance_line by (simp add: Step_standard_def step_to_def add_line_bits)
  next
    case (Set_file v)
    with enc have "op = 4" "bs = uleb v" by (simp_all add: op_def of_char_of)
    then show ?thesis using st bs op ReadULEB_uleb [OF _ l, of v] Set_file by (simp add: Step_standard_def step_to_def )
  next
    case (Set_column v)
    with enc have "op = 5" "bs = uleb v" by (simp_all add: op_def of_char_of)
    then show ?thesis using st bs op ReadULEB_uleb [OF _ l, of v] Set_column by (simp add: Step_standard_def step_to_def )
  next
    case Negate_stmt
    with enc have "op = 6" "bs = []" by (simp_all add: op_def of_char_of)
    then show ?thesis using st bs op  Negate_stmt by (simp add: Step_standard_def step_to_def )
  next
    case Set_basic_block
    with enc have "op = 7" "bs = []" by (simp_all add: op_def of_char_of)
    then show ?thesis using st bs op  Set_basic_block by (simp add: Step_standard_def step_to_def )
  next
    case Const_add_pc
    with enc have "op = 8" "bs = []" by (simp_all add: op_def of_char_of)
    then show ?thesis using st bs op  Const_add_pc by (simp add: Step_standard_def step_to_def )
  next
    case (Fixed_advance_pc v)
    with enc have "op = 9" "bs = le_bytes 2 v" by (simp_all add: op_def of_char_of)
    then show ?thesis using st bs op Read_le_bytes [of "moved s 1" 2 v] l2 Fixed_advance_pc by (simp add: Step_standard_def step_to_def )
  next
    case Set_prologue_end
    with enc have "op = 10" "bs = []" by (simp_all add: op_def of_char_of)
    then show ?thesis using st bs op  Set_prologue_end by (simp add: Step_standard_def step_to_def )
  next
    case Set_epilogue_begin
    with enc have "op = 11" "bs = []" by (simp_all add: op_def of_char_of)
    then show ?thesis using st bs op  Set_epilogue_begin by (simp add: Step_standard_def step_to_def )
  next
    case (Set_isa v)
    with enc have "op = 12" "bs = uleb v" by (simp_all add: op_def of_char_of)
    then show ?thesis using st bs op ReadULEB_uleb [OF _ l, of v] Set_isa by (simp add: Step_standard_def step_to_def )
  next
    case Copy
    with enc have "op = 1" "bs = []" by (simp_all add: op_def of_char_of)
    then show ?thesis using st bs op  Copy by (simp add: Step_standard_def step_to_def )
  next
    case (Vendor vop args)
    then have "op = vop" "bs = concat (map uleb args)" using enc op by (auto simp: op_def of_char_of)
    then show ?thesis using st bs op Vendor skip_args_text [OF _ l, of args]
      by (simp add: Step_standard_def step_to_def skip_standard_def)
  qed (use assms(4,5) in \<open>simp_all add: of_char_of\<close>)
qed

lemma Step_encode_special:
  assumes "text_at s (encode (Special op))" "instr_ok h (sp_mem s) (Special op)" "9 < sp_len s"
  shows "LineNumberVM_Step h r s = step_to s (Special op) (exec h (Special op) r)"
  using Read_opcode [of s op "[]"] assms by (simp add: LineNumberVM_Step_def Step_special_def step_to_def Let_def)

lemma Step_encode:
  assumes "text_at s (encode i)" "instr_fits h (sp_mem s) i" "9 < sp_len s" "length (encode i) < sp_len s"
  shows "LineNumberVM_Step h r s = step_to s i (exec h i r)"
proof (cases "\<exists>op. i = Special op")
  case True
  then show ?thesis using Step_encode_special assms by (auto simp: instr_fits_def)
next
  case False
  show ?thesis
  proof (cases "of_char (hd (encode i)) = (0 :: nat)")
    case True
    then have "\<exists>v op bs. i \<in> {End_sequence, Set_address v, Set_discriminator v, Other_extended op bs}"
      using False assms(2) by (cases i) (auto simp: instr_fits_def of_char_of)
    then show ?thesis using Step_encode_extended [OF assms(1) _ _ assms(3,4)] assms(2) True False
      by (auto simp: instr_fits_def simp del: encode.simps exec.simps)
  next
    case nz: False
    then show ?thesis using Step_encode_standard [OF assms(1-3)] False by simp
  qed
qed

subsection \<open>The rows of a program and the lookup in them\<close>

text \<open>The matrix the instructions build: each row with whether it was committed or ends its sequence.\<close>

fun rows :: "line_header \<Rightarrow> line_regs \<Rightarrow> line_instr list \<Rightarrow> (bool \<times> line_regs) list" where
  "rows h r [] = []"
| "rows h r (i # is) =
     (case exec h i r of
        (Step_CONTINUE, r') \<Rightarrow> rows h r' is
      | (Step_COMMIT, r') \<Rightarrow> (True, r') # rows h r' is
      | (Step_END, r') \<Rightarrow> (False, r') # rows h (LineNumberVM_Reset h) is)"

fun find_rows :: "nat \<Rightarrow> find_state \<Rightarrow> nat \<Rightarrow> nat \<Rightarrow> (bool \<times> line_regs) list \<Rightarrow> (nat \<times> nat) option" where
  "find_rows target state pf pl [] = None"
| "find_rows target state pf pl ((committed, r) # rest) =
     (let state = (if state = State_START \<and> committed
                   then (if reg_address r \<le> target then State_LOW_SEQ else State_HIGH_SEQ) else state)
      in if state = State_LOW_SEQ \<and> target < reg_address r then Some (pf, pl)
         else find_rows target (if committed then state else State_START)
                (if state = State_LOW_SEQ then reg_file r else pf) (if state = State_LOW_SEQ then reg_line r else pl) rest)"

definition program_at :: "line_header \<Rightarrow> string_piece \<Rightarrow> line_instr list \<Rightarrow> bool" where
  "program_at h s instrs \<longleftrightarrow> text_at s (concat (map encode instrs)) \<and> 9 < sp_len s \<and>
     (\<forall>i \<in> set instrs. instr_fits h (sp_mem s) i \<and> length (encode i) < sp_len s)"

lemma program_at_Cons:
  assumes "program_at h s (i # is)"
  shows "program_at h (moved s (length (encode i))) is" "LineNumberVM_Step h r s = step_to s i (exec h i r)"
    "\<not> StringPiece_empty s"
  using assms Step_encode [of s i h r] by (auto simp: program_at_def StringPiece_empty_def)

lemma FindAddress_continue:
  assumes "LineNumberVM_Step h r s = Inr (Step_CONTINUE, r', s')" "\<not> StringPiece_empty s" "\<not> StringPiece_empty s'"
  shows "FindAddress_loop h target state pf pl r s = FindAddress_loop h target state pf pl r' s'"
proof -
  have "LineNumberVM_Next h r s = LineNumberVM_Next h r' s'"
    using assms(1) by (simp add: LineNumberVM_Next.simps [of h r s])
  then show ?thesis
    using assms(2,3)
    by (simp add: FindAddress_loop.simps [of h target state pf pl r s] FindAddress_loop.simps [of h target state pf pl r' s'])
qed

lemma FindAddress_row:
  assumes "LineNumberVM_Step h r s = Inr (ret, r', s')" "ret \<noteq> Step_CONTINUE" "\<not> StringPiece_empty s"
  shows "FindAddress_loop h target state pf pl r s =
    (let state = (if state = State_START \<and> ret = Step_COMMIT
                  then (if reg_address r' \<le> target then State_LOW_SEQ else State_HIGH_SEQ) else state)
     in if state = State_LOW_SEQ \<and> target < reg_address r' then found_line h pf pl
        else FindAddress_loop h target (if ret = Step_COMMIT then state else State_START)
               (if state = State_LOW_SEQ then reg_file r' else pf) (if state = State_LOW_SEQ then reg_line r' else pl)
               (if ret = Step_COMMIT then r' else LineNumberVM_Reset h) s')"
proof -
  have "LineNumberVM_Next h r s = Inr (ret = Step_COMMIT, r', s')"
    using assms(1,2) by (simp add: LineNumberVM_Next.simps [of h r s])
  then show ?thesis
    using assms(3) by (simp add: FindAddress_loop.simps [of h target state pf pl r s] Let_def)
qed

lemma program_piece_nonempty: "program_at h s is \<Longrightarrow> \<not> StringPiece_empty s"
  by (auto simp: program_at_def StringPiece_empty_def)

lemma FindAddress_loop_rows:
  assumes "program_at h s instrs" "find_rows target state pf pl (rows h r instrs) = Some (f, l)"
  shows "FindAddress_loop h target state pf pl r s = found_line h f l"
  using assms
proof (induction instrs arbitrary: s r state pf pl)
  case (Cons i "is")
  obtain ret r' where x: "exec h i r = (ret, r')" by fastforce
  define s' where "s' = moved s (length (encode i))"
  note p = program_at_Cons [OF Cons.prems(1)]
  have st: "LineNumberVM_Step h r s = Inr (ret, r', s')" using p(2) [of r] x by (simp add: step_to_def s'_def)
  have p': "program_at h s' is" using p(1) by (simp add: s'_def)
  show ?case
  proof (cases ret)
    case Step_CONTINUE
    then show ?thesis
      using FindAddress_continue [of h r s r' s'] st p(3) program_piece_nonempty [OF p'] Cons.IH [OF p'] Cons.prems(2) x by simp
  next
    case Step_COMMIT
    then show ?thesis
      using FindAddress_row [OF st, of target state pf pl] p(3) Cons.IH [OF p'] Cons.prems(2) x
      by (simp add: Let_def split: if_splits)
  next
    case Step_END
    then show ?thesis
      using FindAddress_row [OF st, of target state pf pl] p(3) Cons.IH [OF p'] Cons.prems(2) x
      by (simp add: Let_def split: if_splits)
  qed
qed simp

lemma FindAddress_loop_exhausted:
  assumes "program_at h s instrs" "sp_ptr s + length (concat (map encode instrs)) = length (sp_mem s)"
    "find_rows target state pf pl (rows h r instrs) = None"
  shows "FindAddress_loop h target state pf pl r s = Inl Out_Of_Bounds"
  using assms
proof (induction instrs arbitrary: s r state pf pl)
  case Nil
  then have "LineNumberVM_Step h r s = Inl Out_Of_Bounds"
    by (simp add: program_at_def LineNumberVM_Step_def Read_def read_block_def)
  then show ?case using program_piece_nonempty [OF Nil(1)]
    by (simp add: FindAddress_loop.simps [of h target state pf pl r s] LineNumberVM_Next.simps [of h r s])
next
  case (Cons i "is")
  obtain ret r' where x: "exec h i r = (ret, r')" by fastforce
  define s' where "s' = moved s (length (encode i))"
  note p = program_at_Cons [OF Cons.prems(1)]
  have st: "LineNumberVM_Step h r s = Inr (ret, r', s')" using p(2) [of r] x by (simp add: step_to_def s'_def)
  have p': "program_at h s' is" "sp_ptr s' + length (concat (map encode is)) = length (sp_mem s')"
    using p(1) Cons.prems(2) by (simp_all add: s'_def)
  show ?case
  proof (cases ret)
    case Step_CONTINUE
    then show ?thesis
      using FindAddress_continue [of h r s r' s'] st p(3) program_piece_nonempty [OF p'(1)] Cons.IH [OF p'] Cons.prems(3) x by simp
  next
    case Step_COMMIT
    then show ?thesis
      using FindAddress_row [OF st, of target state pf pl] p(3) Cons.IH [OF p'] Cons.prems(3) x
      by (simp add: Let_def split: if_splits)
  next
    case Step_END
    then show ?thesis
      using FindAddress_row [OF st, of target state pf pl] p(3) Cons.IH [OF p'] Cons.prems(3) x
      by (simp add: Let_def split: if_splits)
  qed
qed

type_synonym line_seq = "line_regs list \<times> line_regs"

definition seq_rows :: "line_seq \<Rightarrow> (bool \<times> line_regs) list" where
  "seq_rows q = map (Pair True) (fst q) @ [(False, snd q)]"

definition seq_sorted :: "line_seq \<Rightarrow> bool" where
  "seq_sorted q \<longleftrightarrow> sorted (map reg_address (fst q @ [snd q]))"

definition covers :: "line_seq \<Rightarrow> nat \<Rightarrow> bool" where
  "covers q target \<longleftrightarrow> fst q \<noteq> [] \<and> reg_address (hd (fst q)) \<le> target \<and> target < reg_address (snd q)"

lemma find_rows_high: "find_rows t State_HIGH_SEQ pf pl (map (Pair True) rs @ (False, e) # rest) = find_rows t State_START pf pl rest"
  by (induction rs) auto

lemma find_rows_low:
  assumes "sorted (map reg_address (rs @ [e]))" "target < reg_address e"
  shows "find_rows target State_LOW_SEQ pf pl (map (Pair True) rs @ (False, e) # rest) =
    (case filter (\<lambda>r. reg_address r \<le> target) rs of [] \<Rightarrow> Some (pf, pl)
     | q # qs \<Rightarrow> Some (reg_file (last (q # qs)), reg_line (last (q # qs))))"
  using assms
proof (induction rs arbitrary: pf pl)
  case (Cons a rs)
  then have "\<not> reg_address a \<le> target \<Longrightarrow> filter (\<lambda>r. reg_address r \<le> target) rs = []"
    by (auto simp: filter_empty_conv)
  with Cons show ?case by (auto split: list.splits)
qed simp

lemma find_rows_low_miss:
  assumes "\<forall>r \<in> set (rs @ [e]). reg_address r \<le> target"
  shows "find_rows target State_LOW_SEQ pf pl (map (Pair True) rs @ (False, e) # rest) =
    find_rows target State_START (reg_file e) (reg_line e) rest"
  using assms by (induction rs arbitrary: pf pl) auto

lemma find_rows_skip:
  assumes "seq_sorted q" "\<not> covers q target"
  shows "\<exists>pf' pl'. find_rows target State_START pf pl (seq_rows q @ rest) = find_rows target State_START pf' pl' rest"
proof (cases "fst q")
  case Nil
  then show ?thesis by (auto simp: seq_rows_def)
next
  case (Cons a rs)
  show ?thesis
  proof (cases "reg_address a \<le> target")
    case True
    then have "reg_address (snd q) \<le> target" using assms(2) Cons by (simp add: covers_def)
    then have "\<forall>r \<in> set (rs @ [snd q]). reg_address r \<le> target"
      using assms(1) Cons by (auto simp: seq_sorted_def sorted_append)
    then show ?thesis using Cons True find_rows_low_miss [of rs "snd q" target] by (auto simp: seq_rows_def)
  next
    case False
    then show ?thesis using Cons find_rows_high by (auto simp: seq_rows_def)
  qed
qed

lemma find_rows_hit:
  assumes "seq_sorted q" "covers q target"
  shows "find_rows target State_START pf pl (seq_rows q @ rest) =
    (let r = last (filter (\<lambda>r. reg_address r \<le> target) (fst q)) in Some (reg_file r, reg_line r))"
proof (cases "fst q")
  case (Cons a rs)
  then have "sorted (map reg_address (rs @ [snd q]))" "reg_address a \<le> target" "target < reg_address (snd q)"
    using assms by (auto simp: seq_sorted_def covers_def)
  then show ?thesis using Cons find_rows_low [of rs "snd q" target "reg_file a" "reg_line a" rest]
    by (auto simp: seq_rows_def Let_def split: list.splits)
qed (use assms in \<open>simp add: covers_def\<close>)

lemma find_rows_seqs:
  assumes "\<forall>q \<in> set pre. seq_sorted q \<and> \<not> covers q target" "seq_sorted q" "covers q target"
  shows "find_rows target State_START pf pl (concat (map seq_rows pre) @ seq_rows q @ rest) =
    (let r = last (filter (\<lambda>r. reg_address r \<le> target) (fst q)) in Some (reg_file r, reg_line r))"
  using assms(1)
proof (induction pre arbitrary: pf pl)
  case Nil
  then show ?case using find_rows_hit [OF assms(2,3)] by simp
next
  case (Cons x pre)
  obtain pf' pl' where "find_rows target State_START pf pl (seq_rows x @ concat (map seq_rows pre) @ seq_rows q @ rest) =
      find_rows target State_START pf' pl' (concat (map seq_rows pre) @ seq_rows q @ rest)"
    using find_rows_skip [of x target] Cons.prems by fastforce
  with Cons show ?case by simp
qed

text \<open>
  C11: the interpreter implements the instruction set. Wherever the encoding of an instruction lies, \<open>Step\<close>
  has the documented effect on the registers and stops right behind the instruction, for every
  special, standard, vendor and extended opcode.
\<close>
theorem Step_refines_exec:
  assumes "text_at s (encode i)" "instr_fits h (sp_mem s) i" "9 < sp_len s" "length (encode i) < sp_len s"
  shows "LineNumberVM_Step h r s = Inr (fst (exec h i r), snd (exec h i r), moved s (length (encode i)))"
  using Step_encode [OF assms] by (simp add: step_to_def)

definition demo_header :: "string_piece \<Rightarrow> line_header" where
  "demo_header s =
     \<lparr>lh_is_64_bits = False, lh_data = s, lh_compilation_directory = StringPiece_null, lh_version = 2, lh_min_length = 1,
      lh_default_is_stmt = True, lh_line_base = - 5, lh_line_range = 14, lh_opcode_base = 10, lh_standard_opcode_lengths = 0,
      lh_include_directories = StringPiece_null, lh_include_directory_count = 0, lh_file_names = StringPiece_null,
      lh_file_name_count = 0\<rparr>"

definition demo_program :: "line_instr list" where
  "demo_program = [Set_address 4096, Advance_line 6, Copy, Special 75, Advance_pc 16, End_sequence]"

definition demo_piece :: string_piece where
  "demo_piece = StringPiece_of_string (concat (map encode demo_program))"

lemma Step_refines_exec_witness:
  "LineNumberVM_Step (demo_header demo_piece) (LineNumberVM_Reset (demo_header demo_piece)) demo_piece =
     Inr (Step_CONTINUE, (LineNumberVM_Reset (demo_header demo_piece))\<lparr>reg_address := 4096\<rparr>, moved demo_piece 11)"
proof -
  have l: "length (uleb 9) = 1" by (simp add: uleb.simps)
  have t: "text_at demo_piece (encode (Set_address 4096))" "9 < sp_len demo_piece" "length (encode (Set_address 4096)) < sp_len demo_piece"
    by (auto simp: demo_piece_def demo_program_def StringPiece_of_string_def text_at_def l)
  have "instr_fits (demo_header demo_piece) (sp_mem demo_piece) (Set_address 4096)"
    by (simp add: instr_fits_def demo_header_def)
  from Step_refines_exec [OF t(1) this t(2,3), of "LineNumberVM_Reset (demo_header demo_piece)"] show ?thesis by (simp add: l)
qed

text \<open>
  C12: address lookup is right on well-formed programs. When the sequences before do not contain the target and
  addresses inside each sequence do not decrease, the lookup answers with file and line of
  the last row at or below the target in the sequence that contains it.
\<close>
theorem Line_lookup_finds:
  assumes "program_at h (lh_data h) instrs"
    "rows h (LineNumberVM_Reset h) instrs = concat (map seq_rows pre) @ seq_rows q @ rest"
    "\<forall>q \<in> set pre. seq_sorted q \<and> \<not> covers q target" "seq_sorted q" "covers q target"
  shows "LineNumberVM_FindAddress h target =
    (let r = last (filter (\<lambda>r. reg_address r \<le> target) (fst q)) in found_line h (reg_file r) (reg_line r))"
  using FindAddress_loop_rows [OF assms(1)] find_rows_seqs [OF assms(3-5), of 0 0 rest] assms(2)
  by (simp add: LineNumberVM_FindAddress_def Let_def)

lemma demo_program_at: "program_at (demo_header demo_piece) demo_piece demo_program"
proof -
  have l: "length (uleb 9) = 1" "length (uleb 16) = 1" "length (uleb (Suc 0)) = 1" "length (sleb 6) = 1"
    by (simp_all add: uleb.simps [of 9] uleb.simps [of 16] uleb.simps [of "Suc 0"] sleb.simps [of 6])
  have "sp_len demo_piece = 20" by (simp add: demo_piece_def StringPiece_of_string_def demo_program_def l)
  moreover have "text_at demo_piece (concat (map encode demo_program))"
    by (simp add: demo_piece_def StringPiece_of_string_def text_at_def)
  ultimately show ?thesis
    by (simp add: program_at_def instr_fits_def demo_program_def demo_header_def l is_i64_def of_char_of)
qed

definition demo_regs :: "nat \<Rightarrow> nat \<Rightarrow> line_regs" where
  "demo_regs address line = (LineNumberVM_Reset (demo_header demo_piece))\<lparr>reg_address := address, reg_line := line\<rparr>"

lemma demo_rows:
  "rows (demo_header demo_piece) (LineNumberVM_Reset (demo_header demo_piece)) demo_program =
     seq_rows ([demo_regs 4096 7, demo_regs 4100 11], demo_regs 4116 11)"
  by (simp add: demo_program_def seq_rows_def demo_regs_def add_address_def add_line_def row_flags_reset_def
      LineNumberVM_Reset_def demo_header_def u64_def)

lemma demo_sorted: "seq_sorted ([demo_regs 4096 7, demo_regs 4100 11], demo_regs 4116 11)"
  by (simp add: seq_sorted_def demo_regs_def)

lemma Line_lookup_finds_witness:
  "LineNumberVM_FindAddress (demo_header demo_piece) 4098 = found_line (demo_header demo_piece) 1 7"
proof -
  have "covers ([demo_regs 4096 7, demo_regs 4100 11], demo_regs 4116 11) 4098" by (simp add: covers_def demo_regs_def)
  then show ?thesis
    using Line_lookup_finds [of "demo_header demo_piece" demo_program "[]" "([demo_regs 4096 7, demo_regs 4100 11], demo_regs 4116 11)" "[]" 4098]
      demo_program_at demo_rows demo_sorted
    by (simp add: demo_header_def demo_regs_def LineNumberVM_Reset_def)
qed

lemma find_rows_none:
  assumes "\<forall>q \<in> set qs. seq_sorted q \<and> \<not> covers q target"
  shows "find_rows target State_START pf pl (concat (map seq_rows qs)) = None"
  using assms
proof (induction qs arbitrary: pf pl)
  case (Cons x qs)
  then show ?case using find_rows_skip [of x target pf pl "concat (map seq_rows qs)"] by auto
qed simp

text \<open>
  A lookup that finds nothing does not return \<open>false\<close>. The loop waits for the program to become empty, which
  \<open>advance\<close> never makes it, so when no sequence contains the target the interpreter runs past the last
  instruction and, at the end of the mapped file, reads out of bounds.
\<close>
theorem Line_lookup_miss:
  assumes "program_at h (lh_data h) instrs"
    "sp_ptr (lh_data h) + length (concat (map encode instrs)) = length (sp_mem (lh_data h))"
    "rows h (LineNumberVM_Reset h) instrs = concat (map seq_rows qs)"
    "\<forall>q \<in> set qs. seq_sorted q \<and> \<not> covers q target"
  shows "LineNumberVM_FindAddress h target = Inl Out_Of_Bounds"
  using FindAddress_loop_exhausted [OF assms(1,2)] find_rows_none [OF assms(4)] assms(3)
  by (simp add: LineNumberVM_FindAddress_def)

subsection \<open>The file table\<close>

definition encode_file :: "string \<times> nat \<times> nat \<times> nat \<Rightarrow> string" where
  "encode_file f = (case f of (name, directory, mtime, bytes) \<Rightarrow> name @ CHR 0x00 # uleb directory @ uleb mtime @ uleb bytes)"

definition file_ok :: "string \<times> nat \<times> nat \<times> nat \<Rightarrow> bool" where
  "file_ok f = (case f of (name, directory, mtime, bytes) \<Rightarrow>
     name \<noteq> [] \<and> CHR 0x00 \<notin> set name \<and> directory < 2 ^ 64 \<and> mtime < 2 ^ 64 \<and> bytes < 2 ^ 64)"

lemma ReadFileName_text:
  assumes "text_at s (encode_file (name, directory, mtime, bytes))" "file_ok (name, directory, mtime, bytes)" "length name + 2 < sp_len s"
  shows "ReadFileName s = Inr (Some (s\<lparr>sp_len := length name\<rparr>, directory),
    s\<lparr>sp_ptr := sp_ptr s + length (encode_file (name, directory, mtime, bytes)), sp_len := sp_len s - length name - 1\<rparr>)"
proof -
  define s1 where "s1 = s\<lparr>sp_ptr := sp_ptr s + length name + 1, sp_len := sp_len s - length name - 1\<rparr>"
  have t: "text_at s (name @ [CHR 0x00])" "text_at (moved s (length name + 1)) (uleb directory @ uleb mtime @ uleb bytes)"
    using assms(1) text_at_append [of s "name @ [CHR 0x00]" "uleb directory @ uleb mtime @ uleb bytes"]
    by (simp_all add: encode_file_def)
  have "text_at s1 (uleb directory @ uleb mtime @ uleb bytes)" using t(2) by (simp add: text_at_def s1_def)
  then have u: "text_at s1 (uleb directory)" "text_at (moved s1 (length (uleb directory))) (uleb mtime)"
    "text_at (moved s1 (length (uleb directory) + length (uleb mtime))) (uleb bytes)" by simp_all
  have l: "1 < sp_len s1" using assms(3) by (simp add: s1_def)
  have n: "ReadNullTerminated s = Inr (s\<lparr>sp_len := length name\<rparr>, s1)"
    using ReadNullTerminated_text [OF t(1)] assms(2,3) by (simp add: file_ok_def s1_def)
  show ?thesis
    using n ReadULEB_uleb [OF u(1)] ReadULEB_uleb [OF u(2)] ReadULEB_uleb [OF u(3)] l assms(2)
    by (simp add: ReadFileName_def file_ok_def StringPiece_empty_def moved_def s1_def encode_file_def add.assoc)
qed

lemma read_nth_file_text:
  assumes "text_at s (concat (map encode_file fs))" "\<forall>f \<in> set fs. file_ok f" "length (concat (map encode_file fs)) < sp_len s" "k < length fs"
  shows "\<exists>piece. read_nth_file (Suc k) s fn = Inr (piece, fst (snd (fs ! k))) \<and> view piece = fst (fs ! k)"
  using assms
proof (induction fs arbitrary: s k fn)
  case (Cons f fs)
  obtain name directory mtime bytes where f: "f = (name, directory, mtime, bytes)" using prod_cases4 by blast
  define s1 where "s1 = s\<lparr>sp_ptr := sp_ptr s + length (encode_file f), sp_len := sp_len s - length name - 1\<rparr>"
  have at: "text_at s (encode_file f)" "text_at (moved s (length (encode_file f))) (concat (map encode_file fs))"
    using Cons.prems(1) by simp_all
  have u: "1 \<le> length (uleb directory)" "1 \<le> length (uleb mtime)" "1 \<le> length (uleb bytes)" by (simp_all add: Suc_le_eq)
  then have "length name + 4 \<le> length (encode_file f)" by (simp add: f encode_file_def)
  moreover have "length (encode_file f) + length (concat (map encode_file fs)) < sp_len s" using Cons.prems(3) by simp
  ultimately have len: "length name + 4 \<le> length (encode_file f)" "length (encode_file f) + length (concat (map encode_file fs)) < sp_len s" .
  have step: "ReadFileName s = Inr (Some (s\<lparr>sp_len := length name\<rparr>, directory), s1)"
    using ReadFileName_text [of s name directory mtime bytes] at(1) Cons.prems(2) len by (simp add: f s1_def)
  show ?case
  proof (cases k)
    case 0
    have "text_at s name" using at(1) text_at_append [of s name] by (simp add: f encode_file_def)
    then show ?thesis using step 0 text_at_view by (simp add: f)
  next
    case (Suc k')
    have "text_at s1 (concat (map encode_file fs))" using at(2) by (simp add: text_at_def s1_def)
    moreover have "length (concat (map encode_file fs)) < sp_len s1" using len by (simp add: s1_def)
    ultimately show ?thesis using Cons.IH [of s1 k'] step Suc Cons.prems by simp
  qed
qed simp

text \<open>
  File indices. An index of the header's table gives the entry the table encodes there, name and
  directory; an index past the table, which the standard assigns to files defined in the program
  by \<open>DW_LNE_define_file\<close>, is never resolved, because \<open>NextDefineFile\<close> compares the wrong opcode.
\<close>
theorem GetFileName_table:
  assumes "text_at (lh_file_names h) (concat (map encode_file fs))" "\<forall>f \<in> set fs. file_ok f" "lh_file_name_count h = length fs"
    "length (concat (map encode_file fs)) < sp_len (lh_file_names h)" "0 < index"
  shows "if index \<le> length fs
    then \<exists>piece. GetFileName h index = Inr (piece, fst (snd (fs ! (index - 1)))) \<and> view piece = fst (fs ! (index - 1))
    else \<forall>fn. GetFileName h index \<noteq> Inr fn"
proof (cases "index \<le> length fs")
  case True
  then show ?thesis
    using read_nth_file_text [OF assms(1,2,4), of "index - 1" "(StringPiece_null, 0)"] assms(3,5) by (simp add: GetFileName_def)
next
  case False
  have never: "NextDefineFile h s \<noteq> Inr (Some fn, s')" for s fn s'
  proof (induction h s rule: NextDefineFile.induct)
    case (1 h s)
    then show ?case by (subst NextDefineFile.simps) (auto split: if_splits)
  qed
  obtain k where "index - lh_file_name_count h = Suc k" using False assms(3) by (cases "index - length fs") auto
  then show ?thesis using False assms(3,5) never by (auto simp: GetFileName_def split: option.splits)
qed

end
