(* ===== verification/Dwarf.thy ===== *)
theory Dwarf
  imports Lines
begin

text \<open>
  The DWARF record parser on top of the readers and the line-number machine: abbreviations,
  attribute values, the address-range table and \<open>Dwarf::FindAddress\<close> (\<^verbatim>\<open>symbolizer/Dwarf.h,.cc\<close>).

  The five sections are pieces of the mapped file; how they are found by name is an argument
  (\<open>ElfFile::GetSectionByName\<close>). Form, attribute and tag numbers are those of the DWARF standard. A
  \<open>boost::variant\<close> read at the wrong type throws \<open>bad_get\<close>.
\<close>

subsection \<open>State\<close>

record dwarf =
  dw_has_elf :: bool
  dw_info :: string_piece
  dw_abbrev :: string_piece
  dw_aranges :: string_piece
  dw_line :: string_piece
  dw_strings :: string_piece

text \<open>The first section that is missing ends the chain of \<open>||\<close> and clears \<open>elf_\<close>.\<close>

fun load_sections ::
  "(string \<Rightarrow> string_piece option result) \<Rightarrow> (string \<times> (string_piece \<Rightarrow> dwarf \<Rightarrow> dwarf)) list \<Rightarrow> dwarf \<Rightarrow> dwarf result" where
  "load_sections GetSection [] d = Inr d"
| "load_sections GetSection ((name, store) # rest) d =
     bindR (GetSection name) (\<lambda>s.
       case s of
         None \<Rightarrow> Inr (d\<lparr>dw_has_elf := False\<rparr>)
       | Some section \<Rightarrow> load_sections GetSection rest (store section d))"

definition Dwarf_Init :: "(string \<Rightarrow> string_piece option result) \<Rightarrow> dwarf result" where
  "Dwarf_Init GetSection =
     load_sections GetSection
       [(''.debug_info'', \<lambda>s d. d\<lparr>dw_info := s\<rparr>), (''.debug_abbrev'', \<lambda>s d. d\<lparr>dw_abbrev := s\<rparr>),
        (''.debug_aranges'', \<lambda>s d. d\<lparr>dw_aranges := s\<rparr>), (''.debug_line'', \<lambda>s d. d\<lparr>dw_line := s\<rparr>),
        (''.debug_str'', \<lambda>s d. d\<lparr>dw_strings := s\<rparr>)]
       \<lparr>dw_has_elf = True, dw_info = StringPiece_null, dw_abbrev = StringPiece_null, dw_aranges = StringPiece_null,
        dw_line = StringPiece_null, dw_strings = StringPiece_null\<rparr>"

subsection \<open>Abbreviations\<close>

record die_abbreviation =
  ab_code :: nat
  ab_tag :: nat
  ab_has_children :: bool
  ab_attributes :: string_piece

definition ReadAttribute :: "string_piece \<Rightarrow> ((nat \<times> nat) \<times> string_piece) result" where
  "ReadAttribute s =
     bindR (ReadULEB s) (\<lambda>(name, s). bindR (ReadULEB s) (\<lambda>(form, s). Inr ((name, form), s)))"

lemma ReadAttribute_forward [forward_reads]: "ReadAttribute s = Inr (a, s') \<Longrightarrow> forward s s'"
  by (auto simp: ReadAttribute_def dest!: ReadULEB_forward intro: forward_trans)

function skip_attributes :: "string_piece \<Rightarrow> string_piece result" where
  "skip_attributes s =
     CHECK (\<not> StringPiece_empty s)
       (bindR (ReadAttribute s) (\<lambda>(attr, s'). if attr = (0, 0) then Inr s' else skip_attributes s'))"
  by pat_completeness auto
termination
  by (relation "measure (\<lambda>s. length (sp_mem s) - sp_ptr s)") (auto dest!: ReadAttribute_forward forward_measure)

declare skip_attributes.simps [simp del]

definition ReadAbbreviation :: "string_piece \<Rightarrow> (die_abbreviation option \<times> string_piece) result" where
  "ReadAbbreviation s =
     bindR (ReadULEB s) (\<lambda>(code, s).
       if code = 0 then Inr (None, s)
       else bindR (ReadULEB s) (\<lambda>(tag, s).
            bindR (Read 1 s) (\<lambda>(children, s).
            bindR (skip_attributes s) (\<lambda>s'.
              Inr (Some \<lparr>ab_code = code, ab_tag = tag, ab_has_children = (children \<noteq> 0),
                         ab_attributes = StringPiece_assign s (sp_ptr s) (sp_ptr s')\<rparr>, s')))))"

lemma skip_attributes_forward: "skip_attributes s = Inr s' \<Longrightarrow> forward s s'"
proof (induction s rule: skip_attributes.induct)
  case (1 s)
  then obtain a s1 where a: "\<not> StringPiece_empty s" "ReadAttribute s = Inr (a, s1)"
    by (auto simp: skip_attributes.simps [of s])
  then have "forward s s1" by (auto intro: forward_reads)
  with 1 a show ?case
    by (cases a; cases "a = (0, 0)") (auto simp: skip_attributes.simps [of s] intro: forward_trans)
qed

lemma ReadAbbreviation_forward: "ReadAbbreviation s = Inr (ab, s') \<Longrightarrow> forward s s'"
proof -
  assume r: "ReadAbbreviation s = Inr (ab, s')"
  then obtain code s1 where 1: "ReadULEB s = Inr (code, s1)" by (auto simp: ReadAbbreviation_def)
  note f1 = ReadULEB_forward [OF 1]
  show ?thesis
  proof (cases "code = 0")
    case False
    then obtain tag s2 ch s3 where 2: "ReadULEB s1 = Inr (tag, s2)" "Read 1 s2 = Inr (ch, s3)" "skip_attributes s3 = Inr s'"
      using r 1 by (auto simp: ReadAbbreviation_def)
    have "forward s2 s3" using 2(2) by (rule Read_forward) simp
    with f1 ReadULEB_forward [OF 2(1)] skip_attributes_forward [OF 2(3)] show ?thesis by (meson forward_trans)
  qed (use r 1 f1 in \<open>simp add: ReadAbbreviation_def\<close>)
qed

function GetAbbreviation_loop :: "nat \<Rightarrow> string_piece \<Rightarrow> die_abbreviation result" where
  "GetAbbreviation_loop code s =
     bindR (ReadAbbreviation s) (\<lambda>(abbr, s').
       case abbr of None \<Rightarrow> Inl Not_Reached
       | Some a \<Rightarrow> if ab_code a = code then Inr a else GetAbbreviation_loop code s')"
  by pat_completeness auto
termination
  by (relation "measure (\<lambda>(c, s). length (sp_mem s) - sp_ptr s)") (auto dest!: ReadAbbreviation_forward forward_measure)

declare GetAbbreviation_loop.simps [simp del]

definition GetAbbreviation :: "dwarf \<Rightarrow> nat \<Rightarrow> nat \<Rightarrow> die_abbreviation result" where
  "GetAbbreviation d code offset =
     bindR (StringPiece_advance (dw_abbrev d) offset) (\<lambda>section. GetAbbreviation_loop code section)"

subsection \<open>Attribute values\<close>

datatype attribute_value = Value_Int nat | Value_Piece string_piece

definition get_int :: "attribute_value \<Rightarrow> nat result" where
  "get_int v = (case v of Value_Int n \<Rightarrow> Inr n | Value_Piece _ \<Rightarrow> Inl Bad_Get)"

definition get_piece :: "attribute_value \<Rightarrow> string_piece result" where
  "get_piece v = (case v of Value_Piece s \<Rightarrow> Inr s | Value_Int _ \<Rightarrow> Inl Bad_Get)"

definition GetStringFromStringSection :: "dwarf \<Rightarrow> nat \<Rightarrow> string_piece result" where
  "GetStringFromStringSection d offset =
     DCHECK (offset < sp_len (dw_strings d))
       (bindR (StringPiece_advance (dw_strings d) offset) (\<lambda>s. bindR (ReadNullTerminated s) (\<lambda>(t, _). Inr t)))"

definition int_value :: "(nat \<times> string_piece) result \<Rightarrow> (attribute_value \<times> string_piece) result" where
  "int_value m = bindR m (\<lambda>(v, s). Inr (Value_Int v, s))"

definition block_value :: "(nat \<times> string_piece) result \<Rightarrow> (attribute_value \<times> string_piece) result" where
  "block_value m = bindR m (\<lambda>(len, s). bindR (ReadBytes s len) (\<lambda>(b, s). Inr (Value_Piece b, s)))"

function ReadAttributeValue :: "dwarf \<Rightarrow> string_piece \<Rightarrow> nat \<Rightarrow> bool \<Rightarrow> (attribute_value \<times> string_piece) result" where
  "ReadAttributeValue d s form is64 =
     (if form = 0x01 then int_value (Read 8 s)
      else if form = 0x0a then block_value (Read 1 s)
      else if form = 0x03 then block_value (Read 2 s)
      else if form = 0x04 then block_value (Read 4 s)
      else if form = 0x09 \<or> form = 0x18 then block_value (ReadULEB s)
      else if form = 0x0b \<or> form = 0x11 then int_value (Read 1 s)
      else if form = 0x05 \<or> form = 0x12 then int_value (Read 2 s)
      else if form = 0x06 \<or> form = 0x13 then int_value (Read 4 s)
      else if form = 0x07 \<or> form = 0x14 then int_value (Read 8 s)
      else if form = 0x0d then int_value (ReadSLEB s)
      else if form = 0x0f \<or> form = 0x15 then int_value (ReadULEB s)
      else if form = 0x0c then int_value (Read 1 s)
      else if form = 0x19 then Inr (Value_Int 1, s)
      else if form = 0x17 \<or> form = 0x10 then int_value (ReadOffset s is64)
      else if form = 0x08 then bindR (ReadNullTerminated s) (\<lambda>(t, s). Inr (Value_Piece t, s))
      else if form = 0x0e then
        bindR (ReadOffset s is64) (\<lambda>(offset, s). bindR (GetStringFromStringSection d offset) (\<lambda>t. Inr (Value_Piece t, s)))
      else if form = 0x16 then bindR (ReadULEB s) (\<lambda>(form', s'). ReadAttributeValue d s' form' is64)
      else Inl Not_Reached)"
  by pat_completeness auto
termination
  by (relation "measure (\<lambda>(d, s, f, b). length (sp_mem s) - sp_ptr s)") (auto dest!: ReadULEB_forward forward_measure)

declare ReadAttributeValue.simps [simp del]

subsection \<open>The address-range table\<close>

function arange_loop :: "nat \<Rightarrow> string_piece \<Rightarrow> bool result" where
  "arange_loop address chunk =
     bindR (Read 8 chunk) (\<lambda>(start, chunk1).
     bindR (Read 8 chunk1) (\<lambda>(length, chunk2).
       if start = 0 then Inr False
       else if start \<le> address \<and> address < u64 (start + length) then Inr True
       else arange_loop address chunk2))"
  by pat_completeness auto
termination
  by (relation "measure (\<lambda>(a, s). length (sp_mem s) - sp_ptr s)")
    (auto dest!: Read_numeral_forward simp: forward_def)

declare arange_loop.simps [simp del]

lemma Section_Next_onward: "Section_Next sec = Inr (Some chunk, sec') \<Longrightarrow> onward (sec_data sec) (sec_data sec')"
  by (auto simp: Section_Next_def Let_def Read_Inr StringPiece_assign_def onward_def split: if_splits)

definition arange_header :: "dwarf \<Rightarrow> string_piece \<Rightarrow> bool \<Rightarrow> (nat \<times> string_piece) result" where
  "arange_header d chunk is64 =
     bindR (Read 2 chunk) (\<lambda>(version, chunk).
     CHECK (version = 2)
     (bindR (ReadOffset chunk is64) (\<lambda>(debug_info_offset, chunk).
      bindR (Read 1 chunk) (\<lambda>(address_size, chunk).
      CHECK (address_size = 8)
      (bindR (Read 1 chunk) (\<lambda>(segment_size, chunk).
       CHECK (segment_size = 0)
       (bindR (SkipPadding chunk (sp_ptr (dw_aranges d)) 16) (\<lambda>chunk. Inr (debug_info_offset, chunk)))))))))"

function find_unit :: "dwarf \<Rightarrow> nat \<Rightarrow> section_state \<Rightarrow> nat option result" where
  "find_unit d address sec =
     bindR (Section_Next sec) (\<lambda>(chunk, sec').
       case chunk of None \<Rightarrow> Inr None
       | Some c \<Rightarrow>
           bindR (arange_header d c (sec_is_64_bits sec')) (\<lambda>(debug_info_offset, c).
           bindR (arange_loop address c) (\<lambda>found.
             if found then Inr (Some debug_info_offset) else find_unit d address sec')))"
  by pat_completeness auto
termination
  by (relation "measure (\<lambda>(d, a, sec). length (sp_mem (sec_data sec)) - sp_ptr (sec_data sec))")
    (auto dest!: Section_Next_onward onward_measure)

declare find_unit.simps [simp del]

subsection \<open>FindAddress\<close>

record location_info =
  loc_main_file :: "path option"
  loc_file_and_line :: "(path \<times> nat) option"

record unit_attributes =
  ua_line_offset :: "nat option"
  ua_compilation_directory :: string_piece
  ua_main_file_name :: string_piece

definition keep_attribute :: "nat \<Rightarrow> attribute_value \<Rightarrow> unit_attributes \<Rightarrow> unit_attributes result" where
  "keep_attribute name val ua =
     (if name = 0x10 then bindR (get_int val) (\<lambda>v. Inr (ua\<lparr>ua_line_offset := Some v\<rparr>))
      else if name = 0x1b then bindR (get_piece val) (\<lambda>s. Inr (ua\<lparr>ua_compilation_directory := s\<rparr>))
      else if name = 0x03 then bindR (get_piece val) (\<lambda>s. Inr (ua\<lparr>ua_main_file_name := s\<rparr>))
      else Inr ua)"

function read_attributes :: "dwarf \<Rightarrow> bool \<Rightarrow> string_piece \<Rightarrow> string_piece \<Rightarrow> unit_attributes \<Rightarrow> unit_attributes result" where
  "read_attributes d is64 attributes chunk ua =
     bindR (ReadAttribute attributes) (\<lambda>(attr, attributes').
       if attr = (0, 0) then Inr ua
       else bindR (ReadAttributeValue d chunk (snd attr) is64) (\<lambda>(val, chunk').
            bindR (keep_attribute (fst attr) val ua) (\<lambda>ua'. read_attributes d is64 attributes' chunk' ua')))"
  by pat_completeness auto
termination
  by (relation "measure (\<lambda>(d, b, s, c, ua). length (sp_mem s) - sp_ptr s)") (auto dest!: ReadAttribute_forward forward_measure)

declare read_attributes.simps [simp del]

definition read_unit :: "dwarf \<Rightarrow> nat \<Rightarrow> unit_attributes result" where
  "read_unit d debug_info_offset =
     bindR (StringPiece_advance (dw_info d) debug_info_offset) (\<lambda>s.
     bindR (Section_Next (Section_new s)) (\<lambda>(chunk, sec).
     case chunk of None \<Rightarrow> Inl Check_Failed
     | Some chunk \<Rightarrow>
         bindR (Read 2 chunk) (\<lambda>(version, chunk).
         CHECK (2 \<le> version \<and> version \<le> 4)
         (bindR (ReadOffset chunk (sec_is_64_bits sec)) (\<lambda>(abbrev_offset, chunk).
          bindR (Read 1 chunk) (\<lambda>(address_size, chunk).
          CHECK (address_size = 8)
          (bindR (ReadULEB chunk) (\<lambda>(code, chunk).
           CHECK (code \<noteq> 0)
           (bindR (GetAbbreviation d code abbrev_offset) (\<lambda>abbr.
            CHECK (ab_tag abbr = 0x11)
            (read_attributes d (sec_is_64_bits sec) (ab_attributes abbr) chunk
               \<lparr>ua_line_offset = None, ua_compilation_directory = StringPiece_null, ua_main_file_name = StringPiece_null\<rparr>)))))))))))"

definition Dwarf_FindAddress :: "dwarf \<Rightarrow> nat \<Rightarrow> location_info option result" where
  "Dwarf_FindAddress d address =
     (if \<not> dw_has_elf d then Inr None
      else bindR (find_unit d address (Section_new (dw_aranges d))) (\<lambda>unit.
        case unit of None \<Rightarrow> Inr None
        | Some debug_info_offset \<Rightarrow>
            bindR (read_unit d debug_info_offset) (\<lambda>ua.
            bindR (if StringPiece_empty (ua_main_file_name ua) then Inr None
                   else bindR (Path_new (ua_compilation_directory ua) (StringPiece_of_string '''') (ua_main_file_name ua)) (\<lambda>p. Inr (Some p))) (\<lambda>main_file.
            bindR (case ua_line_offset ua of None \<Rightarrow> Inr None
                   | Some line_offset \<Rightarrow>
                       bindR (StringPiece_advance (dw_line d) line_offset) (\<lambda>line_section.
                       bindR (LineNumberVM_new line_section (ua_compilation_directory ua)) (\<lambda>vm.
                         LineNumberVM_FindAddress vm address))) (\<lambda>file_and_line.
            Inr (Some \<lparr>loc_main_file = main_file, loc_file_and_line = file_and_line\<rparr>))))))"

subsection \<open>Reading a section chunk by chunk\<close>

definition encode_chunk :: "bool \<Rightarrow> string \<Rightarrow> string" where
  "encode_chunk is64 body =
     (if is64 then le_bytes 4 (2 ^ 32 - 1) @ le_bytes 8 (length body) else le_bytes 4 (length body)) @ body"

definition holds :: "string_piece \<Rightarrow> string \<Rightarrow> bool" where
  "holds s t \<longleftrightarrow> text_at s t \<and> sp_len s = length t"

lemma holds_view: "holds s t \<Longrightarrow> view s = t"
  by (auto simp: holds_def text_at_def view_def)

lemma Section_Next_encoded:
  assumes "holds (sec_data sec) (encode_chunk is64 body @ rest)" "body @ rest \<noteq> []"
    "if is64 then length body < 2 ^ 64 else length body < 2 ^ 32 - 1"
  shows "\<exists>chunk sec'. Section_Next sec = Inr (Some chunk, sec') \<and> holds chunk body \<and> sec_is_64_bits sec' = is64 \<and>
    holds (sec_data sec') rest"
proof -
  define d where "d = sec_data sec"
  have ne: "\<not> StringPiece_empty d" "4 < sp_len d" using assms(1,2) by (auto simp: d_def holds_def StringPiece_empty_def encode_chunk_def)
  show ?thesis
  proof (cases is64)
    case True
    have t: "text_at d (le_bytes 4 (2 ^ 32 - 1))" "text_at (moved d 4) (le_bytes 8 (length body))" "text_at (moved d 12) body"
      "text_at (moved d (12 + length body)) rest" "sp_len d = 12 + length body + length rest"
      using assms(1) True by (auto simp: d_def holds_def encode_chunk_def add.assoc)
    have r: "Read 4 d = Inr (2 ^ 32 - 1, moved d 4)" "Read 8 (moved d 4) = Inr (length body, moved d 12)"
      using Read_le_bytes [OF t(1)] Read_le_bytes [OF t(2)] assms(3) True t(5) by simp_all
    have "Section_Next sec = Inr (Some ((moved d 12)\<lparr>sp_len := length body\<rparr>),
        \<lparr>sec_is_64_bits = True, sec_data = StringPiece_assign d (sp_ptr d + 12 + length body) (sp_ptr d + sp_len d)\<rparr>)"
      using ne r t(5) by (simp add: Section_Next_def d_def [symmetric])
    then show ?thesis using t True by (simp add: holds_def text_at_def StringPiece_assign_def add.assoc)
  next
    case False
    have t: "text_at d (le_bytes 4 (length body))" "text_at (moved d 4) body"
      "text_at (moved d (4 + length body)) rest" "sp_len d = 4 + length body + length rest"
      using assms(1) False by (auto simp: d_def holds_def encode_chunk_def add.assoc)
    have r: "Read 4 d = Inr (length body, moved d 4)" "length body \<noteq> 2 ^ 32 - 1"
      using Read_le_bytes [OF t(1)] assms(3) False ne(2) by simp_all
    have "Section_Next sec = Inr (Some ((moved d 4)\<lparr>sp_len := length body\<rparr>),
        \<lparr>sec_is_64_bits = False, sec_data = StringPiece_assign d (sp_ptr d + 4 + length body) (sp_ptr d + sp_len d)\<rparr>)"
      using ne r t(4) by (simp add: Section_Next_def d_def [symmetric])
    then show ?thesis using t False by (simp add: holds_def text_at_def StringPiece_assign_def add.assoc)
  qed
qed

text \<open>
  A section is split into its chunks: at a chunk with a 4- or 12-byte length header, \<open>Section::Next\<close>
  returns exactly the body, says which format it had, and leaves exactly the rest of the section.
\<close>
theorem Section_Next_chunk:
  assumes "holds (sec_data sec) (encode_chunk is64 body @ rest)" "body @ rest \<noteq> []"
    "if is64 then length body < 2 ^ 64 else length body < 2 ^ 32 - 1"
  shows "\<exists>chunk sec'. Section_Next sec = Inr (Some chunk, sec') \<and> view chunk = body \<and> sec_is_64_bits sec' = is64 \<and>
    view (sec_data sec') = rest"
  using Section_Next_encoded [OF assms] holds_view by blast

subsection \<open>Finding an abbreviation\<close>

type_synonym abbreviation_entry = "nat \<times> nat \<times> bool \<times> (nat \<times> nat) list"

definition encode_attributes :: "(nat \<times> nat) list \<Rightarrow> string" where
  "encode_attributes attrs = concat (map (\<lambda>(n, f). uleb n @ uleb f) attrs) @ uleb 0 @ uleb 0"

definition encode_abbreviation :: "abbreviation_entry \<Rightarrow> string" where
  "encode_abbreviation e = (case e of (code, tag, children, attrs) \<Rightarrow>
     uleb code @ uleb tag @ [if children then CHR 0x01 else CHR 0x00] @ encode_attributes attrs)"

definition entry_ok :: "abbreviation_entry \<Rightarrow> bool" where
  "entry_ok e = (case e of (code, tag, children, attrs) \<Rightarrow> 0 < code \<and> code < 2 ^ 64 \<and> tag < 2 ^ 64 \<and>
     (\<forall>(n, f) \<in> set attrs. n < 2 ^ 64 \<and> f < 2 ^ 64 \<and> (n, f) \<noteq> (0, 0)))"

lemma ReadAttribute_text:
  assumes "text_at s (uleb n @ uleb f)" "1 < sp_len s" "n < 2 ^ 64" "f < 2 ^ 64"
  shows "ReadAttribute s = Inr ((n, f), moved s (length (uleb n @ uleb f)))"
  using ReadULEB_uleb [of s n] ReadULEB_uleb [of "moved s (length (uleb n))" f] assms by (simp add: ReadAttribute_def)

lemma skip_attributes_text:
  assumes "text_at s (encode_attributes attrs)" "1 < sp_len s" "\<forall>(n, f) \<in> set attrs. n < 2 ^ 64 \<and> f < 2 ^ 64 \<and> (n, f) \<noteq> (0, 0)"
  shows "skip_attributes s = Inr (moved s (length (encode_attributes attrs)))"
  using assms
proof (induction attrs arbitrary: s)
  case Nil
  then have "ReadAttribute s = Inr ((0, 0), moved s (length (uleb 0 @ uleb 0)))"
    by (intro ReadAttribute_text) (simp_all add: encode_attributes_def)
  then show ?case using Nil by (simp add: skip_attributes.simps [of s] StringPiece_empty_def encode_attributes_def)
next
  case (Cons a attrs)
  obtain n f where a: "a = (n, f)" by fastforce
  have "ReadAttribute s = Inr ((n, f), moved s (length (uleb n @ uleb f)))"
    using Cons.prems by (intro ReadAttribute_text) (auto simp: encode_attributes_def a)
  moreover have "text_at (moved s (length (uleb n @ uleb f))) (encode_attributes attrs)"
    using Cons.prems(1) by (simp add: encode_attributes_def a add.assoc)
  ultimately show ?case using Cons.IH [of "moved s (length (uleb n @ uleb f))"] Cons.prems
    by (auto simp: skip_attributes.simps [of s] StringPiece_empty_def a encode_attributes_def add.assoc)
qed

lemma ReadAbbreviation_text:
  assumes "text_at s (encode_abbreviation (code, tag, children, attrs))" "1 < sp_len s" "entry_ok (code, tag, children, attrs)"
  shows "\<exists>piece. ReadAbbreviation s = Inr (Some \<lparr>ab_code = code, ab_tag = tag, ab_has_children = children, ab_attributes = piece\<rparr>,
      moved s (length (encode_abbreviation (code, tag, children, attrs)))) \<and> holds piece (encode_attributes attrs)"
proof -
  define s1 s2 s3 where "s1 = moved s (length (uleb code))" and "s2 = moved s1 (length (uleb tag))" and "s3 = moved s2 (Suc 0)"
  have t: "text_at s (uleb code)" "text_at s1 (uleb tag)" "text_at s2 [if children then CHR 0x01 else CHR 0x00]" "text_at s3 (encode_attributes attrs)"
    using assms(1) text_at_Cons [of s2 _ "encode_attributes attrs"]
    by (simp_all add: encode_abbreviation_def s1_def s2_def s3_def add.assoc split: if_splits)
  have l: "1 < sp_len s1" "1 < sp_len s2" "1 < sp_len s3" using assms(2) by (simp_all add: s1_def s2_def s3_def)
  have e: "0 < code" "code < 2 ^ 64" "tag < 2 ^ 64" "\<forall>(n, f) \<in> set attrs. n < 2 ^ 64 \<and> f < 2 ^ 64 \<and> (n, f) \<noteq> (0, 0)"
    using assms(3) by (auto simp: entry_ok_def)
  note r = ReadULEB_uleb [OF t(1) assms(2) e(2)] ReadULEB_uleb [OF t(2) l(1) e(3)] Read_byte [OF t(3) l(2)]
    skip_attributes_text [OF t(4) l(3) e(4)]
  have "ReadAbbreviation s = Inr (Some \<lparr>ab_code = code, ab_tag = tag, ab_has_children = children,
      ab_attributes = StringPiece_assign s3 (sp_ptr s3) (sp_ptr s3 + length (encode_attributes attrs))\<rparr>,
      moved s3 (length (encode_attributes attrs)))"
    using r e(1) by (cases children) (simp_all add: ReadAbbreviation_def s1_def [symmetric] s2_def [symmetric] s3_def [symmetric])
  moreover have "moved s3 (length (encode_attributes attrs)) = moved s (length (encode_abbreviation (code, tag, children, attrs)))"
    by (simp add: s1_def s2_def s3_def encode_abbreviation_def)
  moreover have "holds (StringPiece_assign s3 (sp_ptr s3) (sp_ptr s3 + length (encode_attributes attrs))) (encode_attributes attrs)"
    using t(4) by (simp add: holds_def text_at_def StringPiece_assign_def)
  ultimately show ?thesis by auto
qed

lemma GetAbbreviation_loop_text:
  assumes "text_at s (concat (map encode_abbreviation es) @ uleb 0)" "1 < sp_len s" "\<forall>e \<in> set es. entry_ok e"
  shows "case List.find (\<lambda>e. fst e = code) es of
      None \<Rightarrow> GetAbbreviation_loop code s = Inl Not_Reached
    | Some (c, tag, children, attrs) \<Rightarrow>
        \<exists>piece. GetAbbreviation_loop code s = Inr \<lparr>ab_code = code, ab_tag = tag, ab_has_children = children, ab_attributes = piece\<rparr> \<and>
          view piece = encode_attributes attrs"
  using assms
proof (induction es arbitrary: s)
  case Nil
  then have "ReadAbbreviation s = Inr (None, moved s (length (uleb 0)))"
    using ReadULEB_uleb [of s 0] by (simp add: ReadAbbreviation_def)
  then show ?case by (simp add: GetAbbreviation_loop.simps [of code s])
next
  case (Cons e es)
  obtain c tag children attrs where e: "e = (c, tag, children, attrs)" using prod_cases4 by blast
  obtain piece where p: "ReadAbbreviation s = Inr (Some \<lparr>ab_code = c, ab_tag = tag, ab_has_children = children, ab_attributes = piece\<rparr>,
      moved s (length (encode_abbreviation e)))" "holds piece (encode_attributes attrs)"
    using ReadAbbreviation_text [of s c tag children attrs] Cons.prems by (auto simp: e)
  show ?case
  proof (cases "c = code")
    case True
    then show ?thesis using p holds_view [OF p(2)] by (simp add: e GetAbbreviation_loop.simps [of code s])
  next
    case False
    then have l: "GetAbbreviation_loop code s = GetAbbreviation_loop code (moved s (length (encode_abbreviation e)))"
      using p(1) by (simp add: GetAbbreviation_loop.simps [of code s])
    have t: "text_at (moved s (length (encode_abbreviation e))) (concat (map encode_abbreviation es) @ uleb 0)"
      using Cons.prems(1) by simp
    have f: "List.find (\<lambda>e. fst e = code) (e # es) = List.find (\<lambda>e. fst e = code) es" using False by (simp add: e)
    show ?thesis unfolding l f by (rule Cons.IH [OF t]) (use Cons.prems(2,3) in auto)
  qed
qed

text \<open>
  The linear search over the encoded abbreviation table finds the first entry with the code, with its tag,
  its children flag and exactly the encoded attribute list, and ends in \<open>NOTREACHED\<close> for a code the
  table does not have.
\<close>
theorem GetAbbreviation_finds:
  assumes "text_at (moved (dw_abbrev d) offset) (concat (map encode_abbreviation es) @ uleb 0)" "offset < sp_len (dw_abbrev d)"
    "1 < sp_len (dw_abbrev d)" "\<forall>e \<in> set es. entry_ok e"
  shows "case List.find (\<lambda>e. fst e = code) es of
      None \<Rightarrow> GetAbbreviation d code offset = Inl Not_Reached
    | Some (c, tag, children, attrs) \<Rightarrow>
        \<exists>piece. GetAbbreviation d code offset = Inr \<lparr>ab_code = code, ab_tag = tag, ab_has_children = children, ab_attributes = piece\<rparr> \<and>
          view piece = encode_attributes attrs"
proof -
  have l: "GetAbbreviation d code offset = GetAbbreviation_loop code (moved (dw_abbrev d) offset)"
    using assms(2) by (simp add: GetAbbreviation_def StringPiece_advance_def moved_def)
  show ?thesis unfolding l by (rule GetAbbreviation_loop_text [OF assms(1) _ assms(4)]) (use assms(3) in simp)
qed

definition demo_abbrev :: string where
  "demo_abbrev = concat (map encode_abbreviation [(1, 17, True, [(3, 8), (16, 6)]), (2, 46, False, [])]) @ uleb 0"

definition demo_dwarf :: dwarf where
  "demo_dwarf = \<lparr>dw_has_elf = True, dw_info = StringPiece_null, dw_abbrev = StringPiece_of_string demo_abbrev,
     dw_aranges = StringPiece_null, dw_line = StringPiece_null, dw_strings = StringPiece_null\<rparr>"

subsection \<open>Finding the compilation unit\<close>

definition encode_ranges :: "(nat \<times> nat) list \<Rightarrow> string" where
  "encode_ranges rs = concat (map (\<lambda>(start, len). le_bytes 8 start @ le_bytes 8 len) rs) @ le_bytes 8 0 @ le_bytes 8 0"

lemma arange_loop_text:
  assumes "text_at s (encode_ranges rs)" "8 < sp_len s" "\<forall>(start, len) \<in> set rs. 0 < start \<and> start + len < 2 ^ 64"
  shows "arange_loop address s = Inr (\<exists>(start, len) \<in> set rs. start \<le> address \<and> address < start + len)"
  using assms
proof (induction rs arbitrary: s)
  case Nil
  then have "Read 8 s = Inr (0, moved s 8)" "Read 8 (moved s 8) = Inr (0, moved s 16)"
    using Read_le_bytes [of s 8 0] Read_le_bytes [of "moved s 8" 8 0] by (simp_all add: encode_ranges_def)
  then show ?case by (simp add: arange_loop.simps [of address s])
next
  case (Cons r rs)
  obtain start len where r: "r = (start, len)" by fastforce
  have ok: "0 < start" "start + len < 2 ^ 64" using Cons.prems(3) by (auto simp: r)
  then have "Read 8 s = Inr (start, moved s 8)" "Read 8 (moved s 8) = Inr (len, moved s 16)"
    using Read_le_bytes [of s 8 start] Read_le_bytes [of "moved s 8" 8 len] Cons.prems by (simp_all add: encode_ranges_def r)
  moreover have "text_at (moved s 16) (encode_ranges rs)" using Cons.prems(1) by (simp add: encode_ranges_def r add.assoc)
  ultimately show ?case using Cons.IH [of "moved s 16"] Cons.prems ok
    by (auto simp: arange_loop.simps [of address s] r u64_def)
qed

text \<open>One set of the table: 32-bit, version 2, 8-byte addresses, padded to 16 bytes behind the section start.\<close>

definition encode_range_set :: "nat \<times> (nat \<times> nat) list \<Rightarrow> string" where
  "encode_range_set u = (case u of (info_offset, rs) \<Rightarrow>
     encode_chunk False (le_bytes 2 2 @ le_bytes 4 info_offset @ [CHR 0x08, CHR 0x00] @ le_bytes 4 0 @ encode_ranges rs))"

definition range_set_ok :: "nat \<times> (nat \<times> nat) list \<Rightarrow> bool" where
  "range_set_ok u = (case u of (info_offset, rs) \<Rightarrow> info_offset < 2 ^ 32 \<and> 16 * length rs < 2 ^ 31 \<and>
     (\<forall>(start, len) \<in> set rs. 0 < start \<and> start + len < 2 ^ 64))"

definition unit_of :: "nat \<Rightarrow> (nat \<times> (nat \<times> nat) list) list \<Rightarrow> nat option" where
  "unit_of address us =
     map_option fst (List.find (\<lambda>u. \<exists>(start, len) \<in> set (snd u). start \<le> address \<and> address < start + len) us)"

lemma length_encode_ranges: "length (encode_ranges rs) = 16 * length rs + 16"
  by (induction rs) (auto simp: encode_ranges_def)

definition range_set_body :: "nat \<times> (nat \<times> nat) list \<Rightarrow> string" where
  "range_set_body u = le_bytes 2 2 @ le_bytes 4 (fst u) @ [CHR 0x08, CHR 0x00] @ le_bytes 4 0 @ encode_ranges (snd u)"

lemma encode_range_set_chunk: "encode_range_set u = encode_chunk False (range_set_body u)"
  by (simp add: encode_range_set_def range_set_body_def split: prod.split)

lemma length_range_set_body: "length (range_set_body u) = 16 * length (snd u) + 28"
  by (simp add: range_set_body_def length_encode_ranges)

lemma mod16_add: "(a + k) mod 16 = (a mod 16 + k) mod (16 :: nat)"
  by (simp only: mod_add_left_eq)

lemma arange_header_text:
  assumes "holds c (range_set_body (off, rs))" "off < 2 ^ 32" "(sp_ptr c - sp_ptr (dw_aranges d)) mod 16 = 4" "sp_ptr (dw_aranges d) \<le> sp_ptr c"
  shows "arange_header d c False = Inr (off, moved c 12)" "text_at (moved c 12) (encode_ranges rs)"
proof -
  have l: "16 < sp_len c" using assms(1) length_range_set_body [of "(off, rs)"] by (simp add: holds_def)
  have "text_at c (le_bytes 2 2 @ le_bytes 4 off @ [CHR 0x08] @ [CHR 0x00] @ le_bytes 4 0 @ encode_ranges rs)"
    using assms(1) by (simp add: holds_def range_set_body_def)
  then have t: "text_at c (le_bytes 2 2)" "text_at (moved c 2) (le_bytes 4 off)" "text_at (moved c 6) [CHR 0x08]" "text_at (moved c 7) [CHR 0x00]"
    "text_at (moved c 12) (encode_ranges rs)"
    unfolding text_at_append by simp_all
  show "text_at (moved c 12) (encode_ranges rs)" by (rule t(5))
  have r: "Read 2 c = Inr (2, moved c 2)" "Read 4 (moved c 2) = Inr (off, moved c 6)" "Read 1 (moved c 6) = Inr (8, moved c 7)"
    "Read 1 (moved c 7) = Inr (0, moved c 8)"
    using Read_le_bytes [OF t(1)] Read_le_bytes [OF t(2)] Read_byte [OF t(3)] Read_byte [OF t(4)] l assms(2) by simp_all
  have "(sp_ptr c + 8 - sp_ptr (dw_aranges d)) mod 16 = 12"
  proof -
    have "sp_ptr c + 8 - sp_ptr (dw_aranges d) = (sp_ptr c - sp_ptr (dw_aranges d)) + 8" using assms(4) by simp
    then show ?thesis using assms(3) mod16_add [of "sp_ptr c - sp_ptr (dw_aranges d)" 8] by simp
  qed
  then have "SkipPadding (moved c 8) (sp_ptr (dw_aranges d)) 16 = Inr (moved c 12)"
    using l assms(4) by (simp add: SkipPadding_def StringPiece_advance_def moved_def)
  with r show "arange_header d c False = Inr (off, moved c 12)"
    by (simp add: arange_header_def ReadOffset_def)
qed

lemma find_unit_text:
  assumes "holds (sec_data sec) (concat (map encode_range_set us))" "\<forall>u \<in> set us. range_set_ok u"
    "sp_ptr (dw_aranges d) \<le> sp_ptr (sec_data sec)" "(sp_ptr (sec_data sec) - sp_ptr (dw_aranges d)) mod 16 = 0"
  shows "find_unit d address sec = Inr (unit_of address us)"
  using assms
proof (induction us arbitrary: sec)
  case Nil
  then have "Section_Next sec = Inr (None, sec)" by (simp add: holds_def Section_Next_def StringPiece_empty_def)
  then show ?case by (simp add: find_unit.simps [of d address sec] unit_of_def)
next
  case (Cons u us)
  obtain off rs where u: "u = (off, rs)" by fastforce
  have ok: "off < 2 ^ 32" "16 * length rs < 2 ^ 31" "\<forall>(start, len) \<in> set rs. 0 < start \<and> start + len < 2 ^ 64"
    using Cons.prems(2) by (auto simp: range_set_ok_def u)
  have "range_set_body u @ concat (map encode_range_set us) \<noteq> []" using length_range_set_body [of u] by auto
  moreover have "length (range_set_body u) < 2 ^ 32 - 1" using ok(2) by (simp add: length_range_set_body u)
  moreover have "holds (sec_data sec) (encode_chunk False (range_set_body u) @ concat (map encode_range_set us))"
    using Cons.prems(1) encode_range_set_chunk [of u] by simp
  ultimately obtain c sec' where c: "Section_Next sec = Inr (Some c, sec')" "holds c (range_set_body u)" "sec_is_64_bits sec' = False"
      "holds (sec_data sec') (concat (map encode_range_set us))"
    using Section_Next_encoded [of sec False "range_set_body u" "concat (map encode_range_set us)"] by auto
  have pos: "sp_ptr c = sp_ptr (sec_data sec) + 4" "sp_ptr (sec_data sec') = sp_ptr (sec_data sec) + 4 + sp_len c"
    using c(1,3) by (auto simp: Section_Next_def Let_def Read_Inr StringPiece_assign_def split: if_splits)
  let ?k = "sp_ptr (sec_data sec) - sp_ptr (dw_aranges d)"
  have "sp_ptr c - sp_ptr (dw_aranges d) = ?k + 4" using pos(1) Cons.prems(3) by simp
  then have "(sp_ptr c - sp_ptr (dw_aranges d)) mod 16 = 4" using Cons.prems(4) mod16_add [of ?k 4] by simp
  then have h: "arange_header d c False = Inr (off, moved c 12)" "text_at (moved c 12) (encode_ranges rs)"
    using arange_header_text [of c off rs d] c(2) ok(1) pos(1) Cons.prems(3) by (simp_all add: u)
  have "8 < sp_len c" using c(2) length_range_set_body [of u] by (simp add: holds_def)
  then have loop: "arange_loop address (moved c 12) = Inr (\<exists>(start, len) \<in> set rs. start \<le> address \<and> address < start + len)"
    using arange_loop_text [OF h(2) _ ok(3)] by simp
  have "sp_len c = 16 * (length rs + 1) + 12" using c(2) length_range_set_body [of u] by (simp add: holds_def u)
  then have "sp_ptr (sec_data sec') - sp_ptr (dw_aranges d) = ?k + 16 * (length rs + 2)" using pos(2) Cons.prems(3) by simp
  then have "(sp_ptr (sec_data sec') - sp_ptr (dw_aranges d)) mod 16 = 0"
    using Cons.prems(4) mod16_add [of ?k "16 * (length rs + 2)"] by (simp del: mult_Suc_right)
  then have "find_unit d address sec' = Inr (unit_of address us)"
    using Cons.IH [OF c(4)] Cons.prems(2,3) pos(2) by simp
  then show ?case using c(1,3) h(1) loop by (simp add: find_unit.simps [of d address sec] unit_of_def u)
qed

text \<open>
  C29: the walk over the address-range table, with its padding, returns the compilation unit of the first set
  whose ranges contain the address, and none when no range does, for any table of 32-bit sets.
\<close>
theorem find_unit_correct:
  assumes "holds (dw_aranges d) (concat (map encode_range_set us))" "\<forall>u \<in> set us. range_set_ok u"
  shows "find_unit d address (Section_new (dw_aranges d)) = Inr (unit_of address us)"
  using find_unit_text [of "Section_new (dw_aranges d)" us d address] assms by (simp add: Section_new_def)

lemma find_unit_correct_witness:
  "find_unit (demo_dwarf\<lparr>dw_aranges := StringPiece_of_string (concat (map encode_range_set [(0, [(4096, 32)]), (77, [(8192, 16), (9000, 10)])]))\<rparr>) 9005
     (Section_new (StringPiece_of_string (concat (map encode_range_set [(0, [(4096, 32)]), (77, [(8192, 16), (9000, 10)])])))) = Inr (Some 77)"
proof -
  let ?us = "[(0, [(4096, 32)]), (77, [(8192, 16), (9000, 10)])]"
  let ?d = "demo_dwarf\<lparr>dw_aranges := StringPiece_of_string (concat (map encode_range_set ?us))\<rparr>"
  have "holds (dw_aranges ?d) (concat (map encode_range_set ?us))"
    unfolding holds_def by (simp add: StringPiece_of_string_def text_at_def del: text_at_append)
  moreover have "\<forall>u \<in> set ?us. range_set_ok u" by (simp add: range_set_ok_def)
  moreover have "unit_of 9005 ?us = Some 77" by (simp add: unit_of_def)
  ultimately show ?thesis using find_unit_correct [of ?d ?us 9005] by simp
qed

end
