(* ===== verification/Elf.thy ===== *)
theory Elf
  imports Dwarf
begin

text \<open>
  The ELF reader, \<^verbatim>\<open>symbolizer/Elf.h,.cc\<close>.

  \<open>ef_mem\<close> is the mapped file; a pointer into it is an offset, and a read past its end is the failure
  \<open>Out_Of_Bounds\<close>. Section headers and symbols are read at the offsets the 64-bit format of \<^verbatim>\<open>elf.h\<close> gives them.
  \<open>At\<close> checks one object; the pointers the loops increment from there on are not checked again, and neither is
  the model. Names passed in have no NUL character, as C strings.
  \<open>elf_handle\<close> is what an \<open>ElfFile\<close> object owns, the descriptor and the mapping, through opening, moving and releasing.
\<close>

subsection \<open>Records of the file\<close>

definition field :: "string \<Rightarrow> nat \<Rightarrow> nat \<Rightarrow> nat" where
  "field mem pos n = le_value (take n (drop pos mem))"

definition readable :: "string \<Rightarrow> nat \<Rightarrow> nat \<Rightarrow> 'a result \<Rightarrow> 'a result" where
  "readable mem pos n m = (if pos + n \<le> length mem then m else Inl Out_Of_Bounds)"

record ehdr =
  e_type :: nat
  e_phoff :: nat
  e_shoff :: nat
  e_phentsize :: nat
  e_phnum :: nat
  e_shentsize :: nat
  e_shnum :: nat
  e_shstrndx :: nat

record shdr =
  sh_pos :: nat
  sh_name :: nat
  sh_type :: nat
  sh_addr :: nat
  sh_offset :: nat
  sh_size :: nat
  sh_link :: nat
  sh_entsize :: nat

record elf_sym =
  st_pos :: nat
  st_name :: nat
  st_info :: nat
  st_shndx :: nat
  st_value :: nat
  st_size :: nat

record elf_file =
  ef_mem :: string
  ef_base_address :: nat

definition read_ehdr :: "string \<Rightarrow> ehdr" where
  "read_ehdr mem =
     \<lparr>e_type = field mem 16 2, e_phoff = field mem 32 8, e_shoff = field mem 40 8, e_phentsize = field mem 54 2,
      e_phnum = field mem 56 2, e_shentsize = field mem 58 2, e_shnum = field mem 60 2, e_shstrndx = field mem 62 2\<rparr>"

definition read_shdr :: "string \<Rightarrow> nat \<Rightarrow> shdr result" where
  "read_shdr mem pos = readable mem pos 64 (Inr
     \<lparr>sh_pos = pos, sh_name = field mem pos 4, sh_type = field mem (pos + 4) 4, sh_addr = field mem (pos + 16) 8,
      sh_offset = field mem (pos + 24) 8, sh_size = field mem (pos + 32) 8, sh_link = field mem (pos + 40) 4,
      sh_entsize = field mem (pos + 56) 8\<rparr>)"

definition read_sym :: "string \<Rightarrow> nat \<Rightarrow> elf_sym result" where
  "read_sym mem pos = readable mem pos 24 (Inr
     \<lparr>st_pos = pos, st_name = field mem pos 4, st_info = field mem (pos + 4) 1, st_shndx = field mem (pos + 6) 2,
      st_value = field mem (pos + 8) 8, st_size = field mem (pos + 16) 8\<rparr>)"

text \<open>\<open>At<T>\<close> with \<open>n = sizeof(T)\<close>: the sum wraps at 64 bits.\<close>

definition At :: "string \<Rightarrow> nat \<Rightarrow> nat \<Rightarrow> nat result" where
  "At mem offset n = DCHECK (u64 (offset + n) \<le> length mem) (Inr offset)"

definition GetElfHeader :: "string \<Rightarrow> ehdr result" where
  "GetElfHeader mem = bindR (At mem 0 64) (\<lambda>_. Inr (read_ehdr mem))"

text \<open>The C string at a position of the file.\<close>

definition c_str :: "string \<Rightarrow> nat \<Rightarrow> string result" where
  "c_str mem pos =
     (let s = takeWhile (\<lambda>c. c \<noteq> CHR 0x00) (drop pos mem)
      in if pos + length s < length mem then Inr s else Inl Out_Of_Bounds)"

subsection \<open>Opening a file\<close>

fun find_base :: "string \<Rightarrow> nat \<Rightarrow> nat \<Rightarrow> nat option result" where
  "find_base mem pos 0 = Inr None"
| "find_base mem pos (Suc n) =
     readable mem pos 56 (if field mem pos 4 = 1 then Inr (Some (field mem (pos + 16) 8)) else find_base mem (pos + 56) n)"

definition ElfFile_Init :: "string \<Rightarrow> elf_file result" where
  "ElfFile_Init mem =
     bindR (GetElfHeader mem) (\<lambda>h.
     CHECK (take 4 mem = [CHR 0x7F, CHR ''E'', CHR ''L'', CHR ''F''])
     (CHECK (field mem 4 1 = 2)
     (CHECK (field mem 5 1 = 1)
     (DCHECK (field mem 6 1 = 1 \<and> field mem 20 4 = 1)
     (DCHECK (e_type h = 2 \<or> e_type h = 3)
     (DCHECK (e_phnum h \<noteq> 0)
     (DCHECK (e_phentsize h = 56)
     (DCHECK (e_shentsize h = 64)
     (bindR (At mem (e_phoff h) 56) (\<lambda>pos.
      bindR (find_base mem pos (e_phnum h)) (\<lambda>base.
        case base of None \<Rightarrow> Inl Dcheck_Failed
        | Some b \<Rightarrow> Inr \<lparr>ef_mem = mem, ef_base_address = b\<rparr>)))))))))))"

definition ElfFile_new :: "string option \<Rightarrow> elf_file result" where
  "ElfFile_new contents = (case contents of None \<Rightarrow> Inl Dcheck_Failed | Some mem \<Rightarrow> ElfFile_Init mem)"

text \<open>
  The descriptor and the mapping a file object owns, with \<open>-1\<close> for neither; \<open>Destroy\<close> lists what it gives back. Moving takes both
  from the other object.
\<close>

record elf_handle =
  eh_fd :: int
  eh_file :: int
  eh_length :: nat
  eh_base :: nat

datatype elf_release = Release_munmap int nat | Release_close int

definition ElfFile_default :: elf_handle where
  "ElfFile_default = \<lparr>eh_fd = -1, eh_file = -1, eh_length = 0, eh_base = 0\<rparr>"

definition ElfFile_move :: "elf_handle \<Rightarrow> elf_handle \<times> elf_handle" where
  "ElfFile_move other = (other, other\<lparr>eh_fd := -1, eh_file := -1, eh_length := 0, eh_base := 0\<rparr>)"

definition ElfFile_Destroy :: "elf_handle \<Rightarrow> elf_release list" where
  "ElfFile_Destroy h =
     (if eh_file h \<noteq> -1 then [Release_munmap (eh_file h) (eh_length h)] else []) @ (if eh_fd h \<noteq> -1 then [Release_close (eh_fd h)] else [])"

definition ElfFile_assign :: "bool \<Rightarrow> elf_handle \<Rightarrow> elf_handle \<Rightarrow> (elf_release list \<times> elf_handle \<times> elf_handle) result" where
  "ElfFile_assign same this other =
     DCHECK (\<not> same) (Inr (ElfFile_Destroy this,
       \<lparr>eh_fd = eh_fd other, eh_file = eh_file other, eh_length = eh_length other, eh_base = eh_base other\<rparr>,
       other\<lparr>eh_fd := -1, eh_file := -1, eh_length := 0, eh_base := 0\<rparr>))"

lemma ElfFile_move_owns_once:
  "ElfFile_move h = (h1, h2) \<Longrightarrow> ElfFile_Destroy h1 @ ElfFile_Destroy h2 = ElfFile_Destroy h \<and> ElfFile_Destroy h2 = []"
  by (auto simp: ElfFile_move_def ElfFile_Destroy_def)

lemma ElfFile_assign_owns_once:
  "ElfFile_assign False h1 h2 = Inr (rs, h1', h2') \<Longrightarrow>
     rs @ ElfFile_Destroy h1' @ ElfFile_Destroy h2' = ElfFile_Destroy h1 @ ElfFile_Destroy h2"
  by (auto simp: ElfFile_assign_def ElfFile_Destroy_def)

subsection \<open>Sections\<close>

definition GetSectionByIndex :: "elf_file \<Rightarrow> nat \<Rightarrow> shdr result" where
  "GetSectionByIndex ef idx =
     bindR (GetElfHeader (ef_mem ef)) (\<lambda>h.
     DCHECK (idx < e_shnum h)
       (bindR (At (ef_mem ef) (u64 (e_shoff h + idx * 64)) 64) (read_shdr (ef_mem ef))))"

definition GetSectionBody :: "elf_file \<Rightarrow> shdr \<Rightarrow> string_piece" where
  "GetSectionBody ef section = \<lparr>sp_mem = ef_mem ef, sp_ptr = sh_offset section, sp_len = sh_size section\<rparr>"

definition ValidateStringTable :: "elf_file \<Rightarrow> shdr \<Rightarrow> unit result" where
  "ValidateStringTable ef t =
     DCHECK (sh_type t = 3)
       (if sh_size t = 0 then Inr ()
        else bindR (vec_get (ef_mem ef) (sh_offset t)) (\<lambda>a.
             DCHECK (a = CHR 0x00) (bindR (vec_get (ef_mem ef) (sh_offset t + sh_size t - 1)) (\<lambda>z. DCHECK (z = CHR 0x00) (Inr ())))))"

definition GetString :: "elf_file \<Rightarrow> shdr \<Rightarrow> nat \<Rightarrow> nat result" where
  "GetString ef t offset =
     bindR (ValidateStringTable ef t) (\<lambda>_. DCHECK (offset < sh_size t) (Inr (sh_offset t + offset)))"

definition GetSectionName :: "elf_file \<Rightarrow> shdr \<Rightarrow> nat option result" where
  "GetSectionName ef section =
     bindR (GetElfHeader (ef_mem ef)) (\<lambda>h.
       if e_shstrndx h = 0 then Inr None
       else bindR (GetSectionByIndex ef (e_shstrndx h)) (\<lambda>names.
            bindR (GetString ef names (sh_name section)) (\<lambda>p. Inr (Some p))))"

function scan_names :: "string \<Rightarrow> string \<Rightarrow> nat \<Rightarrow> nat \<Rightarrow> nat option result" where
  "scan_names mem name cur stop =
     (if cur = stop then Inr None
      else bindR (c_str mem cur) (\<lambda>s. if s = name then Inr (Some cur) else scan_names mem name (cur + length s + 1) stop))"
  by pat_completeness auto
termination
  by (relation "measure (\<lambda>(mem, name, cur, stop). length mem - cur)") (auto simp: c_str_def Let_def split: if_splits)

declare scan_names.simps [simp del]

text \<open>The loops over the section header table: \<open>f\<close> is their body, \<open>Some\<close> its early return.\<close>

fun section_loop :: "string \<Rightarrow> (shdr \<Rightarrow> 'a option result) \<Rightarrow> nat \<Rightarrow> nat \<Rightarrow> 'a option result" where
  "section_loop mem f pos 0 = Inr None"
| "section_loop mem f pos (Suc n) =
     bindR (read_shdr mem pos) (\<lambda>s. bindR (f s) (\<lambda>r.
       case r of Some x \<Rightarrow> Inr (Some x) | None \<Rightarrow> section_loop mem f (pos + 64) n))"

definition each_section :: "elf_file \<Rightarrow> (shdr \<Rightarrow> 'a option result) \<Rightarrow> 'a option result" where
  "each_section ef f =
     bindR (GetElfHeader (ef_mem ef)) (\<lambda>h.
     bindR (At (ef_mem ef) (e_shoff h) 64) (\<lambda>pos. section_loop (ef_mem ef) f pos (e_shnum h)))"

definition GetSectionByName :: "elf_file \<Rightarrow> string \<Rightarrow> shdr option result" where
  "GetSectionByName ef name =
     bindR (GetElfHeader (ef_mem ef)) (\<lambda>h.
       if e_shstrndx h = 0 then Inr None
       else bindR (GetSectionByIndex ef (e_shstrndx h)) (\<lambda>names.
            bindR (ValidateStringTable ef names) (\<lambda>_.
            bindR (scan_names (ef_mem ef) name (sh_offset names) (sh_offset names + sh_size names)) (\<lambda>found.
              case found of None \<Rightarrow> Inr None
              | Some cur \<Rightarrow> each_section ef (\<lambda>s. Inr (if sh_name s = cur - sh_offset names then Some s else None))))))"

definition GetSectionContainingAddress :: "elf_file \<Rightarrow> nat \<Rightarrow> shdr option result" where
  "GetSectionContainingAddress ef addr =
     each_section ef (\<lambda>s. Inr (if sh_addr s \<le> addr \<and> addr < u64 (sh_addr s + sh_size s) then Some s else None))"

subsection \<open>Symbols\<close>

fun symbol_loop :: "string \<Rightarrow> (elf_sym \<Rightarrow> bool result) \<Rightarrow> nat \<Rightarrow> nat \<Rightarrow> elf_sym option result" where
  "symbol_loop mem f pos 0 = Inr None"
| "symbol_loop mem f pos (Suc n) =
     bindR (read_sym mem pos) (\<lambda>y. bindR (f y) (\<lambda>hit. if hit then Inr (Some y) else symbol_loop mem f (pos + 24) n))"

definition each_symbol :: "elf_file \<Rightarrow> shdr \<Rightarrow> (elf_sym \<Rightarrow> bool result) \<Rightarrow> (shdr \<times> elf_sym) option result" where
  "each_symbol ef s f =
     bindR (At (ef_mem ef) (sh_offset s) 24) (\<lambda>pos.
       if sh_entsize s = 0 then Inl Divide_By_Zero
       else bindR (symbol_loop (ef_mem ef) f pos (sh_size s div sh_entsize s)) (\<lambda>r. Inr (map_option (Pair s) r)))"

definition symbol_covers :: "nat \<Rightarrow> elf_sym \<Rightarrow> bool" where
  "symbol_covers address y \<longleftrightarrow>
     (st_info y mod 16 = 1 \<or> st_info y mod 16 = 2) \<and> st_shndx y \<noteq> 0 \<and>
     st_value y \<le> address \<and> address < u64 (st_value y + st_size y)"

definition GetDefinitionByAddress :: "elf_file \<Rightarrow> nat \<Rightarrow> (shdr \<times> elf_sym) option result" where
  "GetDefinitionByAddress ef address =
     each_section ef (\<lambda>s.
       if sh_type s \<noteq> 11 \<and> sh_type s \<noteq> 2 then Inr None
       else each_symbol ef s (\<lambda>y. Inr (symbol_covers address y)))"

definition GetSymbolByName :: "elf_file \<Rightarrow> string \<Rightarrow> (shdr \<times> elf_sym) option result" where
  "GetSymbolByName ef name =
     each_section ef (\<lambda>s.
       if sh_link s = 0 then Inr None
       else if sh_type s \<noteq> 11 \<and> sh_type s \<noteq> 11 then Inr None
       else each_symbol ef s (\<lambda>y.
              if st_shndx y \<noteq> 0 \<and> st_name y \<noteq> 0
              then bindR (GetSectionByIndex ef (sh_link s)) (\<lambda>strings.
                   bindR (GetString ef strings (st_name y)) (\<lambda>p. bindR (c_str (ef_mem ef) p) (\<lambda>t. Inr (t = name))))
              else Inr False))"

definition GetSymbolName :: "elf_file \<Rightarrow> (shdr \<times> elf_sym) option \<Rightarrow> nat option result" where
  "GetSymbolName ef symbol =
     (case symbol of None \<Rightarrow> Inr None
      | Some (s, y) \<Rightarrow>
          if st_name y = 0 then Inr None
          else if sh_link s = 0 then Inr None
          else bindR (GetSectionByIndex ef (sh_link s)) (\<lambda>strings.
               bindR (GetString ef strings (st_name y)) (\<lambda>p. Inr (Some p))))"

text \<open>\<open>ValueAt<T>\<close> with \<open>n = sizeof(T)\<close> gives the position of the object.\<close>

definition ValueAt :: "elf_file \<Rightarrow> shdr \<Rightarrow> nat \<Rightarrow> nat \<Rightarrow> nat result" where
  "ValueAt ef section addr n =
     bindR (GetElfHeader (ef_mem ef)) (\<lambda>h.
     DCHECK (e_type h = 2 \<or> e_type h = 3)
     (DCHECK (sh_addr section \<le> addr \<and> u64 (addr + n) \<le> u64 (sh_addr section + sh_size section))
       (At (ef_mem ef) (u64 (sh_offset section + (addr - sh_addr section))) n)))"

definition GetSymbolValue :: "elf_file \<Rightarrow> elf_sym \<Rightarrow> nat \<Rightarrow> nat result" where
  "GetSymbolValue ef symbol n =
     bindR (GetSectionByIndex ef (st_shndx symbol)) (\<lambda>section. ValueAt ef section (st_value symbol) n)"

definition GetAddressValue :: "elf_file \<Rightarrow> nat \<Rightarrow> nat \<Rightarrow> nat result" where
  "GetAddressValue ef addr n =
     bindR (GetSectionContainingAddress ef addr) (\<lambda>section.
       case section of None \<Rightarrow> Inl Dcheck_Failed | Some s \<Rightarrow> ValueAt ef s addr n)"

subsection \<open>The DWARF parser of an ELF file\<close>

definition Dwarf_GetSection :: "elf_file \<Rightarrow> string \<Rightarrow> string_piece option result" where
  "Dwarf_GetSection ef name =
     bindR (GetSectionByName ef name) (\<lambda>s. Inr (map_option (GetSectionBody ef) s))"

definition Dwarf_new :: "elf_file \<Rightarrow> dwarf result" where
  "Dwarf_new ef = Dwarf_Init (Dwarf_GetSection ef)"

subsection \<open>Files whose tables lie inside the file\<close>

definition is_symtab :: "shdr \<Rightarrow> bool" where "is_symtab s \<longleftrightarrow> sh_type s = 11 \<or> sh_type s = 2"

definition elf_layout :: "elf_file \<Rightarrow> shdr list \<Rightarrow> bool" where
  "elf_layout ef ss \<longleftrightarrow>
     64 \<le> length (ef_mem ef) \<and> length (ef_mem ef) < 2 ^ 64 \<and> ss \<noteq> [] \<and> e_shnum (read_ehdr (ef_mem ef)) = length ss \<and>
     (\<forall>i < length ss. read_shdr (ef_mem ef) (e_shoff (read_ehdr (ef_mem ef)) + 64 * i) = Inr (ss ! i))"

definition symbols_at :: "elf_file \<Rightarrow> shdr \<Rightarrow> elf_sym list \<Rightarrow> bool" where
  "symbols_at ef s ys \<longleftrightarrow>
     sh_entsize s = 24 \<and> sh_size s div 24 = length ys \<and> sh_offset s + 24 \<le> length (ef_mem ef) \<and>
     (\<forall>j < length ys. read_sym (ef_mem ef) (sh_offset s + 24 * j) = Inr (ys ! j))"

fun first_some :: "('a \<Rightarrow> 'b option) \<Rightarrow> 'a list \<Rightarrow> 'b option" where
  "first_some g [] = None"
| "first_some g (x # xs) = (case g x of Some y \<Rightarrow> Some y | None \<Rightarrow> first_some g xs)"

lemma first_some_if: "first_some (\<lambda>x. if P x then Some x else None) xs = List.find P xs"
  by (induction xs) auto

lemma At_in: "pos + n \<le> length mem \<Longrightarrow> length mem < 2 ^ 64 \<Longrightarrow> At mem pos n = Inr pos"
  by (simp add: At_def u64_def)

lemma read_shdr_in: "read_shdr mem pos = Inr s \<Longrightarrow> pos + 64 \<le> length mem \<and> sh_pos s = pos"
  by (auto simp: read_shdr_def readable_def split: if_splits)

lemma section_loop_first:
  assumes "\<forall>i < length ss. read_shdr mem (pos + 64 * i) = Inr (ss ! i)" "\<forall>s \<in> set ss. f s = Inr (g s)"
  shows "section_loop mem f pos (length ss) = Inr (first_some g ss)"
  using assms
proof (induction ss arbitrary: pos)
  case (Cons s ss)
  have "read_shdr mem pos = Inr s" using Cons.prems(1) by (auto dest: spec [of _ 0])
  moreover have "\<forall>i < length ss. read_shdr mem (pos + 64 + 64 * i) = Inr (ss ! i)"
  proof (intro allI impI)
    fix i assume "i < length ss"
    then show "read_shdr mem (pos + 64 + 64 * i) = Inr (ss ! i)" using Cons.prems(1) [rule_format, of "Suc i"] by (simp add: add.assoc)
  qed
  then have "section_loop mem f (pos + 64) (length ss) = Inr (first_some g ss)" using Cons by simp
  ultimately show ?case using Cons.prems(2) by (simp split: option.split)
qed simp

lemma elf_layout_header: "elf_layout ef ss \<Longrightarrow> GetElfHeader (ef_mem ef) = Inr (read_ehdr (ef_mem ef))"
  using At_in [of 0 64 "ef_mem ef"] by (simp add: elf_layout_def GetElfHeader_def)

lemma elf_layout_shdr:
  "elf_layout ef ss \<Longrightarrow> i < length ss \<Longrightarrow> e_shoff (read_ehdr (ef_mem ef)) + 64 * i + 64 \<le> length (ef_mem ef)"
  using read_shdr_in unfolding elf_layout_def by blast

lemma each_section_first:
  assumes l: "elf_layout ef ss" and f: "\<forall>s \<in> set ss. f s = Inr (g s)"
  shows "each_section ef f = Inr (first_some g ss)"
proof -
  have "0 < length ss" using l by (simp add: elf_layout_def)
  then have "At (ef_mem ef) (e_shoff (read_ehdr (ef_mem ef))) 64 = Inr (e_shoff (read_ehdr (ef_mem ef)))"
    using elf_layout_shdr [OF l, of 0] l by (intro At_in) (simp_all add: elf_layout_def)
  with section_loop_first [of ss "ef_mem ef" _ f g] l f show ?thesis
    by (simp add: each_section_def elf_layout_header [OF l]) (simp add: elf_layout_def)
qed

lemma GetSectionByIndex_nth:
  assumes l: "elf_layout ef ss" and i: "i < length ss"
  shows "GetSectionByIndex ef i = Inr (ss ! i)"
proof -
  let ?o = "e_shoff (read_ehdr (ef_mem ef))"
  have b: "?o + 64 * i + 64 \<le> length (ef_mem ef)" "length (ef_mem ef) < 2 ^ 64" "e_shnum (read_ehdr (ef_mem ef)) = length ss"
    using elf_layout_shdr [OF l i] l by (simp_all add: elf_layout_def)
  then have "u64 (?o + i * 64) = ?o + 64 * i" by (simp add: u64_def mult.commute)
  moreover have "read_shdr (ef_mem ef) (?o + 64 * i) = Inr (ss ! i)" using l i by (simp add: elf_layout_def)
  ultimately show ?thesis using At_in [OF b(1,2)] b(3) i by (simp add: GetSectionByIndex_def elf_layout_header [OF l])
qed

lemma symbol_loop_first:
  assumes "\<forall>j < length ys. read_sym mem (pos + 24 * j) = Inr (ys ! j)" "\<forall>y \<in> set ys. f y = Inr (P y)"
  shows "symbol_loop mem f pos (length ys) = Inr (List.find P ys)"
  using assms
proof (induction ys arbitrary: pos)
  case (Cons y ys)
  have "read_sym mem pos = Inr y" using Cons.prems(1) by (auto dest: spec [of _ 0])
  moreover have "\<forall>j < length ys. read_sym mem (pos + 24 + 24 * j) = Inr (ys ! j)"
  proof (intro allI impI)
    fix j assume "j < length ys"
    then show "read_sym mem (pos + 24 + 24 * j) = Inr (ys ! j)" using Cons.prems(1) [rule_format, of "Suc j"] by (simp add: add.assoc)
  qed
  then have "symbol_loop mem f (pos + 24) (length ys) = Inr (List.find P ys)" using Cons by simp
  ultimately show ?case using Cons.prems(2) by simp
qed simp

lemma each_symbol_first:
  assumes "symbols_at ef s ys" "length (ef_mem ef) < 2 ^ 64" "\<forall>y \<in> set ys. f y = Inr (P y)"
  shows "each_symbol ef s f = Inr (map_option (Pair s) (List.find P ys))"
  using assms symbol_loop_first [of ys "ef_mem ef" "sh_offset s" f P] At_in [of "sh_offset s" 24 "ef_mem ef"]
  by (simp add: each_symbol_def symbols_at_def)

lemma first_some_symbols:
  "first_some (\<lambda>s. if T s then map_option (Pair s) (List.find P (ys s)) else None) ss =
     List.find (\<lambda>(s, y). P y) (concat (map (\<lambda>s. map (Pair s) (ys s)) (filter T ss)))"
proof (induction ss)
  case (Cons s ss)
  have "List.find (\<lambda>(s, y). P y) (map (Pair s) xs @ zs) =
      (case List.find P xs of Some y \<Rightarrow> Some (s, y) | None \<Rightarrow> List.find (\<lambda>(s, y). P y) zs)" for xs zs
    by (induction xs) auto
  with Cons show ?case by (simp split: option.split)
qed simp

text \<open>
  In a file whose section and symbol tables lie inside it, \<open>GetDefinitionByAddress\<close> returns the first
  defined function or object, over all symbol tables in section order, whose range holds the address, and
  no symbol when there is none.
\<close>
theorem GetDefinitionByAddress_first:
  assumes "elf_layout ef ss" "\<forall>s \<in> set ss. is_symtab s \<longrightarrow> symbols_at ef s (ys s)"
  shows "GetDefinitionByAddress ef address =
    Inr (List.find (\<lambda>(s, y). symbol_covers address y) (concat (map (\<lambda>s. map (Pair s) (ys s)) (filter is_symtab ss))))"
proof -
  let ?g = "\<lambda>s. if is_symtab s then map_option (Pair s) (List.find (symbol_covers address) (ys s)) else None"
  let ?f = "\<lambda>s. if sh_type s \<noteq> 11 \<and> sh_type s \<noteq> 2 then Inr None else each_symbol ef s (\<lambda>y. Inr (symbol_covers address y))"
  have f: "\<forall>s \<in> set ss. ?f s = Inr (?g s)"
  proof
    fix s assume "s \<in> set ss"
    with assms show "?f s = Inr (?g s)"
      using each_symbol_first [of ef s "ys s" "\<lambda>y. Inr (symbol_covers address y)"]
      by (auto simp: is_symtab_def elf_layout_def)
  qed
  show ?thesis unfolding GetDefinitionByAddress_def each_section_first [OF assms(1) f] first_some_symbols ..
qed

subsection \<open>Section names\<close>

abbreviation piece :: "string \<Rightarrow> nat \<Rightarrow> string_piece" where
  "piece mem pos \<equiv> \<lparr>sp_mem = mem, sp_ptr = pos, sp_len = 0\<rparr>"

definition string_table :: "string list \<Rightarrow> string" where
  "string_table es = concat (map (\<lambda>e. e @ [CHR 0x00]) es)"

text \<open>The offset of the first entry of a string table that is the name.\<close>

fun entry_offset :: "string \<Rightarrow> string list \<Rightarrow> nat option" where
  "entry_offset name [] = None"
| "entry_offset name (e # es) = (if e = name then Some 0 else map_option (\<lambda>k. length e + 1 + k) (entry_offset name es))"

lemma moved_piece [simp]: "moved (piece mem pos) n = piece mem (pos + n)"
  by (simp add: moved_def)

lemma c_str_text:
  assumes "text_at (piece mem pos) (e @ [CHR 0x00])" "CHR 0x00 \<notin> set e"
  shows "c_str mem pos = Inr e"
proof -
  have "take (length (e @ [CHR 0x00])) (drop pos mem) = e @ [CHR 0x00]" using assms(1) by (simp only: text_at_def) simp
  then have d: "drop pos mem = (e @ [CHR 0x00]) @ drop (length (e @ [CHR 0x00])) (drop pos mem)" by (metis append_take_drop_id)
  have t: "takeWhile (\<lambda>c. c \<noteq> CHR 0x00) (drop pos mem) = e"
    by (subst d) (use assms(2) in \<open>simp add: takeWhile_append takeWhile_eq_all_conv [THEN iffD2]\<close>)
  have "pos + length (e @ [CHR 0x00]) \<le> length mem" using text_at_block [OF assms(1)] by simp
  with t show ?thesis by (simp add: c_str_def)
qed

lemma scan_names_table:
  assumes "text_at (piece mem cur) (string_table es)" "\<forall>e \<in> set es. CHR 0x00 \<notin> set e"
  shows "scan_names mem name cur (cur + length (string_table es)) = Inr (map_option ((+) cur) (entry_offset name es))"
  using assms
proof (induction es arbitrary: cur)
  case Nil
  then show ?case by (simp add: string_table_def scan_names.simps)
next
  case (Cons e es)
  have t: "text_at (piece mem cur) (e @ [CHR 0x00])" "text_at (piece mem (cur + length e + 1)) (string_table es)"
    using Cons.prems(1) text_at_append [of "piece mem cur" "e @ [CHR 0x00]" "string_table es"]
    by (simp_all only: string_table_def list.map concat.simps) simp_all
  have c: "c_str mem cur = Inr e" using c_str_text [OF t(1)] Cons.prems(2) by simp
  have stop: "cur + length (string_table (e # es)) = cur + length e + 1 + length (string_table es)" by (simp add: string_table_def)
  have "scan_names mem name (cur + length e + 1) (cur + length e + 1 + length (string_table es)) =
      Inr (map_option ((+) (cur + length e + 1)) (entry_offset name es))"
    by (rule Cons.IH [OF t(2)]) (use Cons.prems(2) in simp)
  moreover have "(+) (Suc (cur + length e)) = (\<lambda>k. Suc (cur + length e + k))" by (rule ext) simp
  ultimately show ?case unfolding stop using c
    by (subst scan_names.simps) (simp add: option.map_comp o_def add.assoc)
qed

text \<open>
  \<open>GetSectionByName\<close> returns the first section whose name offset is that of the first whole entry of the section
  name table equal to the name, and no section when there is no such entry. A name that is only the tail of an
  entry, as a linker that merges tails lays it out, is never found.
\<close>
theorem GetSectionByName_entry:
  assumes "elf_layout ef ss" "idx = e_shstrndx (read_ehdr (ef_mem ef))" "0 < idx" "idx < length ss"
    "sh_type (ss ! idx) = 3" "text_at (piece (ef_mem ef) (sh_offset (ss ! idx))) (string_table ([] # es))"
    "sh_size (ss ! idx) = length (string_table ([] # es))" "\<forall>e \<in> set es. CHR 0x00 \<notin> set e"
  shows "GetSectionByName ef name =
    Inr (case entry_offset name ([] # es) of None \<Rightarrow> None | Some k \<Rightarrow> List.find (\<lambda>s. sh_name s = k) ss)"
proof -
  let ?t = "ss ! idx" and ?mem = "ef_mem ef" and ?es = "[] # es"
  let ?tab = "string_table ?es"
  have i: "GetSectionByIndex ef idx = Inr ?t" by (rule GetSectionByIndex_nth [OF assms(1,4)])
  have take: "take (length ?tab) (drop (sh_offset ?t) ?mem) = ?tab" using assms(6) by (simp only: text_at_def) simp
  have b: "sh_offset ?t + length ?tab \<le> length ?mem" using text_at_block [OF assms(6)] by (simp add: string_table_def)
  have nth: "?mem ! (sh_offset ?t + k) = ?tab ! k" if "k < length ?tab" for k
    using that b take by (metis (no_types, lifting) add_leD1 nth_drop nth_take)
  have "last ?tab = CHR 0x00" "?tab \<noteq> []" by (cases es rule: rev_cases; simp add: string_table_def)+
  moreover from this have "?tab ! (length ?tab - 1) = CHR 0x00" "0 < length ?tab" by (metis last_conv_nth) (metis \<open>?tab \<noteq> []\<close> length_greater_0_conv)
  moreover have "?tab ! 0 = CHR 0x00" by (simp add: string_table_def)
  ultimately have z: "?tab ! (length ?tab - 1) = CHR 0x00" "?tab ! 0 = CHR 0x00" "0 < length ?tab" by blast+
  have "?mem ! sh_offset ?t = CHR 0x00" "?mem ! (sh_offset ?t + length ?tab - 1) = CHR 0x00"
    using nth [of 0] nth [of "length ?tab - 1"] z by simp_all
  moreover have "sh_offset ?t < length ?mem" "sh_offset ?t + length ?tab - 1 < length ?mem" using b z(3) by linarith+
  ultimately have v: "ValidateStringTable ef ?t = Inr ()" using assms(5,7) by (simp add: ValidateStringTable_def)
  have "scan_names ?mem name (sh_offset ?t) (sh_offset ?t + sh_size ?t) = Inr (map_option ((+) (sh_offset ?t)) (entry_offset name ?es))"
    unfolding assms(7) by (rule scan_names_table [OF assms(6)]) (use assms(8) in simp)
  moreover have "each_section ef (\<lambda>s. Inr (if sh_name s = k then Some s else None)) = Inr (List.find (\<lambda>s. sh_name s = k) ss)" for k
    using each_section_first [OF assms(1), of "\<lambda>s. Inr (if sh_name s = k then Some s else None)" "\<lambda>s. if sh_name s = k then Some s else None"]
    by (simp add: first_some_if)
  ultimately show ?thesis
    using i v assms(2,3) by (simp add: GetSectionByName_def elf_layout_header [OF assms(1)] del: entry_offset.simps split: option.split)
qed

subsection \<open>A file with one symbol table\<close>

definition encode_ehdr :: "ehdr \<Rightarrow> string" where
  "encode_ehdr h =
     [CHR 0x7F, CHR ''E'', CHR ''L'', CHR ''F'', CHR 0x02, CHR 0x01, CHR 0x01] @ replicate 9 (CHR 0x00) @
     le_bytes 2 (e_type h) @ le_bytes 2 62 @ le_bytes 4 1 @ le_bytes 8 0 @ le_bytes 8 (e_phoff h) @ le_bytes 8 (e_shoff h) @
     le_bytes 4 0 @ le_bytes 2 64 @ le_bytes 2 (e_phentsize h) @ le_bytes 2 (e_phnum h) @ le_bytes 2 (e_shentsize h) @
     le_bytes 2 (e_shnum h) @ le_bytes 2 (e_shstrndx h)"

definition encode_shdr :: "shdr \<Rightarrow> string" where
  "encode_shdr s =
     le_bytes 4 (sh_name s) @ le_bytes 4 (sh_type s) @ le_bytes 8 0 @ le_bytes 8 (sh_addr s) @ le_bytes 8 (sh_offset s) @
     le_bytes 8 (sh_size s) @ le_bytes 4 (sh_link s) @ le_bytes 4 0 @ le_bytes 8 0 @ le_bytes 8 (sh_entsize s)"

definition encode_sym :: "elf_sym \<Rightarrow> string" where
  "encode_sym y =
     le_bytes 4 (st_name y) @ le_bytes 1 (st_info y) @ le_bytes 1 0 @ le_bytes 2 (st_shndx y) @ le_bytes 8 (st_value y) @
     le_bytes 8 (st_size y)"

lemma field_text: "text_at (piece mem pos) (le_bytes n v) \<Longrightarrow> v < 256 ^ n \<Longrightarrow> field mem pos n = v"
proof -
  assume t: "text_at (piece mem pos) (le_bytes n v)" "v < 256 ^ n"
  then have "take n (drop pos mem) = le_bytes n v" by (simp add: text_at_def)
  with t(2) show ?thesis by (simp add: field_def)
qed

lemma length_encode [simp]: "length (encode_ehdr h) = 64" "length (encode_shdr s) = 64" "length (encode_sym y) = 24"
  by (simp_all add: encode_ehdr_def encode_shdr_def encode_sym_def)

definition shdr_fits :: "shdr \<Rightarrow> bool" where
  "shdr_fits s \<longleftrightarrow> sh_name s < 2 ^ 32 \<and> sh_type s < 2 ^ 32 \<and> sh_addr s < 2 ^ 64 \<and> sh_offset s < 2 ^ 64 \<and> sh_size s < 2 ^ 64 \<and>
     sh_link s < 2 ^ 32 \<and> sh_entsize s < 2 ^ 64"

lemma read_shdr_text:
  assumes "text_at (piece mem pos) (encode_shdr s)" "shdr_fits s" "sh_pos s = pos"
  shows "read_shdr mem pos = Inr s"
proof -
  have "encode_shdr s \<noteq> []" using length_encode(2) [of s] by force
  then have b: "pos + 64 \<le> length mem" using text_at_block [OF assms(1)] by simp
  have t: "text_at (piece mem pos) (le_bytes 4 (sh_name s))" "text_at (piece mem (pos + 4)) (le_bytes 4 (sh_type s))"
    "text_at (piece mem (pos + 16)) (le_bytes 8 (sh_addr s))" "text_at (piece mem (pos + 24)) (le_bytes 8 (sh_offset s))"
    "text_at (piece mem (pos + 32)) (le_bytes 8 (sh_size s))" "text_at (piece mem (pos + 40)) (le_bytes 4 (sh_link s))"
    "text_at (piece mem (pos + 56)) (le_bytes 8 (sh_entsize s))"
    using assms(1) by (simp_all add: encode_shdr_def add.assoc)
  show ?thesis
    using b t assms(2,3) by (simp add: read_shdr_def readable_def field_text shdr_fits_def)
qed

definition sym_fits :: "elf_sym \<Rightarrow> bool" where
  "sym_fits y \<longleftrightarrow> st_name y < 2 ^ 32 \<and> st_info y < 2 ^ 8 \<and> st_shndx y < 2 ^ 16 \<and> st_value y < 2 ^ 64 \<and> st_size y < 2 ^ 64"

lemma read_sym_text:
  assumes "text_at (piece mem pos) (encode_sym y)" "sym_fits y" "st_pos y = pos"
  shows "read_sym mem pos = Inr y"
proof -
  have "encode_sym y \<noteq> []" using length_encode(3) [of y] by force
  then have b: "pos + 24 \<le> length mem" using text_at_block [OF assms(1)] by simp
  have t: "text_at (piece mem pos) (le_bytes 4 (st_name y))" "text_at (piece mem (pos + 4)) (le_bytes 1 (st_info y))"
    "text_at (piece mem (pos + 6)) (le_bytes 2 (st_shndx y))" "text_at (piece mem (pos + 8)) (le_bytes 8 (st_value y))"
    "text_at (piece mem (pos + 16)) (le_bytes 8 (st_size y))"
    using assms(1) by (simp_all add: encode_sym_def ac_simps del: le_bytes.simps)
  show ?thesis
    using b t assms(2,3) by (simp add: read_sym_def readable_def field_text sym_fits_def)
qed

definition demo_ehdr :: ehdr where
  "demo_ehdr = \<lparr>e_type = 3, e_phoff = 0, e_shoff = 64, e_phentsize = 56, e_phnum = 1, e_shentsize = 64, e_shnum = 2, e_shstrndx = 1\<rparr>"

definition demo_symtab :: shdr where
  "demo_symtab = \<lparr>sh_pos = 64, sh_name = 8, sh_type = 2, sh_addr = 0, sh_offset = 192, sh_size = 48, sh_link = 1, sh_entsize = 24\<rparr>"

definition demo_strtab :: shdr where
  "demo_strtab = \<lparr>sh_pos = 128, sh_name = 1, sh_type = 3, sh_addr = 0, sh_offset = 240, sh_size = 16, sh_link = 0, sh_entsize = 0\<rparr>"

definition demo_symbols :: "elf_sym list" where
  "demo_symbols = [\<lparr>st_pos = 192, st_name = 0, st_info = 0, st_shndx = 0, st_value = 0, st_size = 0\<rparr>,
     \<lparr>st_pos = 216, st_name = 8, st_info = 18, st_shndx = 1, st_value = 4096, st_size = 32\<rparr>]"

definition demo_names :: "string list" where "demo_names = [''.names'', ''.symtab'']"

definition demo_elf :: elf_file where
  "demo_elf = \<lparr>ef_mem = encode_ehdr demo_ehdr @ encode_shdr demo_symtab @ encode_shdr demo_strtab @
     encode_sym (demo_symbols ! 0) @ encode_sym (demo_symbols ! 1) @ string_table ([] # demo_names), ef_base_address = 0\<rparr>"

lemma demo_elf_text:
  "text_at (piece (ef_mem demo_elf) 0) (encode_ehdr demo_ehdr)"
  "text_at (piece (ef_mem demo_elf) 64) (encode_shdr demo_symtab)" "text_at (piece (ef_mem demo_elf) 128) (encode_shdr demo_strtab)"
  "text_at (piece (ef_mem demo_elf) 192) (encode_sym (demo_symbols ! 0))" "text_at (piece (ef_mem demo_elf) 216) (encode_sym (demo_symbols ! 1))"
  "text_at (piece (ef_mem demo_elf) 240) (string_table ([] # demo_names))"
proof -
  have "text_at (piece (ef_mem demo_elf) 0) (ef_mem demo_elf)" by (simp add: text_at_def del: text_at_append)
  then have "text_at (piece (ef_mem demo_elf) 0) (encode_ehdr demo_ehdr @ encode_shdr demo_symtab @ encode_shdr demo_strtab @
     encode_sym (demo_symbols ! 0) @ encode_sym (demo_symbols ! 1) @ string_table ([] # demo_names))"
    by (simp only: demo_elf_def elf_file.simps)
  then show "text_at (piece (ef_mem demo_elf) 0) (encode_ehdr demo_ehdr)"
    "text_at (piece (ef_mem demo_elf) 64) (encode_shdr demo_symtab)" "text_at (piece (ef_mem demo_elf) 128) (encode_shdr demo_strtab)"
    "text_at (piece (ef_mem demo_elf) 192) (encode_sym (demo_symbols ! 0))" "text_at (piece (ef_mem demo_elf) 216) (encode_sym (demo_symbols ! 1))"
    "text_at (piece (ef_mem demo_elf) 240) (string_table ([] # demo_names))"
    by (simp_all only: text_at_append moved_piece length_encode) simp_all
qed

lemma demo_elf_header: "e_shoff (read_ehdr (ef_mem demo_elf)) = 64" "e_shnum (read_ehdr (ef_mem demo_elf)) = 2" "e_shstrndx (read_ehdr (ef_mem demo_elf)) = 1"
proof -
  have "text_at (piece (ef_mem demo_elf) 40) (le_bytes 8 64)" "text_at (piece (ef_mem demo_elf) 60) (le_bytes 2 2)"
    "text_at (piece (ef_mem demo_elf) 62) (le_bytes 2 1)"
    using demo_elf_text(1)
    unfolding encode_ehdr_def text_at_append moved_piece length_le_bytes length_replicate list.size by (simp_all add: demo_ehdr_def)
  then show "e_shoff (read_ehdr (ef_mem demo_elf)) = 64" "e_shnum (read_ehdr (ef_mem demo_elf)) = 2" "e_shstrndx (read_ehdr (ef_mem demo_elf)) = 1"
    by (simp_all add: read_ehdr_def field_text)
qed

lemma length_demo_elf: "length (ef_mem demo_elf) = 256"
  by (simp add: demo_elf_def string_table_def demo_names_def)

lemma demo_elf_layout: "elf_layout demo_elf [demo_symtab, demo_strtab]"
proof -
  have "read_shdr (ef_mem demo_elf) 64 = Inr demo_symtab" "read_shdr (ef_mem demo_elf) 128 = Inr demo_strtab"
    by (rule read_shdr_text, rule demo_elf_text; simp add: shdr_fits_def demo_symtab_def demo_strtab_def)+
  then have "\<forall>i < 2. read_shdr (ef_mem demo_elf) (64 + 64 * i) = Inr ([demo_symtab, demo_strtab] ! i)"
    by (auto simp: less_Suc_eq numeral_2_eq_2)
  then show ?thesis by (simp add: elf_layout_def demo_elf_header length_demo_elf)
qed

lemma demo_symbols_at: "symbols_at demo_elf demo_symtab demo_symbols"
proof -
  have "read_sym (ef_mem demo_elf) 192 = Inr (demo_symbols ! 0)" "read_sym (ef_mem demo_elf) 216 = Inr (demo_symbols ! 1)"
    by (rule read_sym_text, rule demo_elf_text; simp add: sym_fits_def demo_symbols_def)+
  then have "\<forall>j < 2. read_sym (ef_mem demo_elf) (192 + 24 * j) = Inr (demo_symbols ! j)"
    by (auto simp: less_Suc_eq numeral_2_eq_2)
  then show ?thesis by (simp add: symbols_at_def length_demo_elf demo_symtab_def) (simp add: demo_symbols_def)
qed

end
