(* ===== verification/Syscalls.thy ===== *)
theory Syscalls
  imports Prelude
begin

text \<open>
  The C library calls on files that \<^verbatim>\<open>files/FileUtil.cc\<close> makes.

  A path is its text: it names one node, relative to one working directory, and a link is followed at most 40 times.
  A regular file is an inode with its bytes. A \<open>FILE\<close> is a stream that holds the bytes \<open>fwrite\<close> accepted until
  \<open>fflush\<close> or \<open>fclose\<close>; a file has one writing stream at a time, whose bytes go behind what it wrote. Each call has
  a number, and the environment \<open>libc\<close> decides by it whether the call succeeds, how many bytes a transfer that
  fails has moved before, and which names \<open>readdir\<close> yields; permissions, full disks, interrupted transfers and the
  emptiness of a directory are such decisions. A call on a closed or null \<open>FILE\<close> is the failure \<open>Dangling_Pointer\<close>.
\<close>

record libc =
  lc_ok :: "nat \<Rightarrow> bool"
  lc_max :: "nat \<Rightarrow> nat"
  lc_names :: "nat \<Rightarrow> string list"

datatype node = Regular nat | Directory | Symlink string

record stream =
  fs_inode :: "nat option"
  fs_pos :: nat
  fs_pending :: string
  fs_eof :: bool

record world =
  w_nodes :: "string \<Rightarrow> node option"
  w_data :: "nat \<Rightarrow> string"
  w_streams :: "nat \<Rightarrow> stream option"
  w_fds :: "nat \<Rightarrow> nat option"
  w_locks :: "nat \<Rightarrow> nat option"
  w_fresh :: nat
  w_calls :: nat

definition tick :: "world \<Rightarrow> world" where "tick w = w\<lparr>w_calls := w_calls w + 1\<rparr>"
definition succeeds :: "libc \<Rightarrow> world \<Rightarrow> bool" where "succeeds E w = lc_ok E (w_calls w)"
definition moved_max :: "libc \<Rightarrow> world \<Rightarrow> nat" where "moved_max E w = lc_max E (w_calls w)"

fun follow :: "nat \<Rightarrow> (string \<Rightarrow> node option) \<Rightarrow> string \<Rightarrow> string option" where
  "follow 0 nodes p = None"
| "follow (Suc k) nodes p = (case nodes p of Some (Symlink t) \<Rightarrow> follow k nodes t | _ \<Rightarrow> Some p)"

definition lookup_node :: "world \<Rightarrow> string \<Rightarrow> node option" where
  "lookup_node w p = (case follow 41 (w_nodes w) p of None \<Rightarrow> None | Some q \<Rightarrow> w_nodes w q)"

text \<open>The inode a new regular file gets, and the world with it.\<close>

definition create_node :: "string \<Rightarrow> world \<Rightarrow> (nat \<times> world) option" where
  "create_node p w =
     (case follow 41 (w_nodes w) p of None \<Rightarrow> None
      | Some q \<Rightarrow> Some (w_fresh w, w\<lparr>w_nodes := (w_nodes w)(q \<mapsto> Regular (w_fresh w)),
                                     w_data := (w_data w)(w_fresh w := ''''), w_fresh := w_fresh w + 1\<rparr>))"

subsection \<open>Streams\<close>

datatype open_mode = Mode_r | Mode_w | Mode_a

definition new_stream :: "nat option \<Rightarrow> world \<Rightarrow> nat \<times> world" where
  "new_stream i w =
     (w_fresh w, w\<lparr>w_streams := (w_streams w)(w_fresh w \<mapsto> \<lparr>fs_inode = i, fs_pos = 0, fs_pending = '''', fs_eof = False\<rparr>),
                   w_fresh := w_fresh w + 1\<rparr>)"

definition open_node :: "open_mode \<Rightarrow> string \<Rightarrow> world \<Rightarrow> (nat option \<times> world) option" where
  "open_node mode name w =
     (case lookup_node w name of
        Some (Regular i) \<Rightarrow> Some (Some i, if mode = Mode_w then w\<lparr>w_data := (w_data w)(i := '''')\<rparr> else w)
      | Some _ \<Rightarrow> if mode = Mode_r then Some (None, w) else None
      | None \<Rightarrow> if mode = Mode_r then None else map_option (\<lambda>(i, w). (Some i, w)) (create_node name w))"

definition c_fopen :: "libc \<Rightarrow> string \<Rightarrow> open_mode \<Rightarrow> world \<Rightarrow> nat option \<times> world" where
  "c_fopen E name mode w =
     (if succeeds E w
      then case open_node mode name (tick w) of None \<Rightarrow> (None, tick w)
           | Some (i, w) \<Rightarrow> (let (h, w) = new_stream i w in (Some h, w))
      else (None, tick w))"

text \<open>The state of a stream, when the pointer is one of an open stream.\<close>

definition on_stream :: "nat option \<Rightarrow> world \<Rightarrow> (nat \<Rightarrow> stream \<Rightarrow> 'a result) \<Rightarrow> 'a result" where
  "on_stream fp w f =
     (case fp of None \<Rightarrow> Inl Dangling_Pointer
      | Some h \<Rightarrow> (case w_streams w h of None \<Rightarrow> Inl Dangling_Pointer | Some s \<Rightarrow> f h s))"

definition set_stream :: "nat \<Rightarrow> stream \<Rightarrow> world \<Rightarrow> world" where
  "set_stream h s w = w\<lparr>w_streams := (w_streams w)(h \<mapsto> s)\<rparr>"

definition c_fread :: "libc \<Rightarrow> nat option \<Rightarrow> nat \<Rightarrow> world \<Rightarrow> (string \<times> world) result" where
  "c_fread E fp n w = on_stream fp w (\<lambda>h s.
     case fs_inode s of None \<Rightarrow> Inr ('''', tick w)
     | Some i \<Rightarrow>
         let chunk = take (if succeeds E w then n else min n (moved_max E w)) (drop (fs_pos s) (w_data w i))
         in Inr (chunk, set_stream h (s\<lparr>fs_pos := fs_pos s + length chunk,
                                        fs_eof := (fs_eof s \<or> succeeds E w \<and> length chunk < n)\<rparr>) (tick w)))"

definition c_feof :: "nat option \<Rightarrow> world \<Rightarrow> bool result" where
  "c_feof fp w = on_stream fp w (\<lambda>h s. Inr (fs_eof s))"

text \<open>\<open>fseek(fp, n, SEEK_CUR)\<close>: true when it succeeded.\<close>

definition c_fseek :: "libc \<Rightarrow> nat option \<Rightarrow> int \<Rightarrow> world \<Rightarrow> (bool \<times> world) result" where
  "c_fseek E fp n w = on_stream fp w (\<lambda>h s.
     if succeeds E w \<and> 0 \<le> int (fs_pos s) + n
     then Inr (True, set_stream h (s\<lparr>fs_pos := nat (int (fs_pos s) + n), fs_eof := False\<rparr>) (tick w))
     else Inr (False, tick w))"

definition c_fwrite :: "libc \<Rightarrow> nat option \<Rightarrow> string \<Rightarrow> world \<Rightarrow> (nat \<times> world) result" where
  "c_fwrite E fp d w = on_stream fp w (\<lambda>h s.
     let k = (if succeeds E w then length d else min (moved_max E w) (length d))
     in Inr (k, set_stream h (s\<lparr>fs_pending := fs_pending s @ take k d\<rparr>) (tick w)))"

definition sync :: "stream \<Rightarrow> world \<Rightarrow> world" where
  "sync s w = (case fs_inode s of None \<Rightarrow> w | Some i \<Rightarrow> w\<lparr>w_data := (w_data w)(i := w_data w i @ fs_pending s)\<rparr>)"

definition c_fflush :: "libc \<Rightarrow> nat option \<Rightarrow> world \<Rightarrow> (bool \<times> world) result" where
  "c_fflush E fp w = on_stream fp w (\<lambda>h s.
     if succeeds E w then Inr (True, set_stream h (s\<lparr>fs_pending := ''''\<rparr>) (sync s (tick w))) else Inr (False, tick w))"

text \<open>\<open>fclose\<close> closes the stream even when it cannot write its last bytes.\<close>

definition c_fclose :: "libc \<Rightarrow> nat option \<Rightarrow> world \<Rightarrow> (bool \<times> world) result" where
  "c_fclose E fp w = on_stream fp w (\<lambda>h s.
     let w' = (if succeeds E w then sync s (tick w) else tick w)
     in Inr (succeeds E w, w'\<lparr>w_streams := (w_streams w')(h := None)\<rparr>))"

text \<open>\<open>setbuffer\<close> touches the stream, which must not be null.\<close>

definition c_setbuffer :: "nat option \<Rightarrow> world \<Rightarrow> unit result" where
  "c_setbuffer fp w = on_stream fp w (\<lambda>h s. Inr ())"

subsection \<open>Descriptors\<close>

definition c_open :: "libc \<Rightarrow> string \<Rightarrow> bool \<Rightarrow> world \<Rightarrow> nat option \<times> world" where
  "c_open E name creat w =
     (if succeeds E w
      then case open_node (if creat then Mode_a else Mode_r) name (tick w) of
             Some (Some i, w) \<Rightarrow> (Some (w_fresh w), w\<lparr>w_fds := (w_fds w)(w_fresh w \<mapsto> i), w_fresh := w_fresh w + 1\<rparr>)
           | _ \<Rightarrow> (None, tick w)
      else (None, tick w))"

text \<open>Closing the descriptor releases the lock taken through it.\<close>

definition c_close :: "nat \<Rightarrow> world \<Rightarrow> world" where
  "c_close fd w =
     (tick w)\<lparr>w_fds := (w_fds w)(fd := None), w_locks := (\<lambda>i. if w_locks w i = Some fd then None else w_locks w i)\<rparr>"

definition c_pread :: "libc \<Rightarrow> nat \<Rightarrow> nat \<Rightarrow> int \<Rightarrow> world \<Rightarrow> string option \<times> world" where
  "c_pread E fd n off w =
     (case w_fds w fd of None \<Rightarrow> (None, tick w)
      | Some i \<Rightarrow> if succeeds E w \<and> 0 \<le> off then (Some (take n (drop (nat off) (w_data w i))), tick w) else (None, tick w))"

text \<open>\<open>flock\<close> with \<open>LOCK_NB\<close>: the lock of an inode belongs to one descriptor.\<close>

definition c_flock :: "libc \<Rightarrow> nat \<Rightarrow> bool \<Rightarrow> world \<Rightarrow> bool \<times> world" where
  "c_flock E fd exclusive w =
     (case w_fds w fd of None \<Rightarrow> (False, tick w)
      | Some i \<Rightarrow>
          if \<not> succeeds E w then (False, tick w)
          else if exclusive
          then if w_locks w i = None \<or> w_locks w i = Some fd then (True, (tick w)\<lparr>w_locks := (w_locks w)(i \<mapsto> fd)\<rparr>)
               else (False, tick w)
          else (True, (tick w)\<lparr>w_locks := (if w_locks w i = Some fd then (w_locks w)(i := None) else w_locks w)\<rparr>))"

subsection \<open>Names\<close>

text \<open>\<open>change_nodes\<close> is a call that changes the directory tree when it succeeds under a condition.\<close>

definition change_nodes :: "libc \<Rightarrow> bool \<Rightarrow> ((string \<Rightarrow> node option) \<Rightarrow> string \<Rightarrow> node option) \<Rightarrow> world \<Rightarrow> bool \<times> world" where
  "change_nodes E possible f w =
     (if succeeds E w \<and> possible then (True, (tick w)\<lparr>w_nodes := f (w_nodes w)\<rparr>) else (False, tick w))"

definition c_unlink :: "libc \<Rightarrow> string \<Rightarrow> world \<Rightarrow> bool \<times> world" where
  "c_unlink E p w = change_nodes E (w_nodes w p \<noteq> None \<and> w_nodes w p \<noteq> Some Directory) (\<lambda>ns. ns(p := None)) w"

definition c_mkdir :: "libc \<Rightarrow> string \<Rightarrow> world \<Rightarrow> bool \<times> world" where
  "c_mkdir E p w = change_nodes E (w_nodes w p = None) (\<lambda>ns. ns(p \<mapsto> Directory)) w"

definition c_rmdir :: "libc \<Rightarrow> string \<Rightarrow> world \<Rightarrow> bool \<times> world" where
  "c_rmdir E p w = change_nodes E (w_nodes w p = Some Directory) (\<lambda>ns. ns(p := None)) w"

definition c_rename :: "libc \<Rightarrow> string \<Rightarrow> string \<Rightarrow> world \<Rightarrow> bool \<times> world" where
  "c_rename E p q w = change_nodes E (w_nodes w p \<noteq> None) (\<lambda>ns. (ns(p := None))(q := ns p)) w"

definition c_symlink :: "libc \<Rightarrow> string \<Rightarrow> string \<Rightarrow> world \<Rightarrow> bool \<times> world" where
  "c_symlink E target p w = change_nodes E (w_nodes w p = None) (\<lambda>ns. ns(p \<mapsto> Symlink target)) w"

definition c_access :: "libc \<Rightarrow> string \<Rightarrow> world \<Rightarrow> bool \<times> world" where
  "c_access E p w = (succeeds E w \<and> lookup_node w p \<noteq> None, tick w)"

text \<open>\<open>stat\<close> gives the size; that of a directory is a decision of the environment.\<close>

definition c_stat :: "libc \<Rightarrow> string \<Rightarrow> world \<Rightarrow> nat option \<times> world" where
  "c_stat E p w =
     (if succeeds E w
      then case lookup_node w p of None \<Rightarrow> (None, tick w)
           | Some (Regular i) \<Rightarrow> (Some (length (w_data w i)), tick w)
           | Some _ \<Rightarrow> (Some (moved_max E w), tick w)
      else (None, tick w))"

definition c_lstat :: "libc \<Rightarrow> string \<Rightarrow> world \<Rightarrow> node option \<times> world" where
  "c_lstat E p w = (if succeeds E w then w_nodes w p else None, tick w)"

definition c_readlink :: "libc \<Rightarrow> string \<Rightarrow> nat \<Rightarrow> world \<Rightarrow> string option \<times> world" where
  "c_readlink E p n w =
     (case w_nodes w p of Some (Symlink t) \<Rightarrow> (if succeeds E w then Some (take n t) else None, tick w)
      | _ \<Rightarrow> (None, tick w))"

definition c_readdir :: "libc \<Rightarrow> string \<Rightarrow> world \<Rightarrow> string list option \<times> world" where
  "c_readdir E p w =
     (if succeeds E w \<and> lookup_node w p = Some Directory then (Some (lc_names E (w_calls w)), tick w) else (None, tick w))"

subsection \<open>Facts\<close>

definition calm :: "libc \<Rightarrow> bool" where "calm E \<longleftrightarrow> (\<forall>n. lc_ok E n)"

lemma calm_succeeds [simp]: "calm E \<Longrightarrow> succeeds E w"
  by (simp add: calm_def succeeds_def)

lemma tick_simps [simp]:
  "w_nodes (tick w) = w_nodes w" "w_data (tick w) = w_data w" "w_streams (tick w) = w_streams w" "w_fds (tick w) = w_fds w"
  "w_locks (tick w) = w_locks w" "w_fresh (tick w) = w_fresh w"
  by (simp_all add: tick_def)

lemma set_stream_simps [simp]:
  "w_nodes (set_stream h s w) = w_nodes w" "w_data (set_stream h s w) = w_data w"
  "w_streams (set_stream h s w) = (w_streams w)(h \<mapsto> s)" "w_fds (set_stream h s w) = w_fds w"
  "w_locks (set_stream h s w) = w_locks w" "w_fresh (set_stream h s w) = w_fresh w" "w_calls (set_stream h s w) = w_calls w"
  by (simp_all add: set_stream_def)

lemma lookup_node_tick [simp]: "lookup_node (tick w) p = lookup_node w p"
  by (simp add: lookup_node_def split: option.split)

lemma on_stream_open [simp]: "w_streams w h = Some s \<Longrightarrow> on_stream (Some h) w f = f h s"
  by (simp add: on_stream_def)

lemma on_stream_closed [simp]: "w_streams w h = None \<Longrightarrow> on_stream (Some h) w f = Inl Dangling_Pointer"
  by (simp add: on_stream_def)

lemma on_stream_null [simp]: "on_stream None w f = Inl Dangling_Pointer"
  by (simp add: on_stream_def)

text \<open>The bytes a stream has left to read.\<close>

definition stream_left :: "nat option \<Rightarrow> world \<Rightarrow> nat" where
  "stream_left fp w =
     (case fp of None \<Rightarrow> 0 | Some h \<Rightarrow> (case w_streams w h of None \<Rightarrow> 0
      | Some s \<Rightarrow> (case fs_inode s of None \<Rightarrow> 0 | Some i \<Rightarrow> length (w_data w i) - fs_pos s)))"

lemma c_fread_left:
  assumes "c_fread E fp n w = Inr (chunk, w')"
  shows "stream_left fp w' = stream_left fp w - length chunk \<and> length chunk \<le> stream_left fp w"
proof -
  obtain h where fp: "fp = Some h" using assms by (cases fp) (auto simp: c_fread_def)
  obtain s where s: "w_streams w h = Some s" using assms by (cases "w_streams w h") (auto simp: c_fread_def fp)
  show ?thesis
    using assms s by (cases "fs_inode s") (auto simp: c_fread_def fp stream_left_def Let_def)
qed

end
