(* ===== verification/Files.thy ===== *)
theory Files
  imports Syscalls Strings "HOL-Library.Sublist"
begin

text \<open>
  The file utilities, \<^verbatim>\<open>files/FileUtil.h,.cc\<close>, over the calls of \<^verbatim>\<open>Syscalls\<close>.

  An operation takes the environment and the world and returns its \<open>Status\<close>, its results and the world; a use of a
  \<open>FILE\<close> that is null or already closed ends in \<open>Dangling_Pointer\<close>. What the operations write to the error log is left
  out. \<open>FileLock\<close> objects and the other pointers returned are options, \<open>None\<close> for \<open>NULL\<close>.
\<close>

datatype Status = kOk | kIOError

definition status_of :: "bool \<Rightarrow> Status" where "status_of b = (if b then kOk else kIOError)"

subsection \<open>Sequential and random reading\<close>

record sequential_file =
  sf_filename :: string
  sf_fp :: "nat option"

record random_access_file =
  rf_filename :: string
  rf_fd :: nat

definition SequentialFile_open :: "libc \<Rightarrow> string \<Rightarrow> world \<Rightarrow> sequential_file \<times> world" where
  "SequentialFile_open E fname w = (let (fp, w) = c_fopen E fname Mode_r w in (\<lparr>sf_filename = fname, sf_fp = fp\<rparr>, w))"

definition SequentialFile_of :: "string \<Rightarrow> nat \<Rightarrow> sequential_file" where
  "SequentialFile_of fname fp = \<lparr>sf_filename = fname, sf_fp = Some fp\<rparr>"

definition SequentialFile_delete :: "libc \<Rightarrow> sequential_file \<Rightarrow> world \<Rightarrow> world result" where
  "SequentialFile_delete E f w = bindR (c_fclose E (sf_fp f) w) (\<lambda>(_, w). Inr w)"

definition SequentialFile_Read :: "libc \<Rightarrow> sequential_file \<Rightarrow> nat \<Rightarrow> world \<Rightarrow> (Status \<times> string \<times> world) result" where
  "SequentialFile_Read E f n w =
     bindR (c_fread E (sf_fp f) n w) (\<lambda>(scratch, w).
       if length scratch < n
       then bindR (c_feof (sf_fp f) w) (\<lambda>eof. Inr (if eof then kOk else kIOError, scratch, w))
       else Inr (kOk, scratch, w))"

definition SequentialFile_Skip :: "libc \<Rightarrow> sequential_file \<Rightarrow> nat \<Rightarrow> world \<Rightarrow> (Status \<times> world) result" where
  "SequentialFile_Skip E f n w = bindR (c_fseek E (sf_fp f) (i64 (int n)) w) (\<lambda>(b, w). Inr (status_of b, w))"

definition RandomAccessFile_of :: "string \<Rightarrow> nat \<Rightarrow> random_access_file" where
  "RandomAccessFile_of fname fd = \<lparr>rf_filename = fname, rf_fd = fd\<rparr>"

definition RandomAccessFile_delete :: "random_access_file \<Rightarrow> world \<Rightarrow> world" where
  "RandomAccessFile_delete f w = c_close (rf_fd f) w"

definition RandomAccessFile_Read ::
    "libc \<Rightarrow> random_access_file \<Rightarrow> nat \<Rightarrow> nat \<Rightarrow> world \<Rightarrow> Status \<times> string \<times> world" where
  "RandomAccessFile_Read E f offset n w =
     (let (r, w) = c_pread E (rf_fd f) n (i64 (int offset)) w
      in case r of None \<Rightarrow> (kIOError, '''', w) | Some scratch \<Rightarrow> (kOk, scratch, w))"

subsection \<open>Writing\<close>

record writable_file =
  wf_filename :: string
  wf_fp :: "nat option"
  wf_written :: nat

definition WritableFile_of :: "string \<Rightarrow> nat option \<Rightarrow> world \<Rightarrow> writable_file result" where
  "WritableFile_of fname fp w =
     bindR (c_setbuffer fp w) (\<lambda>_. Inr \<lparr>wf_filename = fname, wf_fp = fp, wf_written = 0\<rparr>)"

definition WritableFile_open :: "libc \<Rightarrow> string \<Rightarrow> world \<Rightarrow> (writable_file \<times> world) result" where
  "WritableFile_open E fname w =
     (let (fp, w) = c_fopen E fname Mode_w w in bindR (WritableFile_of fname fp w) (\<lambda>f. Inr (f, w)))"

definition AppendableFile_open :: "libc \<Rightarrow> string \<Rightarrow> world \<Rightarrow> (writable_file \<times> world) result" where
  "AppendableFile_open E fname w =
     (let (fp, w) = c_fopen E fname Mode_a w in bindR (WritableFile_of fname fp w) (\<lambda>f. Inr (f, w)))"

definition WritableFile_delete :: "libc \<Rightarrow> writable_file \<Rightarrow> world \<Rightarrow> world result" where
  "WritableFile_delete E f w = bindR (c_fclose E (wf_fp f) w) (\<lambda>(_, w). Inr w)"

text \<open>The loop behind the first \<open>fwrite\<close>, which wrote \<open>n\<close> bytes: status, bytes written, world.\<close>

function append_loop :: "libc \<Rightarrow> nat option \<Rightarrow> string \<Rightarrow> nat \<Rightarrow> world \<Rightarrow> (Status \<times> nat \<times> world) result" where
  "append_loop E fp data n w =
     (if n < length data
      then bindR (c_fwrite E fp (drop n data) w) (\<lambda>(x, w). if x = 0 then Inr (kIOError, n, w) else append_loop E fp data (n + x) w)
      else Inr (kOk, n, w))"
  by pat_completeness auto
termination
  by (relation "measure (\<lambda>(E, fp, data, n, w). length data - n)") auto

declare append_loop.simps [simp del]

definition WritableFile_Append :: "libc \<Rightarrow> writable_file \<Rightarrow> string \<Rightarrow> world \<Rightarrow> (Status \<times> writable_file \<times> world) result" where
  "WritableFile_Append E f data w =
     bindR (c_fwrite E (wf_fp f) data w) (\<lambda>(n, w).
     bindR (append_loop E (wf_fp f) data n w) (\<lambda>(s, n, w). Inr (s, f\<lparr>wf_written := wf_written f + n\<rparr>, w)))"

definition WritableFile_Close :: "libc \<Rightarrow> writable_file \<Rightarrow> world \<Rightarrow> (Status \<times> world) result" where
  "WritableFile_Close E f w = bindR (c_fclose E (wf_fp f) w) (\<lambda>(b, w). Inr (status_of b, w))"

definition WritableFile_Flush :: "libc \<Rightarrow> writable_file \<Rightarrow> world \<Rightarrow> (Status \<times> world) result" where
  "WritableFile_Flush E f w = bindR (c_fflush E (wf_fp f) w) (\<lambda>(b, w). Inr (status_of b, w))"

definition WrittenBytes :: "writable_file \<Rightarrow> nat" where "WrittenBytes f = wf_written f"

subsection \<open>Names\<close>

definition FileExists :: "libc \<Rightarrow> string \<Rightarrow> world \<Rightarrow> bool \<times> world" where
  "FileExists E fname w = c_access E fname w"

definition GetChildren :: "libc \<Rightarrow> string \<Rightarrow> world \<Rightarrow> Status \<times> string list \<times> world" where
  "GetChildren E dir w =
     (let (names, w) = c_readdir E dir w in case names of None \<Rightarrow> (kIOError, [], w) | Some ns \<Rightarrow> (kOk, ns, w))"

definition from_call :: "bool \<times> world \<Rightarrow> Status \<times> world" where
  "from_call r = (status_of (fst r), snd r)"

definition DeleteFile :: "libc \<Rightarrow> string \<Rightarrow> world \<Rightarrow> Status \<times> world" where
  "DeleteFile E fname w = from_call (c_unlink E fname w)"

definition CreateDir :: "libc \<Rightarrow> string \<Rightarrow> world \<Rightarrow> Status \<times> world" where
  "CreateDir E name w = from_call (c_mkdir E name w)"

definition DeleteDir :: "libc \<Rightarrow> string \<Rightarrow> world \<Rightarrow> Status \<times> world" where
  "DeleteDir E name w = from_call (c_rmdir E name w)"

definition GetFileSize :: "libc \<Rightarrow> string \<Rightarrow> world \<Rightarrow> Status \<times> nat \<times> world" where
  "GetFileSize E fname w =
     (let (size, w) = c_stat E fname w in case size of None \<Rightarrow> (kIOError, 0, w) | Some n \<Rightarrow> (kOk, n, w))"

definition RenameFile :: "libc \<Rightarrow> string \<Rightarrow> string \<Rightarrow> world \<Rightarrow> Status \<times> world" where
  "RenameFile E src target w = from_call (c_rename E src target w)"

definition SymLink :: "libc \<Rightarrow> string \<Rightarrow> string \<Rightarrow> world \<Rightarrow> Status \<times> world" where
  "SymLink E oldname newname w = from_call (c_symlink E oldname newname w)"

definition IsSymLink :: "libc \<Rightarrow> string \<Rightarrow> world \<Rightarrow> bool \<times> world" where
  "IsSymLink E fname w =
     (let (node, w) = c_lstat E fname w in (case node of Some (Symlink _) \<Rightarrow> True | _ \<Rightarrow> False, w))"

definition ReadLink :: "libc \<Rightarrow> string \<Rightarrow> world \<Rightarrow> (Status \<times> string \<times> world) result" where
  "ReadLink E fname w =
     (let (r, w) = c_readlink E fname 1024 w
      in case r of None \<Rightarrow> Inr (kIOError, '''', w) | Some name \<Rightarrow> DCHECK (length name < 1024) (Inr (kOk, name, w)))"

subsection \<open>Opening\<close>

definition NewSequentialFile :: "libc \<Rightarrow> string \<Rightarrow> world \<Rightarrow> Status \<times> sequential_file option \<times> world" where
  "NewSequentialFile E fname w =
     (let (fp, w) = c_fopen E fname Mode_r w
      in case fp of None \<Rightarrow> (kIOError, None, w) | Some h \<Rightarrow> (kOk, Some (SequentialFile_of fname h), w))"

definition NewRandomAccessFile :: "libc \<Rightarrow> string \<Rightarrow> world \<Rightarrow> Status \<times> random_access_file option \<times> world" where
  "NewRandomAccessFile E fname w =
     (let (fd, w) = c_open E fname False w
      in case fd of None \<Rightarrow> (kIOError, None, w) | Some d \<Rightarrow> (kOk, Some (RandomAccessFile_of fname d), w))"

definition NewWritableFile :: "libc \<Rightarrow> string \<Rightarrow> world \<Rightarrow> (Status \<times> writable_file option \<times> world) result" where
  "NewWritableFile E fname w =
     (let (fp, w) = c_fopen E fname Mode_w w
      in case fp of None \<Rightarrow> Inr (kIOError, None, w)
         | Some h \<Rightarrow> bindR (WritableFile_of fname (Some h) w) (\<lambda>f. Inr (kOk, Some f, w)))"

definition NewAppendableFile :: "libc \<Rightarrow> string \<Rightarrow> world \<Rightarrow> (Status \<times> writable_file option \<times> world) result" where
  "NewAppendableFile E fname w =
     (let (fp, w) = c_fopen E fname Mode_a w
      in case fp of None \<Rightarrow> Inr (kIOError, None, w)
         | Some h \<Rightarrow>
             let (s, size, w) = GetFileSize E fname w
             in if s \<noteq> kOk then bindR (c_fclose E (Some h) w) (\<lambda>(_, w). Inr (s, None, w))
                else bindR (WritableFile_of fname (Some h) w) (\<lambda>f. Inr (s, Some f, w)))"

subsection \<open>Locks\<close>

record FileLock =
  fl_fd :: nat

definition LockOrUnlock :: "libc \<Rightarrow> nat \<Rightarrow> bool \<Rightarrow> world \<Rightarrow> int \<times> world" where
  "LockOrUnlock E fd lock w = (let (b, w) = c_flock E fd lock w in (if b then 0 else -1, w))"

definition LockFile :: "libc \<Rightarrow> string \<Rightarrow> world \<Rightarrow> Status \<times> FileLock option \<times> world" where
  "LockFile E fname w =
     (let (fd, w) = c_open E fname True w
      in case fd of None \<Rightarrow> (kIOError, None, w)
         | Some d \<Rightarrow>
             let (r, w) = LockOrUnlock E d True w
             in if r = -1 then (kIOError, None, c_close d w) else (kOk, Some \<lparr>fl_fd = d\<rparr>, w))"

definition UnlockFile :: "libc \<Rightarrow> FileLock \<Rightarrow> world \<Rightarrow> Status \<times> world" where
  "UnlockFile E lock w =
     (let (r, w) = LockOrUnlock E (fl_fd lock) False w
      in (if r = -1 then kIOError else kOk, c_close (fl_fd lock) w))"

subsection \<open>Whole files\<close>

text \<open>\<open>if (s)\<close> is true for \<open>kIOError\<close>; \<open>delete file\<close> closes the stream, also one that \<open>Close\<close> has closed before.\<close>

definition WriteStringToFile :: "libc \<Rightarrow> string \<Rightarrow> string \<Rightarrow> world \<Rightarrow> (Status \<times> world) result" where
  "WriteStringToFile E data fname w =
     bindR (NewWritableFile E fname w) (\<lambda>(s, file, w).
       case file of None \<Rightarrow> Inr (s, w)
       | Some f \<Rightarrow>
           bindR (WritableFile_Append E f data w) (\<lambda>(s, f, w).
           bindR (if s \<noteq> kOk then WritableFile_Close E f w else Inr (s, w)) (\<lambda>(s, w).
           bindR (WritableFile_delete E f w) (\<lambda>w.
           Inr (s, if s \<noteq> kOk then snd (DeleteFile E fname w) else w)))))"

lemma SequentialFile_Read_left:
  "SequentialFile_Read E f n w = Inr (s, fragment, w') \<Longrightarrow>
     stream_left (sf_fp f) w' = stream_left (sf_fp f) w - length fragment \<and> length fragment \<le> stream_left (sf_fp f) w"
  using c_fread_left [of E "sf_fp f" n w fragment w'] by (auto simp: SequentialFile_Read_def split: if_splits)

lemma SequentialFile_Read_less:
  "SequentialFile_Read E f n w = Inr (s, fragment, w') \<Longrightarrow> fragment \<noteq> '''' \<Longrightarrow>
     stream_left (sf_fp f) w' < stream_left (sf_fp f) w"
  using SequentialFile_Read_left [of E f n w s fragment w'] by (cases fragment) simp_all

function read_loop :: "libc \<Rightarrow> sequential_file \<Rightarrow> string \<Rightarrow> world \<Rightarrow> (string \<times> world) result" where
  "read_loop E f data w =
     bindR (SequentialFile_Read E f 8192 w) (\<lambda>(s, fragment, w).
       if s \<noteq> kOk then Inr (data, w)
       else if fragment = '''' then Inr (data, w)
       else read_loop E f (data @ fragment) w)"
  by pat_completeness auto

termination
  by (relation "measure (\<lambda>(E, f, data, w). stream_left (sf_fp f) w)") (auto dest: SequentialFile_Read_less)

declare read_loop.simps [simp del]

definition ReadFileToString :: "libc \<Rightarrow> string \<Rightarrow> world \<Rightarrow> (Status \<times> string \<times> world) result" where
  "ReadFileToString E fname w =
     (let (s, file, w) = NewSequentialFile E fname w
      in case file of None \<Rightarrow> Inr (s, '''', w)
         | Some f \<Rightarrow> bindR (read_loop E f '''' w) (\<lambda>(data, w).
                      bindR (SequentialFile_delete E f w) (\<lambda>w. Inr (kOk, data, w))))"

subsection \<open>Reading a whole file\<close>

text \<open>Two worlds that differ in the state of one stream and in the number of calls made.\<close>

definition same_but :: "nat \<Rightarrow> world \<Rightarrow> world \<Rightarrow> bool" where
  "same_but h w w' \<longleftrightarrow> w_nodes w' = w_nodes w \<and> w_data w' = w_data w \<and> w_fds w' = w_fds w \<and> w_locks w' = w_locks w \<and>
     w_fresh w' = w_fresh w \<and> (\<forall>k. k \<noteq> h \<longrightarrow> w_streams w' k = w_streams w k)"

lemma same_but_refl [simp]: "same_but h w w"
  by (simp add: same_but_def)

lemma same_but_trans: "same_but h w w' \<Longrightarrow> same_but h w' w'' \<Longrightarrow> same_but h w w''"
  by (simp add: same_but_def)

lemma same_but_set [simp]: "same_but h w (set_stream h s (tick w))"
  by (simp add: same_but_def)

text \<open>A stream that reads the inode from a position and holds nothing to write.\<close>

definition reads_at :: "world \<Rightarrow> nat \<Rightarrow> nat \<Rightarrow> nat \<Rightarrow> bool" where
  "reads_at w h i pos \<longleftrightarrow>
     (\<exists>s. w_streams w h = Some s \<and> fs_inode s = Some i \<and> fs_pending s = '''' \<and> fs_pos s = pos)"

lemma SequentialFile_Read_run:
  assumes "sf_fp f = Some h" "reads_at w h i pos" "0 < n"
  obtains st chunk w' where "SequentialFile_Read E f n w = Inr (st, chunk, w')" "same_but h w w'"
    "reads_at w' h i (pos + length chunk)" "prefix chunk (drop pos (w_data w i))"
    "chunk = '''' \<Longrightarrow> calm E \<Longrightarrow> length (w_data w i) \<le> pos" "calm E \<Longrightarrow> st = kOk"
proof -
  obtain s where s: "w_streams w h = Some s" "fs_inode s = Some i" "fs_pending s = ''''" "fs_pos s = pos"
    using assms(2) by (auto simp: reads_at_def)
  let ?chunk = "take (if succeeds E w then n else min n (moved_max E w)) (drop pos (w_data w i))"
  let ?s' = "s\<lparr>fs_pos := pos + length ?chunk, fs_eof := (fs_eof s \<or> succeeds E w \<and> length ?chunk < n)\<rparr>"
  let ?w' = "set_stream h ?s' (tick w)" and ?st = "\<lambda>b. if length ?chunk < n then if b then kOk else kIOError else kOk"
  have r: "c_fread E (sf_fp f) n w = Inr (?chunk, ?w')" by (simp add: c_fread_def assms(1) s)
  have eof: "c_feof (sf_fp f) ?w' = Inr (fs_eof ?s')" by (simp add: c_feof_def assms(1))
  show ?thesis
  proof (rule that [of "?st (fs_eof ?s')" ?chunk ?w'])
    show "SequentialFile_Read E f n w = Inr (?st (fs_eof ?s'), ?chunk, ?w')"
      by (simp only: SequentialFile_Read_def r bindR_simps case_prod_conv eof) simp
    show "prefix ?chunk (drop pos (w_data w i))" by (rule take_is_prefix)
    show "reads_at ?w' h i (pos + length ?chunk)" using s by (simp add: reads_at_def)
  qed (use assms(3) in auto)
qed

lemma read_loop_prefix:
  assumes "sf_fp f = Some h" "reads_at w h i pos"
  shows "\<exists>rest w' p. read_loop E f data w = Inr (data @ rest, w') \<and> same_but h w w' \<and> reads_at w' h i p \<and>
     prefix rest (drop pos (w_data w i)) \<and> (calm E \<longrightarrow> rest = drop pos (w_data w i))"
  using assms
proof (induction "length (w_data w i) - pos" arbitrary: data w pos rule: less_induct)
  case less
  obtain st chunk w' where r: "SequentialFile_Read E f 8192 w = Inr (st, chunk, w')" "same_but h w w'"
    "reads_at w' h i (pos + length chunk)" "prefix chunk (drop pos (w_data w i))"
    "chunk = '''' \<Longrightarrow> calm E \<Longrightarrow> length (w_data w i) \<le> pos" "calm E \<Longrightarrow> st = kOk"
    by (rule SequentialFile_Read_run [OF less.prems, of 8192 E]) simp_all
  have d: "w_data w' = w_data w" using r(2) by (simp add: same_but_def)
  show ?case
  proof (cases "st = kOk \<and> chunk \<noteq> ''''")
    case False
    then have "read_loop E f data w = Inr (data @ '''', w')" using r(1) by (subst read_loop.simps) auto
    moreover have "calm E \<longrightarrow> '''' = drop pos (w_data w i)" using False r(5,6) by auto
    ultimately show ?thesis using r(2,3) Nil_prefix by blast
  next
    case True
    have "length chunk \<le> length (w_data w i) - pos" using prefix_length_le [OF r(4)] by simp
    moreover have "0 < length chunk" using True by simp
    ultimately have "length (w_data w' i) - (pos + length chunk) < length (w_data w i) - pos" unfolding d by linarith
    from less.hyps [OF this less.prems(1) r(3), of "data @ chunk"] obtain rest w'' p where
      l: "read_loop E f (data @ chunk) w' = Inr ((data @ chunk) @ rest, w'')" "same_but h w' w''" "reads_at w'' h i p"
      "prefix rest (drop (pos + length chunk) (w_data w i))" "calm E \<longrightarrow> rest = drop (pos + length chunk) (w_data w i)"
      unfolding d by blast
    obtain zs where z: "drop pos (w_data w i) = chunk @ zs" using r(4) by (auto simp: prefix_def)
    then have "drop (pos + length chunk) (w_data w i) = zs" by (metis add.commute append_eq_conv_conj drop_drop)
    then have "prefix (chunk @ rest) (drop pos (w_data w i)) \<and> (calm E \<longrightarrow> chunk @ rest = drop pos (w_data w i))"
      using l(4,5) z by simp
    moreover have "read_loop E f data w = Inr (data @ chunk @ rest, w'')"
      using True r(1) l(1) by (subst read_loop.simps) simp
    ultimately show ?thesis using same_but_trans [OF r(2) l(2)] l(3) by metis
  qed
qed

lemma ReadFileToString_open:
  assumes "lookup_node w fname = Some (Regular i)" "succeeds E w" "w_streams w (w_fresh w) = None"
  shows "\<exists>data w'. ReadFileToString E fname w = Inr (kOk, data, w') \<and> prefix data (w_data w i) \<and>
     (calm E \<longrightarrow> data = w_data w i) \<and> w_nodes w' = w_nodes w \<and> w_data w' = w_data w \<and> w_streams w' = w_streams w"
proof -
  let ?h = "w_fresh w"
  let ?w = "(tick w)\<lparr>w_streams := (w_streams w)(?h \<mapsto> \<lparr>fs_inode = Some i, fs_pos = 0, fs_pending = '''', fs_eof = False\<rparr>),
    w_fresh := ?h + 1\<rparr>"
  let ?f = "SequentialFile_of fname ?h"
  have n: "NewSequentialFile E fname w = (kOk, Some ?f, ?w)"
    using assms by (simp add: NewSequentialFile_def c_fopen_def open_node_def new_stream_def)
  have f: "sf_fp ?f = Some ?h" "reads_at ?w ?h i 0" by (simp_all add: SequentialFile_of_def reads_at_def)
  obtain rest w' p where l: "read_loop E ?f '''' ?w = Inr (rest, w')" "same_but ?h ?w w'" "reads_at w' ?h i p"
    "prefix rest (w_data w i)" "calm E \<longrightarrow> rest = w_data w i"
    using read_loop_prefix [OF f, of E "''''"] by auto
  obtain w'' where c: "SequentialFile_delete E ?f w' = Inr w''" "w_streams w'' = (w_streams w')(?h := None)"
    "w_nodes w'' = w_nodes w'" "w_data w'' = w_data w'"
    using l(3) by (auto simp: reads_at_def SequentialFile_delete_def f(1) c_fclose_def sync_def Let_def)
  have "w_streams w'' = w_streams w"
    using c(2) l(2) assms(3) by (auto simp: same_but_def fun_eq_iff)
  moreover have "w_nodes w'' = w_nodes w" "w_data w'' = w_data w" using c(3,4) l(2) by (simp_all add: same_but_def)
  moreover have "ReadFileToString E fname w = Inr (kOk, rest, w'')" using n l(1) c(1) by (simp add: ReadFileToString_def)
  ultimately show ?thesis using l(4,5) by blast
qed

subsection \<open>Writing\<close>

text \<open>No transfer moves nothing.\<close>

definition progress :: "libc \<Rightarrow> bool" where "progress E \<longleftrightarrow> (\<forall>n. lc_ok E n \<or> 0 < lc_max E n)"

lemma calm_progress: "calm E \<Longrightarrow> progress E"
  by (simp add: calm_def progress_def)

text \<open>The stream holds \<open>text\<close> for the inode.\<close>

definition holds :: "world \<Rightarrow> nat \<Rightarrow> nat \<Rightarrow> string \<Rightarrow> bool" where
  "holds w h i text \<longleftrightarrow> (\<exists>s. w_streams w h = Some s \<and> fs_inode s = Some i \<and> fs_pending s = text)"

lemma c_fwrite_run:
  assumes "holds w h i text"
  obtains k w' where "c_fwrite E (Some h) d w = Inr (k, w')" "k \<le> length d" "same_but h w w'" "holds w' h i (text @ take k d)"
    "progress E \<Longrightarrow> d \<noteq> '''' \<Longrightarrow> 0 < k"
proof -
  obtain s where s: "w_streams w h = Some s" "fs_inode s = Some i" "fs_pending s = text" using assms by (auto simp: holds_def)
  let ?k = "if succeeds E w then length d else min (moved_max E w) (length d)"
  show ?thesis
  proof (rule that [of ?k "set_stream h (s\<lparr>fs_pending := text @ take ?k d\<rparr>) (tick w)"])
    show "progress E \<Longrightarrow> d \<noteq> '''' \<Longrightarrow> 0 < ?k" by (auto simp: progress_def succeeds_def moved_max_def)
  qed (use s in \<open>simp_all add: c_fwrite_def holds_def Let_def\<close>)
qed

lemma append_loop_run:
  assumes "holds w h i (text @ take n data)" "n \<le> length data"
  shows "\<exists>m w'. append_loop E (Some h) data n w = Inr (status_of (m = length data), m, w') \<and> m \<le> length data \<and>
    same_but h w w' \<and> holds w' h i (text @ take m data) \<and> (progress E \<longrightarrow> m = length data)"
  using assms
proof (induction "length data - n" arbitrary: n w rule: less_induct)
  case less
  show ?case
  proof (cases "n < length data")
    case False
    then have n: "n = length data" using less.prems(2) by simp
    then have "append_loop E (Some h) data n w = Inr (status_of (n = length data), n, w)"
      by (subst append_loop.simps) (simp add: status_of_def)
    then show ?thesis using n less.prems same_but_refl by blast
  next
    case True
    obtain k w' where c: "c_fwrite E (Some h) (drop n data) w = Inr (k, w')" "k \<le> length (drop n data)" "same_but h w w'"
      "holds w' h i ((text @ take n data) @ take k (drop n data))" "progress E \<Longrightarrow> drop n data \<noteq> '''' \<Longrightarrow> 0 < k"
      by (rule c_fwrite_run [OF less.prems(1), of E "drop n data"]) blast
    show ?thesis
    proof (cases "k = 0")
      case True
      then have "append_loop E (Some h) data n w = Inr (status_of (n = length data), n, w')"
        using \<open>n < length data\<close> c(1) by (subst append_loop.simps) (simp add: status_of_def)
      moreover have "\<not> progress E" using c(5) True \<open>n < length data\<close> by auto
      ultimately show ?thesis using c(3,4) True less.prems(2) by (metis append.right_neutral take0)
    next
      case False
      have h: "holds w' h i (text @ take (n + k) data)" using c(4) by (simp add: take_add)
      have "n + k \<le> length data" "length data - (n + k) < length data - n" using c(2) False True by auto
      from less.hyps [OF this(2) h this(1)] obtain m w'' where
        l: "append_loop E (Some h) data (n + k) w' = Inr (status_of (m = length data), m, w'')" "m \<le> length data"
        "same_but h w' w''" "holds w'' h i (text @ take m data)" "progress E \<longrightarrow> m = length data" by blast
      moreover have "append_loop E (Some h) data n w = append_loop E (Some h) data (n + k) w'"
        using True False c(1) by (subst append_loop.simps) simp
      ultimately show ?thesis using same_but_trans [OF c(3) l(3)] by metis
    qed
  qed
qed

lemma WritableFile_Append_run:
  assumes "wf_fp f = Some h" "holds w h i text"
  shows "\<exists>m w'. WritableFile_Append E f data w =
      Inr (status_of (m = length data), f\<lparr>wf_written := wf_written f + m\<rparr>, w') \<and> m \<le> length data \<and>
    same_but h w w' \<and> holds w' h i (text @ take m data) \<and> (progress E \<longrightarrow> m = length data)"
proof -
  obtain k w1 where c: "c_fwrite E (Some h) data w = Inr (k, w1)" "k \<le> length data" "same_but h w w1"
    "holds w1 h i (text @ take k data)" by (rule c_fwrite_run [OF assms(2), of E data])
  obtain m w' where l: "append_loop E (Some h) data k w1 = Inr (status_of (m = length data), m, w')" "m \<le> length data"
    "same_but h w1 w'" "holds w' h i (text @ take m data)" "progress E \<longrightarrow> m = length data"
    using append_loop_run [OF c(4,2), of E] by blast
  have "WritableFile_Append E f data w = Inr (status_of (m = length data), f\<lparr>wf_written := wf_written f + m\<rparr>, w')"
    by (simp add: WritableFile_Append_def assms(1) c(1) l(1))
  with l same_but_trans [OF c(3) l(3)] show ?thesis by blast
qed

text \<open>
  \<open>WritableFile::Append\<close> hands the bytes to the stream in order, however the writes are cut: it returns \<open>kOk\<close>
  exactly when all of them were accepted, which short writes do not prevent, and counts what was accepted.
\<close>
theorem Append_complete:
  assumes "wf_fp f = Some h" "holds w h i text" "progress E"
  shows "\<exists>w'. WritableFile_Append E f data w = Inr (kOk, f\<lparr>wf_written := wf_written f + length data\<rparr>, w') \<and>
    same_but h w w' \<and> holds w' h i (text @ data)"
  using WritableFile_Append_run [OF assms(1,2), of E data] assms(3) by (auto simp: status_of_def)

lemma follow_create: "follow k nodes p = Some q \<Longrightarrow> nodes q = None \<Longrightarrow> follow k (nodes(q \<mapsto> Regular i)) p = Some q"
  by (induction k arbitrary: p) (auto split: option.splits node.splits if_splits)

lemma c_fopen_w:
  assumes "c_fopen E fname Mode_w w = (Some h, w1)"
  shows "\<exists>i. lookup_node w1 fname = Some (Regular i) \<and> w_data w1 i = '''' \<and> holds w1 h i '''' \<and> w_fresh w1 = h + 1 \<and>
    w_streams w1 = (w_streams w)(h := w_streams w1 h) \<and> w_fresh w \<le> h"
proof (cases "lookup_node w fname")
  case None
  then obtain q where q: "follow 41 (w_nodes w) fname = Some q" "w_nodes w q = None"
    using assms by (auto simp: c_fopen_def open_node_def create_node_def lookup_node_def split: if_splits option.splits)
  then show ?thesis
    using assms None follow_create [OF q, of "w_fresh w"]
    by (auto simp: c_fopen_def open_node_def create_node_def new_stream_def lookup_node_def holds_def split: if_splits)
next
  case (Some nd)
  then obtain i where i: "nd = Regular i" using assms by (cases nd) (auto simp: c_fopen_def open_node_def split: if_splits)
  then have "w1 = (tick w)\<lparr>w_data := (w_data w)(i := ''''),
      w_streams := (w_streams w)(w_fresh w \<mapsto> \<lparr>fs_inode = Some i, fs_pos = 0, fs_pending = '''', fs_eof = False\<rparr>),
      w_fresh := w_fresh w + 1\<rparr>" "h = w_fresh w"
    using assms Some by (auto simp: c_fopen_def open_node_def new_stream_def split: if_splits)
  then show ?thesis using Some i by (auto simp: lookup_node_def holds_def split: option.splits)
qed

lemma WriteStringToFile_run:
  assumes "c_fopen E fname Mode_w w = (Some h, w1)"
  shows "\<exists>m i w'. m \<le> length data \<and> (progress E \<longrightarrow> m = length data) \<and>
    (m < length data \<longrightarrow> WriteStringToFile E data fname w = Inl Dangling_Pointer) \<and>
    (m = length data \<longrightarrow> WriteStringToFile E data fname w = Inr (kOk, w') \<and> lookup_node w' fname = Some (Regular i) \<and>
       (w_data w' i = data \<or> \<not> calm E \<and> w_data w' i = '''') \<and> w_streams w' = (w_streams w)(h := None) \<and>
       w_fresh w' = h + 1 \<and> w_fresh w \<le> h)"
proof -
  obtain i where o: "lookup_node w1 fname = Some (Regular i)" "w_data w1 i = ''''" "holds w1 h i ''''" "w_fresh w1 = h + 1"
    "w_streams w1 = (w_streams w)(h := w_streams w1 h)" "w_fresh w \<le> h" using c_fopen_w [OF assms] by blast
  let ?f = "\<lparr>wf_filename = fname, wf_fp = Some h, wf_written = 0\<rparr>"
  have n: "NewWritableFile E fname w = Inr (kOk, Some ?f, w1)"
    using o(3) by (auto simp: NewWritableFile_def assms WritableFile_of_def c_setbuffer_def holds_def)
  obtain m w2 where a: "WritableFile_Append E ?f data w1 = Inr (status_of (m = length data), ?f\<lparr>wf_written := wf_written ?f + m\<rparr>, w2)"
    "m \<le> length data" "same_but h w1 w2" "holds w2 h i ('''' @ take m data)" "progress E \<longrightarrow> m = length data"
    using WritableFile_Append_run [of ?f h w1 i "''''" E data] o(3) by auto
  obtain s where s: "w_streams w2 h = Some s" "fs_inode s = Some i" "fs_pending s = take m data" using a(4) by (auto simp: holds_def)
  define w3 where "w3 = (let w' = if succeeds E w2 then sync s (tick w2) else tick w2 in w'\<lparr>w_streams := (w_streams w')(h := None)\<rparr>)"
  have c: "c_fclose E (Some h) w2 = Inr (succeeds E w2, w3)" by (simp add: c_fclose_def s(1) w3_def Let_def)
  have w3: "w_streams w3 h = None" "w_nodes w3 = w_nodes w1" "w_fresh w3 = h + 1" "w_streams w3 = (w_streams w)(h := None)"
    "w_data w3 i = (if succeeds E w2 then take m data else '''')"
    using a(3) s o(2,4,5) by (auto simp: w3_def Let_def sync_def same_but_def fun_eq_iff split: option.splits)
  show ?thesis
  proof (cases "m = length data")
    case True
    then have "WriteStringToFile E data fname w = Inr (kOk, w3)"
      using n a(1) c by (simp add: WriteStringToFile_def status_of_def WritableFile_delete_def)
    moreover have "lookup_node w3 fname = Some (Regular i)" using o(1) unfolding lookup_node_def w3(2) .
    ultimately show ?thesis using True w3 a(5) o(6) by (intro exI [of _ m] exI [of _ i] exI [of _ w3]) auto
  next
    case False
    then have "WriteStringToFile E data fname w = Inl Dangling_Pointer"
      using n a(1) c w3(1) by (simp add: WriteStringToFile_def status_of_def WritableFile_delete_def WritableFile_Close_def c_fclose_def)
    then show ?thesis using False a(2,5) by (intro exI [of _ m]) simp
  qed
qed

text \<open>
  \<open>ReadFileToString\<close> returns \<open>kOk\<close> with some prefix of the file once the file could be opened, also when a read failed in
  the middle: its caller cannot tell a truncated text from the whole file, which it gets when no call fails. The stream
  is closed in every case.
\<close>
theorem ReadFileToString_always_kOk:
  assumes "lookup_node w fname = Some (Regular i)" "succeeds E w" "w_streams w (w_fresh w) = None"
  shows "\<exists>data w'. ReadFileToString E fname w = Inr (kOk, data, w') \<and> prefix data (w_data w i) \<and>
     (calm E \<longrightarrow> data = w_data w i) \<and> w_streams w' = w_streams w"
  using ReadFileToString_open [OF assms] by blast


text \<open>
  C31: a string written with \<open>WriteStringToFile\<close> is what \<open>ReadFileToString\<close> then reads, of any length, when no call of the
  environment fails, and no stream is left open.
\<close>
theorem file_roundtrip:
  assumes "calm E" "c_fopen E fname Mode_w w = (Some h, w1)" "\<forall>k \<ge> w_fresh w. w_streams w k = None"
  shows "\<exists>w' w''. WriteStringToFile E data fname w = Inr (kOk, w') \<and> ReadFileToString E fname w' = Inr (kOk, data, w'') \<and>
    w_streams w'' = w_streams w"
proof -
  obtain i w' where m: "WriteStringToFile E data fname w = Inr (kOk, w')" "lookup_node w' fname = Some (Regular i)"
    "w_data w' i = data" "w_streams w' = (w_streams w)(h := None)" "w_fresh w' = h + 1" "w_fresh w \<le> h"
    using WriteStringToFile_run [OF assms(2), of data] assms(1) calm_progress [OF assms(1)] by blast
  have s: "w_streams w' = w_streams w" "w_streams w' (w_fresh w') = None" using m(4,5,6) assms(3) by (auto simp: fun_eq_iff)
  obtain d w'' where r: "ReadFileToString E fname w' = Inr (kOk, d, w'')" "calm E \<longrightarrow> d = w_data w' i" "w_streams w'' = w_streams w'"
    using ReadFileToString_open [OF m(2) calm_succeeds [OF assms(1)] s(2)] by blast
  with m assms(1) s(1) show ?thesis by simp
qed

subsection \<open>File locks\<close>

inductive lock_step :: "libc \<Rightarrow> world \<times> FileLock list \<Rightarrow> world \<times> FileLock list \<Rightarrow> bool" for E where
  lock_taken: "LockFile E fname w = (s, Some l, w') \<Longrightarrow> lock_step E (w, held) (w', l # held)"
| lock_refused: "LockFile E fname w = (s, None, w') \<Longrightarrow> lock_step E (w, held) (w', held)"
| lock_given_back: "l \<in> set held \<Longrightarrow> UnlockFile E l w = (s, w') \<Longrightarrow> lock_step E (w, held) (w', remove1 l held)"
| name_deleted: "DeleteFile E fname w = (s, w') \<Longrightarrow> lock_step E (w, held) (w', held)"
| name_moved: "RenameFile E src target w = (s, w') \<Longrightarrow> lock_step E (w, held) (w', held)"

inductive lock_reachable :: "libc \<Rightarrow> world \<times> FileLock list \<Rightarrow> bool" for E where
  lock_init: "w_fds w = Map.empty \<Longrightarrow> w_locks w = Map.empty \<Longrightarrow> lock_reachable E (w, [])"
| lock_next: "lock_reachable E c \<Longrightarrow> lock_step E c c' \<Longrightarrow> lock_reachable E c'"

text \<open>Every open descriptor is that of a lock held, below the next handle, and owns the lock of its inode.\<close>

definition locks_owned :: "world \<Rightarrow> FileLock list \<Rightarrow> bool" where
  "locks_owned w held \<longleftrightarrow> distinct held \<and> dom (w_fds w) = fl_fd ` set held \<and> (\<forall>d \<in> dom (w_fds w). d < w_fresh w) \<and>
     (\<forall>i d. w_locks w i = Some d \<longleftrightarrow> w_fds w d = Some i)"

lemma locks_owned_nodes:
  "locks_owned w held \<Longrightarrow> w_fds w' = w_fds w \<Longrightarrow> w_locks w' = w_locks w \<Longrightarrow> w_fresh w \<le> w_fresh w' \<Longrightarrow> locks_owned w' held"
  by (auto simp: locks_owned_def dest: order_less_le_trans)

lemma open_node_frame:
  "open_node mode name w = Some (i, w') \<Longrightarrow> w_fds w' = w_fds w \<and> w_locks w' = w_locks w \<and> w_fresh w \<le> w_fresh w'"
  by (auto simp: open_node_def create_node_def split: option.splits node.splits if_splits)

lemma c_open_cases:
  obtains w' where "c_open E name creat w = (None, w')" "w_fds w' = w_fds w" "w_locks w' = w_locks w" "w_fresh w \<le> w_fresh w'"
  | d i w' where "c_open E name creat w = (Some d, w')" "w_fds w' = (w_fds w)(d \<mapsto> i)" "w_locks w' = w_locks w"
      "w_fresh w \<le> d" "w_fresh w' = d + 1"
proof (cases "succeeds E w")
  case False
  then show ?thesis by (intro that(1) [of "tick w"]) (simp_all add: c_open_def)
next
  case True
  show ?thesis
  proof (cases "open_node (if creat then Mode_a else Mode_r) name (tick w)")
    case None
    with True show ?thesis by (intro that(1) [of "tick w"]) (simp_all add: c_open_def)
  next
    case (Some r)
    then obtain oi w2 where o: "r = (oi, w2)" by (cases r)
    note fr = open_node_frame [OF Some [unfolded o]]
    show ?thesis
    proof (cases oi)
      case None
      with True Some o show ?thesis by (intro that(1) [of "tick w"]) (simp_all add: c_open_def)
    next
      case (Some i)
      let ?w = "w2\<lparr>w_fds := (w_fds w2)(w_fresh w2 \<mapsto> i), w_fresh := w_fresh w2 + 1\<rparr>"
      from True \<open>open_node _ _ _ = Some r\<close> o fr Some show ?thesis
        by (intro that(2) [where d = "w_fresh w2" and i = i and w' = ?w]) (simp_all add: c_open_def)
    qed
  qed
qed

lemma locks_owned_unlocked: "locks_owned w held \<Longrightarrow> w_fresh w \<le> d \<Longrightarrow> w_fds w d = None \<and> (\<forall>i. w_locks w i \<noteq> Some d)"
  unfolding locks_owned_def by (metis domI not_le option.exhaust_sel option.simps(3))

lemma c_flock_fresh:
  assumes "w_fds w d = Some i" "\<forall>j. w_locks w j \<noteq> Some d"
  shows "LockOrUnlock E d True w = (-1, tick w) \<or>
    LockOrUnlock E d True w = (0, (tick w)\<lparr>w_locks := (w_locks w)(i \<mapsto> d)\<rparr>) \<and> w_locks w i = None"
  using assms by (auto simp: LockOrUnlock_def c_flock_def)

lemma FileLock_eq: "fl_fd l = fl_fd k \<Longrightarrow> l = (k :: FileLock)"
  by simp

lemma LockFile_cases:
  assumes "locks_owned w held" "LockFile E fname w = (s, ol, w')"
  shows "ol = None \<and> locks_owned w' held \<or> (\<exists>l. ol = Some l \<and> locks_owned w' (l # held))"
proof (rule c_open_cases [of E fname True w])
  fix w2 assume "c_open E fname True w = (None, w2)" "w_fds w2 = w_fds w" "w_locks w2 = w_locks w" "w_fresh w \<le> w_fresh w2"
  then show ?thesis using assms locks_owned_nodes [OF assms(1), of w2] by (auto simp: LockFile_def)
next
  fix d i w2 assume o: "c_open E fname True w = (Some d, w2)" "w_fds w2 = (w_fds w)(d \<mapsto> i)" "w_locks w2 = w_locks w"
    "w_fresh w \<le> d" "w_fresh w2 = d + 1"
  note un = locks_owned_unlocked [OF assms(1) o(4)]
  have own: "w_fds w x = Some j \<longleftrightarrow> w_locks w j = Some x" for x j using assms(1) by (simp add: locks_owned_def)
  have "w_fds w2 d = Some i" "\<forall>j. w_locks w2 j \<noteq> Some d" using o(2,3) un by simp_all
  from c_flock_fresh [OF this, of E] show ?thesis
  proof (elim disjE conjE)
    assume "LockOrUnlock E d True w2 = (-1, tick w2)"
    then have "ol = None" "w' = c_close d (tick w2)" using assms(2) o(1) by (simp_all add: LockFile_def)
    moreover have "w_fds w' = w_fds w" "w_locks w' = w_locks w" "w_fresh w \<le> w_fresh w'"
      unfolding \<open>w' = _\<close> using o un by (auto simp: c_close_def fun_eq_iff)
    ultimately show ?thesis using locks_owned_nodes [OF assms(1)] by simp
  next
    assume r: "LockOrUnlock E d True w2 = (0, (tick w2)\<lparr>w_locks := (w_locks w2)(i \<mapsto> d)\<rparr>)" "w_locks w2 i = None"
    then have l: "ol = Some \<lparr>fl_fd = d\<rparr>" "w' = (tick w2)\<lparr>w_locks := (w_locks w)(i \<mapsto> d)\<rparr>"
      using assms(2) o(1,3) by (simp_all add: LockFile_def)
    have n: "\<lparr>fl_fd = d\<rparr> \<notin> set held"
    proof
      assume "\<lparr>fl_fd = d\<rparr> \<in> set held"
      then have "d \<in> dom (w_fds w)" using assms(1) by (auto simp: locks_owned_def intro: rev_image_eqI)
      then show False using un by auto
    qed
    have "locks_owned w' (\<lparr>fl_fd = d\<rparr> # held)"
      unfolding locks_owned_def
    proof (intro conjI)
      show "distinct (\<lparr>fl_fd = d\<rparr> # held)" using n assms(1) by (simp add: locks_owned_def)
      show "dom (w_fds w') = fl_fd ` set (\<lparr>fl_fd = d\<rparr> # held)" using assms(1) l(2) o(2) by (simp add: locks_owned_def)
      have "\<forall>x \<in> dom (w_fds w). x < d" using assms(1) o(4) by (meson locks_owned_def order_less_le_trans)
      then show "\<forall>x \<in> dom (w_fds w'). x < w_fresh w'" by (auto simp: l(2) o(2,5) less_Suc_eq)
      show "\<forall>j x. w_locks w' j = Some x \<longleftrightarrow> w_fds w' x = Some j"
        using own l(2) o(2,3) r(2) un by auto
    qed
    with l(1) show ?thesis by blast
  qed
qed

lemma UnlockFile_owned:
  assumes "UnlockFile E l w = (s, w')" "locks_owned w held" "l \<in> set held"
  shows "locks_owned w' (remove1 l held)"
proof -
  have inj: "fl_fd k = fl_fd l \<Longrightarrow> k = l" for k :: FileLock by simp
  have f: "w_fds w' = (w_fds w)(fl_fd l := None)" "w_fresh w' = w_fresh w"
    "w_locks w' = (\<lambda>i. if w_locks w i = Some (fl_fd l) then None else w_locks w i)"
    using assms(1) by (auto simp: UnlockFile_def LockOrUnlock_def c_flock_def c_close_def fun_eq_iff split: option.splits if_splits)
  show ?thesis
    unfolding locks_owned_def
  proof (intro conjI)
    show "distinct (remove1 l held)" using assms(2) by (simp add: locks_owned_def)
    show "dom (w_fds w') = fl_fd ` set (remove1 l held)"
      using assms(2) inj unfolding f(1) by (auto simp: locks_owned_def)
    show "\<forall>x \<in> dom (w_fds w'). x < w_fresh w'" using assms(2) by (auto simp: f locks_owned_def)
    have "w_fds w x = Some j \<longleftrightarrow> w_locks w j = Some x" for x j using assms(2) by (simp add: locks_owned_def)
    then show "\<forall>j x. w_locks w' j = Some x \<longleftrightarrow> w_fds w' x = Some j" by (auto simp: f)
  qed
qed

lemma lock_reachable_owned: "lock_reachable E c \<Longrightarrow> locks_owned (fst c) (snd c)"
proof (induction rule: lock_reachable.induct)
  case (lock_init w)
  then show ?case by (simp add: locks_owned_def)
next
  case (lock_next c c')
  from lock_next.hyps(2) lock_next.IH show ?case
  proof (induction rule: lock_step.induct)
    case (lock_taken fname w s l w' held)
    then show ?case using LockFile_cases [of w held E fname s "Some l" w'] by auto
  next
    case (lock_refused fname w s w' held)
    then show ?case using LockFile_cases [of w held E fname s None w'] by auto
  next
    case (lock_given_back l held w s w')
    then show ?case using UnlockFile_owned by auto
  next
    case (name_deleted fname w s w' held)
    then show ?case using locks_owned_nodes [of w held w']
      by (auto simp: DeleteFile_def from_call_def c_unlink_def change_nodes_def split: if_splits)
  next
    case (name_moved src target w s w' held)
    then show ?case using locks_owned_nodes [of w held w']
      by (auto simp: RenameFile_def from_call_def c_rename_def change_nodes_def split: if_splits)
  qed
qed

text \<open>
  C27: \<open>LockFile\<close> is exclusive: two locks held at the same time are locks of different files, whatever calls fail, and
  a descriptor that is open belongs to a lock held, so a refused lock leaks none.
\<close>
theorem LockFile_exclusive:
  assumes "lock_reachable E (w, held)"
  shows "distinct (map (\<lambda>l. w_fds w (fl_fd l)) held) \<and> dom (w_fds w) = fl_fd ` set held"
proof -
  have o: "locks_owned w held" using lock_reachable_owned [OF assms] by simp
  have "inj_on (\<lambda>l. w_fds w (fl_fd l)) (set held)"
  proof (rule inj_onI)
    fix l k assume lk: "l \<in> set held" "k \<in> set held" "w_fds w (fl_fd l) = w_fds w (fl_fd k)"
    then have "fl_fd l \<in> dom (w_fds w)" using o by (simp add: locks_owned_def)
    then obtain i where "w_fds w (fl_fd l) = Some i" by blast
    then have "w_locks w i = Some (fl_fd l)" "w_locks w i = Some (fl_fd k)" using o lk(3) by (simp_all add: locks_owned_def)
    then show "l = k" by simp
  qed
  then show ?thesis using o by (simp add: locks_owned_def distinct_map)
qed

subsection \<open>Concrete runs\<close>

definition demo_world :: world where
  "demo_world = \<lparr>w_nodes = [''notes'' \<mapsto> Regular 0], w_data = (\<lambda>_. ''abcdef''), w_streams = Map.empty, w_fds = Map.empty,
     w_locks = Map.empty, w_fresh = 1, w_calls = 0\<rparr>"

definition calm_libc :: libc where "calm_libc = \<lparr>lc_ok = \<lambda>_. True, lc_max = \<lambda>_. 0, lc_names = \<lambda>_. []\<rparr>"

text \<open>Every call but the first fails, and a transfer moves two bytes.\<close>

definition weak_libc :: libc where "weak_libc = \<lparr>lc_ok = \<lambda>n. n = 0, lc_max = \<lambda>_. 2, lc_names = \<lambda>_. []\<rparr>"

lemma demo_facts:
  "lookup_node demo_world ''notes'' = Some (Regular 0)" "w_streams demo_world = Map.empty" "w_fds demo_world = Map.empty"
  "w_locks demo_world = Map.empty" "w_data demo_world = (\<lambda>_. ''abcdef'')" "w_fresh demo_world = 1"
  "succeeds weak_libc demo_world" "calm calm_libc" "progress weak_libc" "\<not> calm weak_libc"
  by (simp_all add: demo_world_def lookup_node_def eval_nat_numeral calm_libc_def weak_libc_def calm_def progress_def succeeds_def)
    (auto intro: exI [of _ 1])

definition demo_opened :: world where
  "demo_opened = snd (c_fopen weak_libc ''notes'' Mode_w demo_world)"

lemma demo_opened: "c_fopen weak_libc ''notes'' Mode_w demo_world = (Some 1, demo_opened)" "holds demo_opened 1 0 ''''"
proof -
  show "c_fopen weak_libc ''notes'' Mode_w demo_world = (Some 1, demo_opened)"
    by (simp add: demo_opened_def c_fopen_def demo_facts open_node_def new_stream_def)
  show "holds demo_opened 1 0 ''''"
    by (simp add: demo_opened_def c_fopen_def demo_facts open_node_def new_stream_def holds_def)
qed


lemma file_roundtrip_witness:
  "\<exists>w' w''. WriteStringToFile calm_libc ''hello'' ''notes'' demo_world = Inr (kOk, w') \<and>
    ReadFileToString calm_libc ''notes'' w' = Inr (kOk, ''hello'', w'')"
proof -
  have "\<exists>w1. c_fopen calm_libc ''notes'' Mode_w demo_world = (Some 1, w1)"
    by (simp add: c_fopen_def demo_facts open_node_def new_stream_def)
  then obtain w1 where "c_fopen calm_libc ''notes'' Mode_w demo_world = (Some 1, w1)" by blast
  from file_roundtrip [OF demo_facts(8) this, of "''hello''"] show ?thesis by (auto simp: demo_facts)
qed

lemma LockFile_exclusive_witness:
  "\<exists>w l. LockFile calm_libc ''notes'' demo_world = (kOk, Some l, w) \<and> dom (w_fds w) = {fl_fd l}"
proof -
  have "\<exists>w l. LockFile calm_libc ''notes'' demo_world = (kOk, Some l, w)"
    by (simp add: LockFile_def c_open_def open_node_def demo_facts LockOrUnlock_def c_flock_def)
  then obtain w l where l: "LockFile calm_libc ''notes'' demo_world = (kOk, Some l, w)" by blast
  have "lock_reachable calm_libc (w, [l])"
    by (rule lock_next [OF lock_init lock_taken]) (use l demo_facts in auto)
  from LockFile_exclusive [OF this] l show ?thesis by auto
qed

text \<open>A failing first read loses the whole text, with status \<open>kOk\<close>.\<close>

lemma ReadFileToString_truncates: "\<exists>w'. ReadFileToString weak_libc ''notes'' demo_world = Inr (kOk, '''', w')"
proof -
  let ?s = "\<lparr>fs_inode = Some 0, fs_pos = 0, fs_pending = '''', fs_eof = False\<rparr>"
  let ?w = "(tick demo_world)\<lparr>w_streams := [1 \<mapsto> ?s], w_fresh := 2\<rparr>" and ?f = "SequentialFile_of ''notes'' 1"
  let ?w' = "set_stream 1 (?s\<lparr>fs_pos := 2\<rparr>) (tick ?w)"
  have n: "NewSequentialFile weak_libc ''notes'' demo_world = (kOk, Some ?f, ?w)"
    by (simp add: NewSequentialFile_def c_fopen_def demo_facts open_node_def new_stream_def numeral_2_eq_2)
  have "c_fread weak_libc (Some 1) 8192 ?w = Inr (''ab'', ?w')"
    by (simp add: c_fread_def succeeds_def moved_max_def weak_libc_def tick_def demo_world_def eval_nat_numeral)
  then have "SequentialFile_Read weak_libc ?f 8192 ?w = Inr (kIOError, ''ab'', ?w')"
    by (simp add: SequentialFile_Read_def SequentialFile_of_def c_feof_def)
  then have l: "read_loop weak_libc ?f '''' ?w = Inr ('''', ?w')" by (subst read_loop.simps) simp
  have "\<exists>w''. SequentialFile_delete weak_libc ?f ?w' = Inr w''"
    by (simp add: SequentialFile_delete_def SequentialFile_of_def c_fclose_def Let_def)
  with n l show ?thesis by (auto simp: ReadFileToString_def)
qed

text \<open>A full disk that shows at the last write loses the text, with status \<open>kOk\<close>.\<close>

definition full_libc :: libc where "full_libc = \<lparr>lc_ok = \<lambda>n. n < 2, lc_max = \<lambda>_. 0, lc_names = \<lambda>_. []\<rparr>"

lemma WriteStringToFile_loses:
  "\<exists>w'. WriteStringToFile full_libc ''hello'' ''notes'' demo_world = Inr (kOk, w') \<and> w_data w' 0 = ''''"
proof -
  let ?s = "\<lparr>fs_inode = Some 0, fs_pos = 0, fs_pending = '''', fs_eof = False\<rparr>"
  let ?w = "(tick demo_world)\<lparr>w_data := (w_data demo_world)(0 := ''''), w_streams := [1 \<mapsto> ?s], w_fresh := 2\<rparr>"
  let ?f = "\<lparr>wf_filename = ''notes'', wf_fp = Some 1, wf_written = 0\<rparr>"
  let ?w' = "set_stream 1 (?s\<lparr>fs_pending := ''hello''\<rparr>) (tick ?w)"
  have "NewWritableFile full_libc ''notes'' demo_world = Inr (kOk, Some ?f, ?w)"
    by (simp add: NewWritableFile_def c_fopen_def demo_facts open_node_def new_stream_def numeral_2_eq_2 WritableFile_of_def
        c_setbuffer_def succeeds_def full_libc_def) (simp add: demo_world_def tick_def)
  moreover have "c_fwrite full_libc (Some 1) ''hello'' ?w = Inr (5, ?w')"
    by (simp add: c_fwrite_def succeeds_def full_libc_def tick_def demo_world_def)
  moreover have "append_loop full_libc (Some 1) ''hello'' 5 ?w' = Inr (kOk, 5, ?w')" by (subst append_loop.simps) simp
  ultimately have "NewWritableFile full_libc ''notes'' demo_world = Inr (kOk, Some ?f, ?w)"
    "WritableFile_Append full_libc ?f ''hello'' ?w = Inr (kOk, ?f\<lparr>wf_written := 5\<rparr>, ?w')"
    by (simp_all add: WritableFile_Append_def)
  moreover have "\<exists>w''. WritableFile_delete full_libc (?f\<lparr>wf_written := 5\<rparr>) ?w' = Inr w'' \<and> w_data w'' 0 = ''''"
    by (simp add: WritableFile_delete_def c_fclose_def succeeds_def full_libc_def Let_def) (simp add: tick_def demo_world_def)
  ultimately show ?thesis by (auto simp: WriteStringToFile_def)
qed

end
