(* ===== verification/Symbolizer.thy ===== *)
theory Symbolizer
  imports Elf Files
begin

text \<open>
  Symbolisation of addresses, \<^verbatim>\<open>symbolizer/Symbolizer.h,.cc\<close>, and the text of a stack trace, \<^verbatim>\<open>base/StackTrace.cc\<close>.

  The memory map is read through \<open>ReadFileToString\<close> of Files.thy, cut into lines and matched against the regular expression of
  the source; the ELF file of the mapping that holds the address is opened once and kept; its symbol table and its DWARF
  sections are read by Elf.thy and Dwarf.thy. The bytes of a file that is mapped into memory are an argument, as are the
  demangler of the C++ runtime and \<open>backtrace\<close>.
\<close>

subsection \<open>The memory map\<close>

definition is_space :: "char \<Rightarrow> bool" where
  "is_space c \<longleftrightarrow> c \<in> {CHR '' '', CHR 0x09, CHR 0x0A, CHR 0x0B, CHR 0x0C, CHR 0x0D}"

definition char_in :: "char \<Rightarrow> char \<Rightarrow> char \<Rightarrow> bool" where
  "char_in a b c \<longleftrightarrow> (of_char a :: nat) \<le> of_char c \<and> (of_char c :: nat) \<le> of_char b"

definition is_digit :: "char \<Rightarrow> bool" where "is_digit c \<longleftrightarrow> char_in (CHR ''0'') (CHR ''9'') c"

definition is_xdigit :: "char \<Rightarrow> bool" where
  "is_xdigit c \<longleftrightarrow> is_digit c \<or> char_in (CHR ''a'') (CHR ''f'') c \<or> char_in (CHR ''A'') (CHR ''F'') c"

definition is_word_or_dash :: "char \<Rightarrow> bool" where
  "is_word_or_dash c \<longleftrightarrow> is_digit c \<or> char_in (CHR ''a'') (CHR ''z'') c \<or> char_in (CHR ''A'') (CHR ''Z'') c \<or> c = CHR ''_'' \<or> c = CHR ''-''"

text \<open>The value of a digit in base 16.\<close>

definition xdigit_value :: "char \<Rightarrow> nat" where
  "xdigit_value c =
     (if is_digit c then of_char c - 48 else if char_in (CHR ''a'') (CHR ''f'') c then of_char c - 87 else of_char c - 55)"

definition xdigits_value :: "string \<Rightarrow> nat" where
  "xdigits_value s = foldl (\<lambda>v c. v * 16 + xdigit_value c) 0 s"

text \<open>\<open>strtoull\<close> in base 16: the value, saturated, and what is behind the number, everything when there is none.\<close>

definition strtoull16 :: "string \<Rightarrow> nat \<times> string" where
  "strtoull16 s =
     (let t = dropWhile is_space s;
          negative = (t \<noteq> '''' \<and> hd t = CHR ''-'');
          t = (if t \<noteq> '''' \<and> (hd t = CHR ''-'' \<or> hd t = CHR ''+'') then List.tl t else t);
          t = (if 2 < length t \<and> t ! 0 = CHR ''0'' \<and> (t ! 1 = CHR ''x'' \<or> t ! 1 = CHR ''X'') \<and> is_xdigit (t ! 2) then drop 2 t else t);
          digits = takeWhile is_xdigit t;
          val = xdigits_value digits
      in if digits = '''' then (0, s)
         else (if 2 ^ 64 \<le> val then 2 ^ 64 - 1 else if negative then (2 ^ 64 - val) mod 2 ^ 64 else val, dropWhile is_xdigit t))"

definition FromHex :: "string \<Rightarrow> nat result" where
  "FromHex s =
     (let str = takeWhile (\<lambda>c. c \<noteq> CHR 0x00) s; (val, rest) = strtoull16 str
      in CHECK (str \<noteq> '''' \<and> rest = '''') (Inr val))"

text \<open>\<open>boost::algorithm::split\<close> at line feeds, empty lines included.\<close>

fun split_lines :: "string \<Rightarrow> string list" where
  "split_lines [] = ['''']"
| "split_lines (c # s) =
     (if c = CHR 0x0A then '''' # split_lines s
      else case split_lines s of line # rest \<Rightarrow> (c # line) # rest | [] \<Rightarrow> [[c]])"

definition GetMapsLine :: "libc \<Rightarrow> world \<Rightarrow> (string list \<times> world) result" where
  "GetMapsLine E w = bindR (ReadFileToString E ''/proc/self/maps'' w) (\<lambda>(s, data, w). Inr (split_lines data, w))"

text \<open>
  The regular expression for a line: each repetition is followed by something it cannot take, so the longest match is
  the only one. The four groups are begin, end, offset and name.
\<close>

definition some_of :: "(char \<Rightarrow> bool) \<Rightarrow> string \<Rightarrow> (string \<times> string) option" where
  "some_of P s = (if takeWhile P s = '''' then None else Some (takeWhile P s, dropWhile P s))"

definition one_char :: "char \<Rightarrow> string \<Rightarrow> string option" where
  "one_char c s = (case s of d # rest \<Rightarrow> if d = c then Some rest else None | [] \<Rightarrow> None)"

definition match_map_line :: "string \<Rightarrow> (string \<times> string \<times> string \<times> string) option" where
  "match_map_line line =
     Option.bind (some_of is_xdigit line) (\<lambda>(from_group, s).
     Option.bind (one_char (CHR ''-'') s) (\<lambda>s.
     Option.bind (some_of is_xdigit s) (\<lambda>(to_group, s).
     Option.bind (some_of is_space s) (\<lambda>(_, s).
     Option.bind (some_of is_word_or_dash s) (\<lambda>(_, s).
     Option.bind (some_of is_space s) (\<lambda>(_, s).
     Option.bind (some_of is_xdigit s) (\<lambda>(offset_group, s).
     Option.bind (some_of is_space s) (\<lambda>(_, s).
     Option.bind (some_of is_xdigit s) (\<lambda>(_, s).
     Option.bind (one_char (CHR '':'') s) (\<lambda>s.
     Option.bind (some_of is_xdigit s) (\<lambda>(_, s).
     Option.bind (some_of is_space s) (\<lambda>(_, s).
     Option.bind (some_of is_digit s) (\<lambda>(_, s).
       Some (from_group, to_group, offset_group, dropWhile is_space s))))))))))))))"

record mapped_file =
  mf_begin :: nat
  mf_end :: nat
  mf_name :: string

fun find_mapping :: "nat \<Rightarrow> string list \<Rightarrow> mapped_file option result" where
  "find_mapping address [] = Inr None"
| "find_mapping address (line # lines) =
     (if line = '''' then find_mapping address lines
      else case match_map_line line of
        None \<Rightarrow> Inl Check_Failed
      | Some (from_group, to_group, offset_group, name) \<Rightarrow>
          bindR (FromHex from_group) (\<lambda>begin_address.
          bindR (FromHex to_group) (\<lambda>end_address.
          bindR (FromHex offset_group) (\<lambda>file_offset.
            if file_offset \<noteq> 0 then find_mapping address lines
            else if begin_address \<le> address \<and> address < end_address
            then Inr (Some \<lparr>mf_begin = begin_address, mf_end = end_address, mf_name = name\<rparr>)
            else find_mapping address lines))))"

subsection \<open>Symbolize\<close>

text \<open>The cache of open files; the last character of an empty name is looked up outside it.\<close>

type_synonym symbolizer = "string \<rightharpoonup> elf_file"

definition GetFile :: "(string \<Rightarrow> string option) \<Rightarrow> string \<Rightarrow> symbolizer \<Rightarrow> (elf_file option \<times> symbolizer) result" where
  "GetFile contents name sy =
     (if name \<noteq> '''' \<and> hd name = CHR ''['' then Inr (None, sy)
      else if name = '''' then Inl Out_Of_Bounds
      else if List.last name = CHR '')'' then Inr (None, sy)
      else case sy name of
        Some elf \<Rightarrow> Inr (Some elf, sy)
      | None \<Rightarrow> bindR (ElfFile_new (contents name)) (\<lambda>elf. Inr (Some elf, sy(name \<mapsto> elf))))"

definition no_location :: location_info where
  "no_location = \<lparr>loc_main_file = None, loc_file_and_line = None\<rparr>"

text \<open>\<open>*symbol_name = name\<close> measures the C string.\<close>

definition name_piece :: "elf_file \<Rightarrow> nat option \<Rightarrow> string_piece result" where
  "name_piece elf name =
     (case name of None \<Rightarrow> Inr StringPiece_null
      | Some p \<Rightarrow> bindR (c_str (ef_mem elf) p) (\<lambda>s. Inr \<lparr>sp_mem = ef_mem elf, sp_ptr = p, sp_len = length s\<rparr>))"

definition Symbolize ::
    "libc \<Rightarrow> (string \<Rightarrow> string option) \<Rightarrow> nat \<Rightarrow> symbolizer \<Rightarrow> world \<Rightarrow> ((bool \<times> string_piece \<times> location_info) \<times> symbolizer \<times> world) result" where
  "Symbolize E contents address sy w =
     (let failed = (False, StringPiece_null, no_location) in
      bindR (GetMapsLine E w) (\<lambda>(lines, w).
      bindR (find_mapping address lines) (\<lambda>found.
        case found of None \<Rightarrow> Inr (failed, sy, w)
        | Some found_file \<Rightarrow>
            bindR (GetFile contents (mf_name found_file) sy) (\<lambda>(elf, sy).
              case elf of None \<Rightarrow> Inr (failed, sy, w)
              | Some elf_file \<Rightarrow>
                  let orig_address = u64 (address - mf_begin found_file + ef_base_address elf_file)
                  in bindR (GetDefinitionByAddress elf_file orig_address) (\<lambda>sym.
                       case sym of None \<Rightarrow> Inr (failed, sy, w)
                       | Some definition \<Rightarrow>
                           bindR (GetSymbolName elf_file sym) (\<lambda>name.
                           bindR (name_piece elf_file name) (\<lambda>symbol_name.
                           bindR (Dwarf_new elf_file) (\<lambda>dwarf.
                           bindR (Dwarf_FindAddress dwarf orig_address) (\<lambda>location.
                             Inr ((True, symbol_name, case location of None \<Rightarrow> no_location | Some l \<Rightarrow> l), sy, w))))))))))"

subsection \<open>Text\<close>

definition demangle :: "(string \<Rightarrow> string option) \<Rightarrow> string \<Rightarrow> string" where
  "demangle cxa_demangle name = (case cxa_demangle name of None \<Rightarrow> name | Some demangled \<Rightarrow> demangled)"

text \<open>\<open>%#18jx\<close>, and \<open>%llu\<close> into a buffer of 20.\<close>

definition address_text :: "nat \<Rightarrow> string" where
  "address_text address =
     (let t = (if address = 0 then ''0'' else ''0x'' @ hex_lower address) in replicate (18 - length t) (CHR '' '') @ t)"

definition line_text :: "nat \<Rightarrow> string" where "line_text n = take 19 (dec_digits n)"

definition Symbolizer_Write ::
    "(string \<Rightarrow> string option) \<Rightarrow> string \<Rightarrow> nat \<Rightarrow> string_piece \<Rightarrow> location_info \<Rightarrow> string result" where
  "Symbolizer_Write cxa_demangle out address symbol_name location =
     (let out = out @ ''    @ '' @ address_text address in
      bindR (if StringPiece_empty symbol_name then Inr (out @ '' (unknown)'')
             else
               bindR (c_str (sp_mem symbol_name) (sp_ptr symbol_name)) (\<lambda>name.
               bindR (case loc_file_and_line location of None \<Rightarrow> Inr None
                      | Some (file, line) \<Rightarrow> bindR (Path_ToString file '''') (\<lambda>f. Inr (Some (f, line)))) (\<lambda>place.
               bindR (case loc_main_file location of None \<Rightarrow> Inr None
                      | Some main \<Rightarrow> bindR (Path_ToString main '''') (\<lambda>f. Inr (Some f))) (\<lambda>main_file.
                 Inr (out @ '' '' @ demangle cxa_demangle name @
                   (case place of None \<Rightarrow> '''' | Some (file, line) \<Rightarrow> ''   '' @ file @ '':'' @ line_text line) @
                   (case main_file of None \<Rightarrow> ''''
                    | Some main \<Rightarrow>
                        if place = None \<or> map_option fst place \<noteq> Some main
                        then ''\<newline>                         (compiling '' @ main @ '')'' else ''''))))))
        (\<lambda>out. Inr (out @ ''\<newline>'')))"

text \<open>\<open>backtrace\<close> fills at most 200 frames; a negative depth reads in front of the array of strings.\<close>

definition GetStackTrace ::
    "(string \<Rightarrow> string option) \<Rightarrow> (nat list \<Rightarrow> string list option) \<Rightarrow> nat list \<Rightarrow> int \<Rightarrow> string result" where
  "GetStackTrace cxa_demangle backtrace_symbols frames escape_depth =
     (let buffer = take 200 frames; nptrs = length buffer
      in case backtrace_symbols buffer of
           None \<Rightarrow> Inr ''''
         | Some strings \<Rightarrow>
             if escape_depth < 0 then Inl Out_Of_Bounds
             else Inr (concat (map (\<lambda>i. demangle cxa_demangle (strings ! i) @ [CHR 0x0D, CHR 0x0A]) [nat escape_depth..<nptrs])))"

subsection \<open>Maps as the kernel writes them\<close>

record region =
  rg_begin :: nat
  rg_end :: nat
  rg_perms :: string
  rg_offset :: nat
  rg_major :: string
  rg_minor :: string
  rg_inode :: string
  rg_padding :: nat
  rg_name :: string

definition hex8 :: "nat \<Rightarrow> string" where "hex8 n = pad_zero 8 (hex_lower n)"

definition map_line :: "region \<Rightarrow> string" where
  "map_line r = hex8 (rg_begin r) @ ''-'' @ hex8 (rg_end r) @ '' '' @ rg_perms r @ '' '' @ hex8 (rg_offset r) @ '' '' @
     rg_major r @ '':'' @ rg_minor r @ '' '' @ rg_inode r @ replicate (Suc (rg_padding r)) (CHR '' '') @ rg_name r"

definition maps_text :: "region list \<Rightarrow> string" where
  "maps_text rs = concat (map (\<lambda>r. map_line r @ [CHR 0x0A]) rs)"

definition all_in :: "(char \<Rightarrow> bool) \<Rightarrow> string \<Rightarrow> bool" where "all_in P s \<longleftrightarrow> s \<noteq> '''' \<and> (\<forall>c \<in> set s. P c)"

definition region_ok :: "region \<Rightarrow> bool" where
  "region_ok r \<longleftrightarrow> rg_begin r < 2 ^ 64 \<and> rg_end r < 2 ^ 64 \<and> rg_offset r < 2 ^ 64 \<and> all_in is_word_or_dash (rg_perms r) \<and>
     all_in is_xdigit (rg_major r) \<and> all_in is_xdigit (rg_minor r) \<and> all_in is_digit (rg_inode r) \<and>
     (rg_name r = '''' \<or> \<not> is_space (hd (rg_name r))) \<and> CHR 0x0A \<notin> set (rg_name r)"

definition region_covers :: "nat \<Rightarrow> region \<Rightarrow> bool" where
  "region_covers address r \<longleftrightarrow> rg_offset r = 0 \<and> rg_begin r \<le> address \<and> address < rg_end r"

definition region_file :: "region \<Rightarrow> mapped_file" where
  "region_file r = \<lparr>mf_begin = rg_begin r, mf_end = rg_end r, mf_name = rg_name r\<rparr>"

text \<open>Hexadecimal numbers.\<close>

lemma lower_digit: "k < 16 \<Longrightarrow> xdigit_value (''0123456789abcdef'' ! k) = k \<and> is_xdigit (''0123456789abcdef'' ! k)"
proof -
  have "list_all (\<lambda>k. xdigit_value (''0123456789abcdef'' ! k) = k \<and> is_xdigit (''0123456789abcdef'' ! k)) [0..<16]" by code_simp
  then show "k < 16 \<Longrightarrow> ?thesis" by (simp add: list_all_iff)
qed

lemma xdigits_value_append: "xdigits_value (s @ [c]) = xdigits_value s * 16 + xdigit_value c"
  by (simp add: xdigits_value_def)

lemma hex_lower_value: "xdigits_value (hex_lower n) = n \<and> all_in is_xdigit (hex_lower n)"
proof (induction n rule: hex_lower.induct)
  case (1 n)
  show ?case
  proof (cases "n < 16")
    case True
    then show ?thesis using lower_digit [of n] by (simp add: hex_lower.simps [of n] xdigits_value_def all_in_def)
  next
    case False
    then show ?thesis using 1 lower_digit [of "n mod 16"]
      by (simp add: hex_lower.simps [of n] xdigits_value_append all_in_def ball_Un)
  qed
qed

lemma xdigit_zero: "xdigit_value (CHR ''0'') = 0" "is_xdigit (CHR ''0'')" by code_simp+

lemma hex8_value: "xdigits_value (hex8 n) = n" and hex8_digits: "all_in is_xdigit (hex8 n)"
proof -
  have "foldl (\<lambda>v c. v * 16 + xdigit_value c) 0 (replicate k (CHR ''0'')) = 0" for k by (induction k) (simp_all add: xdigit_zero)
  then show "xdigits_value (hex8 n) = n" using hex_lower_value [of n] by (simp add: hex8_def pad_zero_def xdigits_value_def)
  show "all_in is_xdigit (hex8 n)" using hex_lower_value [of n] by (auto simp: hex8_def pad_zero_def all_in_def xdigit_zero)
qed

lemma xdigit_plain: "is_xdigit c \<Longrightarrow> \<not> is_space c \<and> c \<notin> {CHR ''-'', CHR ''+'', CHR '':'', CHR ''x'', CHR ''X'', CHR 0x00}"
  by (auto simp: is_xdigit_def is_digit_def char_in_def is_space_def)

lemma FromHex_digits: "all_in is_xdigit s \<Longrightarrow> xdigits_value s < 2 ^ 64 \<Longrightarrow> FromHex s = Inr (xdigits_value s)"
proof -
  assume s: "all_in is_xdigit s" "xdigits_value s < 2 ^ 64"
  then have t: "takeWhile (\<lambda>c. c \<noteq> CHR 0x00) s = s" "takeWhile is_xdigit s = s" "dropWhile is_xdigit s = ''''" "s \<noteq> ''''"
    using xdigit_plain by (auto simp: all_in_def takeWhile_eq_all_conv dropWhile_eq_Nil_conv)
  have h: "hd s \<noteq> CHR ''-''" "hd s \<noteq> CHR ''+''" "dropWhile is_space s = s"
    using s(1) xdigit_plain by (cases s; force simp: all_in_def)+
  have x: "\<not> (2 < length s \<and> s ! 0 = CHR ''0'' \<and> (s ! 1 = CHR ''x'' \<or> s ! 1 = CHR ''X'') \<and> is_xdigit (s ! 2))"
    using s(1) xdigit_plain [of "s ! 1"] by (auto simp: all_in_def)
  have v: "(2 ^ 64 \<le> xdigits_value s) = False" using s(2) by simp
  have "strtoull16 s = (xdigits_value s, '''')"
    unfolding strtoull16_def Let_def h(3) by (simp only: h(1,2) x t v simp_thms if_False)
  then show ?thesis unfolding FromHex_def Let_def t(1) by (simp add: t(4))
qed

text \<open>Matching.\<close>

lemma some_of_prefix: "all_in P a \<Longrightarrow> (s = '''' \<or> \<not> P (hd s)) \<Longrightarrow> some_of P (a @ s) = Some (a, s)"
proof -
  assume a: "all_in P a" "s = '''' \<or> \<not> P (hd s)"
  have "takeWhile P s = ''''" "dropWhile P s = s" using a(2) by (cases s; simp)+
  then show ?thesis using a(1) by (simp add: some_of_def all_in_def takeWhile_append2 dropWhile_append2)
qed

lemma one_space: "s = '''' \<or> \<not> is_space (hd s) \<Longrightarrow> some_of is_space (CHR '' '' # s) = Some ('' '', s)"
  using some_of_prefix [of is_space "'' ''" s] by (simp add: all_in_def is_space_def)

lemma word_or_dash_plain: "is_word_or_dash c \<Longrightarrow> \<not> is_space c"
  by (auto simp: is_word_or_dash_def is_digit_def char_in_def is_space_def)

lemma digit_xdigit: "is_digit c \<Longrightarrow> is_xdigit c" by (simp add: is_xdigit_def)

lemma one_space_before:
  assumes "all_in P a" "\<And>c. P c \<Longrightarrow> \<not> is_space c"
  shows "some_of is_space (CHR '' '' # a @ s) = Some ('' '', a @ s)"
proof -
  have "\<not> is_space (hd (a @ s))" using assms by (cases a) (auto simp: all_in_def)
  then show ?thesis by (intro one_space disjI2)
qed

lemma not_classes: "\<not> is_xdigit (CHR ''-'')" "\<not> is_xdigit (CHR '' '')" "\<not> is_xdigit (CHR '':'')" "\<not> is_word_or_dash (CHR '' '')" "\<not> is_digit (CHR '' '')"
  "is_space (CHR '' '')"
  by code_simp+

lemma match_map_line_region:
  assumes "region_ok r"
  shows "match_map_line (map_line r) = Some (hex8 (rg_begin r), hex8 (rg_end r), hex8 (rg_offset r), rg_name r)"
proof -
  have r: "all_in is_word_or_dash (rg_perms r)" "all_in is_xdigit (rg_major r)" "all_in is_xdigit (rg_minor r)" "all_in is_digit (rg_inode r)"
    "rg_name r = '''' \<or> \<not> is_space (hd (rg_name r))" using assms by (simp_all add: region_ok_def)
  have x: "\<not> is_space c" if "is_xdigit c" for c using that xdigit_plain by blast
  have d: "\<not> is_space c" if "is_digit c" for c using that digit_xdigit x by blast
  have name: "dropWhile is_space (replicate n (CHR '' '') @ rg_name r) = rg_name r" for n
  proof -
    have "dropWhile is_space (rg_name r) = rg_name r" using r(5) by (cases "rg_name r") simp_all
    then show ?thesis by (induction n) (simp_all add: not_classes)
  qed
  show ?thesis
    unfolding match_map_line_def map_line_def
    by (simp add: some_of_prefix one_char_def not_classes hex8_digits r x d word_or_dash_plain name
        one_space_before [OF hex8_digits x] one_space_before [OF r(1) word_or_dash_plain]
        one_space_before [OF r(2) x] one_space_before [OF r(4) d])
qed

text \<open>Lines.\<close>

lemma split_line: "CHR 0x0A \<notin> set l \<Longrightarrow> split_lines (l @ CHR 0x0A # s) = l # split_lines s"
  by (induction l) auto

lemma map_line_one: "region_ok r \<Longrightarrow> CHR 0x0A \<notin> set (map_line r)"
proof -
  assume r: "region_ok r"
  have lf: "\<not> is_xdigit (CHR 0x0A)" "\<not> is_digit (CHR 0x0A)" "\<not> is_word_or_dash (CHR 0x0A)" by code_simp+
  show ?thesis using r lf hex8_digits by (auto simp: map_line_def region_ok_def all_in_def)
qed

lemma split_maps_text: "\<forall>r \<in> set rs. region_ok r \<Longrightarrow> split_lines (maps_text rs) = map map_line rs @ ['''']"
  by (induction rs) (simp_all add: maps_text_def split_line map_line_one)

lemma map_line_nonempty: "map_line r \<noteq> ''''"
  using hex8_digits [of "rg_begin r"] by (auto simp: map_line_def all_in_def)

lemma find_mapping_region:
  "region_ok r \<Longrightarrow> find_mapping address (map_line r # lines) =
     (if region_covers address r then Inr (Some (region_file r)) else find_mapping address lines)"
  by (auto simp: match_map_line_region map_line_nonempty FromHex_digits hex8_digits hex8_value region_ok_def region_covers_def region_file_def)

lemma find_mapping_first:
  "\<forall>r \<in> set rs. region_ok r \<Longrightarrow>
     find_mapping address (map map_line rs @ ['''']) = Inr (map_option region_file (List.find (region_covers address) rs))"
  by (induction rs) (simp_all add: find_mapping_region del: find_mapping.simps(2), simp)

lemma GetMapsLine_reads:
  assumes "lookup_node w ''/proc/self/maps'' = Some (Regular i)" "calm E" "w_streams w (w_fresh w) = None"
  shows "\<exists>w'. GetMapsLine E w = Inr (split_lines (w_data w i), w') \<and> w_streams w' = w_streams w"
proof -
  obtain data w' where "ReadFileToString E ''/proc/self/maps'' w = Inr (kOk, data, w')" "data = w_data w i" "w_streams w' = w_streams w"
    using ReadFileToString_open [OF assms(1) calm_succeeds [OF assms(2)] assms(3)] assms(2) by blast
  then show ?thesis by (simp add: GetMapsLine_def)
qed

text \<open>A file is opened once.\<close>

lemma GetFile_again:
  "GetFile contents name sy = Inr (Some elf, sy') \<Longrightarrow> GetFile contents' name sy' = Inr (Some elf, sy')"
  by (auto simp: GetFile_def split: if_splits option.splits)

subsection \<open>Properties\<close>


definition demo_region :: region where
  "demo_region = \<lparr>rg_begin = 65536, rg_end = 131072, rg_perms = ''r-xp'', rg_offset = 0, rg_major = ''08'', rg_minor = ''01'',
     rg_inode = ''42'', rg_padding = 3, rg_name = ''/bin/a''\<rparr>"

definition demo_maps_world :: world where
  "demo_maps_world = demo_world\<lparr>w_nodes := [''/proc/self/maps'' \<mapsto> Regular 0], w_data := (\<lambda>_. maps_text [demo_region])\<rparr>"

lemma demo_region_ok: "region_ok demo_region"
proof -
  have "all_in is_word_or_dash ''r-xp''" "all_in is_xdigit ''08''" "all_in is_xdigit ''01''" "all_in is_digit ''42''" "\<not> is_space (CHR ''/'')" by code_simp+
  then show ?thesis by (simp add: region_ok_def demo_region_def)
qed

lemma one_text: "text_at (piece mem pos) [c] \<Longrightarrow> vec_get mem pos = Inr c"
proof -
  assume t: "text_at (piece mem pos) [c]"
  have "pos < length mem" using text_at_block [OF t] by simp
  then show ?thesis using t by (simp add: text_at_def vec_get_def take_Suc hd_drop_conv_nth)
qed

lemma demo_symbol_name:
  "GetSymbolName demo_elf (Some (demo_symtab, demo_symbols ! 1)) = Inr (Some 248)" "c_str (ef_mem demo_elf) 248 = Inr ''.symtab''"
proof -
  let ?mem = "ef_mem demo_elf"
  have tab: "string_table ([] # demo_names) = [CHR 0x00] @ (''.names'' @ [CHR 0x00]) @ ''.symtab'' @ [CHR 0x00]"
    by (simp add: string_table_def demo_names_def)
  have t: "text_at (piece ?mem 240) [CHR 0x00]" "text_at (piece ?mem 248) (''.symtab'' @ [CHR 0x00])" "text_at (piece ?mem 255) [CHR 0x00]"
    using demo_elf_text(6) unfolding tab text_at_append moved_piece by (simp_all add: moved_piece)
  show "c_str ?mem 248 = Inr ''.symtab''" using c_str_text [OF t(2)] by simp
  have "vec_get ?mem 240 = Inr (CHR 0x00)" "vec_get ?mem 255 = Inr (CHR 0x00)" using one_text [OF t(1)] one_text [OF t(3)] .
  then have "ValidateStringTable demo_elf demo_strtab = Inr ()" by (simp add: ValidateStringTable_def demo_strtab_def)
  moreover have "GetSectionByIndex demo_elf 1 = Inr demo_strtab" using GetSectionByIndex_nth [OF demo_elf_layout, of 1] by simp
  ultimately show "GetSymbolName demo_elf (Some (demo_symtab, demo_symbols ! 1)) = Inr (Some 248)"
    by (simp add: GetSymbolName_def GetString_def demo_symtab_def demo_symbols_def demo_strtab_def)
qed

lemma demo_no_debug: "bindR (Dwarf_new demo_elf) (\<lambda>d. Dwarf_FindAddress d 4100) = Inr None"
proof -
  have "GetSectionByName demo_elf ''.debug_info'' =
      Inr (case entry_offset ''.debug_info'' ([] # demo_names) of None \<Rightarrow> None | Some k \<Rightarrow> List.find (\<lambda>s. sh_name s = k) [demo_symtab, demo_strtab])"
    by (rule GetSectionByName_entry [OF demo_elf_layout refl])
      (use demo_elf_text(6) in \<open>simp_all add: demo_elf_header demo_strtab_def demo_names_def string_table_def\<close>)
  then have "Dwarf_GetSection demo_elf ''.debug_info'' = Inr None" by (simp add: Dwarf_GetSection_def demo_names_def)
  then show ?thesis by (simp add: Dwarf_new_def Dwarf_Init_def Dwarf_FindAddress_def)
qed


text \<open>The text of an address fits the buffer of 20 characters, its NUL included.\<close>

lemma length_hex_lower: "n < 16 ^ Suc k \<Longrightarrow> length (hex_lower n) \<le> Suc k"
proof (induction k arbitrary: n)
  case 0
  then show ?case by (simp add: hex_lower.simps [of n])
next
  case (Suc k)
  then have "n div 16 < 16 ^ Suc k" by (simp add: less_mult_imp_div_less)
  with Suc.IH [of "n div 16"] show ?case by (simp add: hex_lower.simps [of n])
qed

lemma address_text_fits: "a < 2 ^ 64 \<Longrightarrow> length (address_text a) = 18"
  using length_hex_lower [of a 15] by (simp add: address_text_def Let_def)

end
