(* ===== verification/Buckets.thy ===== *)
theory Buckets
  imports Prelude
begin

text \<open>
  Bucket storage of the metrics library: \<^verbatim>\<open>metrics/BucketRanges.h,.cc\<close>,
  \<^verbatim>\<open>metrics/HistogramSamples.h,.cc\<close> and \<^verbatim>\<open>metrics/SampleVector.h,.cc\<close>.

  A \<open>bucket_ranges\<close> record holds the vector of range boundaries, a \<open>sample_vector\<close> the counts per
  bucket, the 64-bit sum inherited from \<open>HistogramSamples\<close>, and the ranges it shares with its
  histogram (they are never written after construction, so the shared pointer is a value). An
  iterator is a \<open>sample_iter\<close> over another vector's counts; the receiver and the argument of
  \<open>Add\<close>/\<open>Subtract\<close> are two different objects.
\<close>

subsection \<open>BucketRanges\<close>

record bucket_ranges =
  br_ranges :: "int list"

definition BucketRanges_new :: "nat \<Rightarrow> bucket_ranges" where
  "BucketRanges_new num_ranges = \<lparr>br_ranges = replicate num_ranges 0\<rparr>"

definition BucketRanges_size :: "bucket_ranges \<Rightarrow> nat" where
  "BucketRanges_size r = length (br_ranges r)"

definition BucketRanges_range :: "bucket_ranges \<Rightarrow> nat \<Rightarrow> int result" where
  "BucketRanges_range r i = vec_get (br_ranges r) i"

definition BucketRanges_set_range :: "bucket_ranges \<Rightarrow> nat \<Rightarrow> int \<Rightarrow> bucket_ranges result" where
  "BucketRanges_set_range r i v =
     DCHECK (i < length (br_ranges r))
       (CHECK (0 < v)
         (bindR (vec_set (br_ranges r) i v) (\<lambda>xs. Inr (r\<lparr>br_ranges := xs\<rparr>))))"

definition BucketRanges_bucket_count :: "bucket_ranges \<Rightarrow> nat" where
  "BucketRanges_bucket_count r = size_sub (length (br_ranges r)) 1"

subsection \<open>SampleVector: state, binary search, accumulation\<close>

record sample_vector =
  sv_sum :: int
  sv_counts :: "int list"
  sv_ranges :: bucket_ranges

definition SampleVector_new :: "bucket_ranges \<Rightarrow> sample_vector result" where
  "SampleVector_new br =
     (let n = BucketRanges_bucket_count br
      in if 2 ^ 63 \<le> n then Inl Length_Error
         else CHECK (1 \<le> n) (Inr \<lparr>sv_sum = 0, sv_counts = replicate n 0, sv_ranges = br\<rparr>))"

function GetBucketIndex_loop :: "bucket_ranges \<Rightarrow> int \<Rightarrow> nat \<Rightarrow> nat \<Rightarrow> nat result" where
  "GetBucketIndex_loop br val lo hi =
     DCHECK (lo \<le> hi)
       (let mid = lo + (hi - lo) div 2
        in if mid = lo then Inr mid
           else bindR (BucketRanges_range br mid)
                  (\<lambda>m. if m \<le> val then GetBucketIndex_loop br val mid hi
                       else GetBucketIndex_loop br val lo mid))"
  by pat_completeness auto
termination
  by (relation "measure (\<lambda>(br, val, lo, hi). hi - lo)") auto

declare GetBucketIndex_loop.simps [simp del]

definition SampleVector_GetBucketIndex :: "sample_vector \<Rightarrow> int \<Rightarrow> nat result" where
  "SampleVector_GetBucketIndex sv val =
     (let br = sv_ranges sv; n = BucketRanges_bucket_count br
      in CHECK (1 \<le> n)
           (bindR (BucketRanges_range br 0) (\<lambda>first. CHECK (first \<le> val)
           (bindR (BucketRanges_range br n) (\<lambda>last. CHECK (val < last)
           (bindR (GetBucketIndex_loop br val 0 n) (\<lambda>mid.
            bindR (BucketRanges_range br mid) (\<lambda>a. DCHECK (a \<le> val)
           (bindR (BucketRanges_range br (mid + 1)) (\<lambda>b. CHECK (val < b)
           (Inr mid)))))))))))"

definition HistogramSamples_IncreaseSum :: "sample_vector \<Rightarrow> int \<Rightarrow> sample_vector" where
  "HistogramSamples_IncreaseSum sv diff = sv\<lparr>sv_sum := i64 (sv_sum sv + diff)\<rparr>"

definition SampleVector_Accumulate :: "sample_vector \<Rightarrow> int \<Rightarrow> int \<Rightarrow> sample_vector result" where
  "SampleVector_Accumulate sv val cnt =
     bindR (SampleVector_GetBucketIndex sv val) (\<lambda>bucket_index.
     bindR (vec_get (sv_counts sv) bucket_index) (\<lambda>c.
     bindR (vec_set (sv_counts sv) bucket_index (i32 (c + 1))) (\<lambda>cs.
     Inr (HistogramSamples_IncreaseSum (sv\<lparr>sv_counts := cs\<rparr>) (i32 (cnt * val))))))"

definition SampleVector_GetCount :: "sample_vector \<Rightarrow> int \<Rightarrow> int result" where
  "SampleVector_GetCount sv val =
     bindR (SampleVector_GetBucketIndex sv val) (\<lambda>bucket_index. vec_get (sv_counts sv) bucket_index)"

fun TotalCount_loop :: "int \<Rightarrow> int list \<Rightarrow> int" where
  "TotalCount_loop count [] = count"
| "TotalCount_loop count (c # cs) = TotalCount_loop (i32 (count + c)) cs"

definition SampleVector_TotalCount :: "sample_vector \<Rightarrow> int" where
  "SampleVector_TotalCount sv = TotalCount_loop 0 (sv_counts sv)"

definition SampleVector_GetCountAtIndex :: "sample_vector \<Rightarrow> nat \<Rightarrow> int result" where
  "SampleVector_GetCountAtIndex sv bucket_index =
     DCHECK (bucket_index < length (sv_counts sv)) (vec_get (sv_counts sv) bucket_index)"

subsection \<open>SampleVectorIterator\<close>

record sample_iter =
  it_counts :: "int list"
  it_ranges :: bucket_ranges
  it_index :: nat

definition Iter_Done :: "sample_iter \<Rightarrow> bool" where
  "Iter_Done it \<longleftrightarrow> it_index it = length (it_counts it)"

function SkipEmptyBuckets_loop :: "int list \<Rightarrow> nat \<Rightarrow> nat" where
  "SkipEmptyBuckets_loop cs i =
     (if i < length cs then (if cs ! i \<noteq> 0 then i else SkipEmptyBuckets_loop cs (i + 1)) else i)"
  by pat_completeness auto
termination
  by (relation "measure (\<lambda>(cs, i). length cs - i)") auto

declare SkipEmptyBuckets_loop.simps [simp del]

definition Iter_SkipEmptyBuckets :: "sample_iter \<Rightarrow> sample_iter" where
  "Iter_SkipEmptyBuckets it =
     (if Iter_Done it then it
      else it\<lparr>it_index := SkipEmptyBuckets_loop (it_counts it) (it_index it)\<rparr>)"

definition Iter_new :: "int list \<Rightarrow> bucket_ranges \<Rightarrow> sample_iter result" where
  "Iter_new cs br =
     CHECK (length cs \<le> BucketRanges_bucket_count br)
       (Inr (Iter_SkipEmptyBuckets \<lparr>it_counts = cs, it_ranges = br, it_index = 0\<rparr>))"

definition Iter_Next :: "sample_iter \<Rightarrow> sample_iter result" where
  "Iter_Next it =
     DCHECK (\<not> Iter_Done it) (Inr (Iter_SkipEmptyBuckets (it\<lparr>it_index := it_index it + 1\<rparr>)))"

definition Iter_Get :: "sample_iter \<Rightarrow> (int \<times> int \<times> int) result" where
  "Iter_Get it =
     DCHECK (\<not> Iter_Done it)
       (bindR (BucketRanges_range (it_ranges it) (it_index it)) (\<lambda>min.
        bindR (BucketRanges_range (it_ranges it) (it_index it + 1)) (\<lambda>max.
        bindR (vec_get (it_counts it) (it_index it)) (\<lambda>count. Inr (min, max, count)))))"

definition Iter_GetBucketIndex :: "sample_iter \<Rightarrow> nat result" where
  "Iter_GetBucketIndex it = DCHECK (\<not> Iter_Done it) (Inr (it_index it))"

definition SampleVector_Iterator :: "sample_vector \<Rightarrow> sample_iter result" where
  "SampleVector_Iterator sv = Iter_new (sv_counts sv) (sv_ranges sv)"

subsection \<open>Adding and subtracting samples\<close>

datatype sample_op = ADD | SUBTRACT

definition op_delta :: "sample_op \<Rightarrow> int \<Rightarrow> int" where
  "op_delta op count = (if op = ADD then count else i32 (- count))"

definition bucket_matches :: "bucket_ranges \<Rightarrow> nat \<Rightarrow> int \<Rightarrow> int \<Rightarrow> bool result" where
  "bucket_matches br index mn mx =
     bindR (BucketRanges_range br index) (\<lambda>a.
       if mn = a then bindR (BucketRanges_range br (index + 1)) (\<lambda>b. Inr (mx = b)) else Inr False)"

lemma SkipEmptyBuckets_loop_bounds:
  "i \<le> SkipEmptyBuckets_loop cs i \<and> (i \<le> length cs \<longrightarrow> SkipEmptyBuckets_loop cs i \<le> length cs)"
proof (induction cs i rule: SkipEmptyBuckets_loop.induct)
  case (1 cs i)
  then show ?case by (auto simp: SkipEmptyBuckets_loop.simps [of cs i])
qed

lemma Iter_Next_progress:
  assumes "Iter_Next it = Inr it'"
  shows "it_counts it' = it_counts it" "it_ranges it' = it_ranges it" "it_index it < it_index it'"
  using assms SkipEmptyBuckets_loop_bounds [of "Suc (it_index it)" "it_counts it"]
  by (auto simp: Iter_Next_def Iter_SkipEmptyBuckets_def)

lemma Iter_Get_in_range: "Iter_Get it = Inr x \<Longrightarrow> it_index it < length (it_counts it)"
  by (auto simp: Iter_Get_def)

function AddSubtract_loop ::
  "bucket_ranges \<Rightarrow> sample_op \<Rightarrow> int list \<Rightarrow> sample_iter \<Rightarrow> nat \<Rightarrow> (bool \<times> int list) result" where
  "AddSubtract_loop br op cs it index =
     (if index < length cs \<and> \<not> Iter_Done it then
        bindR (Iter_Get it) (\<lambda>(mn, mx, count).
        bindR (bucket_matches br index mn mx) (\<lambda>hit.
          if hit then
            bindR (vec_get cs index) (\<lambda>c.
            bindR (vec_set cs index (i32 (c + op_delta op count))) (\<lambda>cs'.
            bindR (Iter_Next it) (\<lambda>it'. AddSubtract_loop br op cs' it' index)))
          else
            bindR (BucketRanges_range br index) (\<lambda>a.
              if a < mn then AddSubtract_loop br op cs it (index + 1) else Inr (False, cs))))
      else Inr (Iter_Done it, cs))"
  by pat_completeness auto
termination
proof (relation "measure (\<lambda>(br, op, cs, it, index).
                   (length cs - index) + (length (it_counts it) - it_index it))", goal_cases)
  case (2 br op cs it index x mn r mx count hit c cs' it')
  then show ?case using Iter_Next_progress [of it it'] Iter_Get_in_range [of it x] by auto
qed auto

declare AddSubtract_loop.simps [simp del]

definition SampleVector_AddSubtractImpl ::
  "sample_vector \<Rightarrow> sample_iter \<Rightarrow> sample_op \<Rightarrow> (bool \<times> sample_vector) result" where
  "SampleVector_AddSubtractImpl sv it op =
     bindR (AddSubtract_loop (sv_ranges sv) op (sv_counts sv) it 0)
       (\<lambda>(success, cs). Inr (success, sv\<lparr>sv_counts := cs\<rparr>))"

definition HistogramSamples_Add :: "sample_vector \<Rightarrow> sample_vector \<Rightarrow> sample_vector result" where
  "HistogramSamples_Add sv other =
     (let sv' = sv\<lparr>sv_sum := i64 (sv_sum sv + sv_sum other)\<rparr>
      in bindR (SampleVector_Iterator other) (\<lambda>it.
         bindR (SampleVector_AddSubtractImpl sv' it ADD) (\<lambda>(success, sv'').
         DCHECK success (Inr sv''))))"

definition HistogramSamples_Subtract :: "sample_vector \<Rightarrow> sample_vector \<Rightarrow> sample_vector result" where
  "HistogramSamples_Subtract sv other =
     (let sv' = sv\<lparr>sv_sum := i64 (sv_sum sv - sv_sum other)\<rparr>
      in bindR (SampleVector_Iterator other) (\<lambda>it.
         bindR (SampleVector_AddSubtractImpl sv' it SUBTRACT) (\<lambda>(success, sv'').
         DCHECK success (Inr sv''))))"

subsection \<open>Well-formedness\<close>

text \<open>
  Ranges are well formed when they delimit at least one bucket and increase strictly; a vector is
  well formed when it has one 32-bit count per bucket of well-formed ranges and a 64-bit sum.
\<close>

definition wf_ranges :: "bucket_ranges \<Rightarrow> bool" where
  "wf_ranges br \<longleftrightarrow> 2 \<le> length (br_ranges br) \<and> sorted_wrt (<) (br_ranges br)"

definition wf_samples :: "sample_vector \<Rightarrow> bool" where
  "wf_samples sv \<longleftrightarrow> wf_ranges (sv_ranges sv) \<and>
     length (sv_counts sv) + 1 = length (br_ranges (sv_ranges sv)) \<and>
     (\<forall>c \<in> set (sv_counts sv). is_i32 c) \<and> is_i64 (sv_sum sv)"

lemma bucket_count_wf: "wf_ranges br \<Longrightarrow> BucketRanges_bucket_count br + 1 = length (br_ranges br)"
  by (auto simp: wf_ranges_def BucketRanges_bucket_count_def)

lemma bucket_count_samples: "wf_samples sv \<Longrightarrow>
    BucketRanges_bucket_count (sv_ranges sv) = length (sv_counts sv) \<and> 1 \<le> length (sv_counts sv)"
  by (auto simp: wf_samples_def wf_ranges_def BucketRanges_bucket_count_def)

subsection \<open>The binary search\<close>

text \<open>
  With the value inside \<open>[range lo, range hi)\<close>, the loop ends, every range it reads exists and no
  check fails; the index it returns is the one whose range holds the value.
\<close>

lemma GetBucketIndex_loop_spec:
  assumes "lo < hi" "hi < length (br_ranges br)"
    and "br_ranges br ! lo \<le> val" "val < br_ranges br ! hi"
  shows "\<exists>mid. GetBucketIndex_loop br val lo hi = Inr mid \<and> lo \<le> mid \<and> mid < hi \<and>
           br_ranges br ! mid \<le> val \<and> val < br_ranges br ! (mid + 1)"
  using assms
proof (induction br val lo hi rule: GetBucketIndex_loop.induct)
  case (1 br val lo hi)
  define mid where "mid = lo + (hi - lo) div 2"
  have mid: "lo \<le> mid" "mid < hi" using "1.prems"(1) by (auto simp: mid_def)
  show ?case
  proof (cases "mid = lo")
    case True
    then have "hi = lo + 1" using "1.prems"(1) by (auto simp: mid_def)
    moreover from this have "GetBucketIndex_loop br val lo hi = Inr lo"
      by (subst GetBucketIndex_loop.simps) simp
    ultimately show ?thesis using "1.prems" by auto
  next
    case False
    have rng: "BucketRanges_range br mid = Inr (br_ranges br ! mid)"
      using mid "1.prems"(2) by (simp add: BucketRanges_range_def)
    note IH = "1.IH" [OF _ mid_def False rng]
    have unfold: "GetBucketIndex_loop br val lo hi =
        (if br_ranges br ! mid \<le> val then GetBucketIndex_loop br val mid hi
         else GetBucketIndex_loop br val lo mid)"
      using "1.prems"(1) False rng
      by (subst GetBucketIndex_loop.simps) (simp add: mid_def [symmetric] Let_def)
    show ?thesis
    proof (cases "br_ranges br ! mid \<le> val")
      case True
      with IH(1) mid "1.prems" show ?thesis by (fastforce simp: unfold)
    next
      case False
      with IH(2) mid \<open>mid \<noteq> lo\<close> "1.prems" show ?thesis by (fastforce simp: unfold)
    qed
  qed
qed

definition in_bucket :: "bucket_ranges \<Rightarrow> int \<Rightarrow> nat \<Rightarrow> bool" where
  "in_bucket br val i \<longleftrightarrow> i + 1 < length (br_ranges br) \<and>
     br_ranges br ! i \<le> val \<and> val < br_ranges br ! (i + 1)"

lemma in_bucket_unique:
  assumes "sorted_wrt (<) (br_ranges br)" "in_bucket br val i" "in_bucket br val j"
  shows "i = j"
proof (rule ccontr)
  assume "i \<noteq> j"
  then consider "i + 1 \<le> j" | "j + 1 \<le> i" by linarith
  then show False
  proof cases
    case 1
    then show ?thesis
      using strict_sorted_nth_mono [OF assms(1), of "i + 1" j] assms(2,3) by (auto simp: in_bucket_def)
  next
    case 2
    then show ?thesis
      using strict_sorted_nth_mono [OF assms(1), of "j + 1" i] assms(2,3) by (auto simp: in_bucket_def)
  qed
qed

lemma GetBucketIndex_finds:
  assumes wf: "wf_ranges (sv_ranges sv)"
    and range: "hd (br_ranges (sv_ranges sv)) \<le> val" "val < last (br_ranges (sv_ranges sv))"
  shows "\<exists>i. SampleVector_GetBucketIndex sv val = Inr i \<and> in_bucket (sv_ranges sv) val i"
proof -
  let ?br = "sv_ranges sv" let ?xs = "br_ranges ?br" let ?n = "BucketRanges_bucket_count ?br"
  have n: "?n = length ?xs - 1" "1 \<le> ?n" "?n < length ?xs"
    using wf bucket_count_wf [OF wf] by (auto simp: wf_ranges_def)
  then have ends: "?xs ! 0 \<le> val" "val < ?xs ! ?n"
    using range by (auto simp: hd_conv_nth last_conv_nth simp flip: length_greater_0_conv)
  obtain mid where mid: "GetBucketIndex_loop ?br val 0 ?n = Inr mid" "mid < ?n"
      "?xs ! mid \<le> val" "val < ?xs ! (mid + 1)"
    using GetBucketIndex_loop_spec [of 0 ?n ?br val] n ends by auto
  have "mid + 1 < length ?xs" "0 < length ?xs" using mid(2) n by linarith+
  then have "SampleVector_GetBucketIndex sv val = Inr mid"
    using n mid ends by (simp add: SampleVector_GetBucketIndex_def BucketRanges_range_def)
  moreover have "in_bucket ?br val mid"
    using mid n by (auto simp: in_bucket_def)
  ultimately show ?thesis by blast
qed

lemma GetBucketIndex_eqI:
  assumes "wf_ranges (sv_ranges sv)" "in_bucket (sv_ranges sv) val i"
  shows "SampleVector_GetBucketIndex sv val = Inr i"
proof -
  let ?xs = "br_ranges (sv_ranges sv)"
  have s: "sorted_wrt (<) ?xs" "?xs \<noteq> []" using assms(1) by (auto simp: wf_ranges_def)
  have "i + 1 \<le> length ?xs - 1" "length ?xs - 1 < length ?xs"
    using assms(2) by (auto simp: in_bucket_def)
  note up = strict_sorted_nth_mono [OF s(1) this]
  have "hd ?xs \<le> val" "val < last ?xs"
    using assms(2) s strict_sorted_nth_mono [OF s(1), of 0 i] up
    by (auto simp: in_bucket_def hd_conv_nth last_conv_nth)
  then obtain j where "SampleVector_GetBucketIndex sv val = Inr j" "in_bucket (sv_ranges sv) val j"
    using GetBucketIndex_finds [OF assms(1)] by blast
  with in_bucket_unique [OF s(1) assms(2)] show ?thesis by auto
qed

lemma GetBucketIndex_sound:
  "SampleVector_GetBucketIndex sv val = Inr i \<Longrightarrow> in_bucket (sv_ranges sv) val i"
  by (auto simp: SampleVector_GetBucketIndex_def in_bucket_def BucketRanges_range_def Let_def)

subsection \<open>Accumulating one sample\<close>

lemma wf_samples_new:
  assumes "wf_ranges br" "length (br_ranges br) \<le> 2 ^ 63"
  shows "\<exists>sv. SampleVector_new br = Inr sv \<and> wf_samples sv \<and> sv_ranges sv = br \<and>
           sv_sum sv = 0 \<and> set (sv_counts sv) = {0}"
  using assms bucket_count_wf [OF assms(1)]
  by (auto simp: SampleVector_new_def wf_samples_def wf_ranges_def is_i32_def is_i64_def Let_def)

lemma Accumulate_step:
  assumes "wf_samples sv" "in_bucket (sv_ranges sv) val i"
  shows "SampleVector_Accumulate sv val cnt =
     Inr (sv\<lparr>sv_sum := i64 (sv_sum sv + i32 (cnt * val)),
             sv_counts := (sv_counts sv)[i := i32 (sv_counts sv ! i + 1)]\<rparr>)"
proof -
  have "i < length (sv_counts sv)" using assms by (auto simp: wf_samples_def in_bucket_def)
  then show ?thesis
    using GetBucketIndex_eqI [of sv val i] assms
    by (simp add: SampleVector_Accumulate_def HistogramSamples_IncreaseSum_def wf_samples_def)
qed

lemma wf_samples_update:
  assumes "wf_samples sv" "length cs = length (sv_counts sv)" "\<forall>c \<in> set cs. is_i32 c" "is_i64 s"
  shows "wf_samples (sv\<lparr>sv_sum := s, sv_counts := cs\<rparr>)"
  using assms by (auto simp: wf_samples_def)

lemma Accumulate_wf:
  assumes "wf_samples sv" "SampleVector_Accumulate sv val cnt = Inr sv'"
  shows "wf_samples sv'"
proof -
  obtain i where "in_bucket (sv_ranges sv) val i"
    using assms(2) GetBucketIndex_sound by (auto simp: SampleVector_Accumulate_def)
  from assms(2) [unfolded Accumulate_step [OF assms(1) this]] show ?thesis
    using assms(1) by (auto intro!: wf_samples_update simp: wf_samples_def dest!: set_update_subset_insert [THEN subsetD])
qed

lemma TotalCount_loop_wraps: "TotalCount_loop a cs = (if cs = [] then a else i32 (a + sum_list cs))"
  by (induction a cs rule: TotalCount_loop.induct) (auto simp: wrap_simps add.assoc)

lemma TotalCount_eq: "SampleVector_TotalCount sv = i32 (sum_list (sv_counts sv))"
  by (simp add: SampleVector_TotalCount_def TotalCount_loop_wraps i32_id)

subsection \<open>Merging two vectors\<close>

lemma SkipEmptyBuckets_loop_zero:
  "(\<forall>j. i \<le> j \<longrightarrow> j < SkipEmptyBuckets_loop cs i \<longrightarrow> cs ! j = 0) \<and>
   (SkipEmptyBuckets_loop cs i < length cs \<longrightarrow> cs ! SkipEmptyBuckets_loop cs i \<noteq> 0)"
proof (induction cs i rule: SkipEmptyBuckets_loop.induct)
  case (1 cs i)
  show ?case
  proof (cases "i < length cs \<and> cs ! i = 0")
    case True
    then have "SkipEmptyBuckets_loop cs i = SkipEmptyBuckets_loop cs (i + 1)"
      by (simp add: SkipEmptyBuckets_loop.simps [of cs i])
    with "1.IH" True show ?thesis by (metis Suc_eq_plus1 not_less_eq_eq le_antisym)
  next
    case False
    then have "SkipEmptyBuckets_loop cs i = i" by (auto simp: SkipEmptyBuckets_loop.simps [of cs i])
    with False show ?thesis by auto
  qed
qed

definition iter_settled :: "sample_iter \<Rightarrow> bool" where
  "iter_settled it \<longleftrightarrow> it_index it \<le> length (it_counts it) \<and>
     (it_index it < length (it_counts it) \<longrightarrow> it_counts it ! it_index it \<noteq> 0)"

lemma Iter_Next_settled:
  assumes "it_index it < length (it_counts it)"
  obtains k where "Iter_Next it = Inr (it\<lparr>it_index := k\<rparr>)" "iter_settled (it\<lparr>it_index := k\<rparr>)"
    "it_index it < k" "\<forall>j. it_index it < j \<longrightarrow> j < k \<longrightarrow> it_counts it ! j = 0"
proof -
  define i where "i = Suc (it_index it)"
  define k where "k = (if i = length (it_counts it) then i else SkipEmptyBuckets_loop (it_counts it) i)"
  have "Iter_Next it = Inr (it\<lparr>it_index := k\<rparr>)"
    using assms by (auto simp: Iter_Next_def Iter_Done_def Iter_SkipEmptyBuckets_def k_def i_def)
  moreover have "iter_settled (it\<lparr>it_index := k\<rparr>)" "it_index it < k"
      "\<forall>j. it_index it < j \<longrightarrow> j < k \<longrightarrow> it_counts it ! j = 0"
    using assms SkipEmptyBuckets_loop_zero [of i "it_counts it"]
      SkipEmptyBuckets_loop_bounds [of i "it_counts it"]
    by (auto simp: iter_settled_def k_def i_def Suc_le_eq)
  ultimately show thesis by (rule that)
qed

lemma op_delta_zero [simp]: "op_delta op 0 = 0"
  by (simp add: op_delta_def i32_id)

text \<open>
  The merge loop walks the receiver's buckets and the iterator together. Over equal, strictly
  increasing ranges it never rejects a sample: below the iterator's bucket it moves on, at the
  iterator's bucket it adds, and the iterator only moves forward.
\<close>

lemma bucket_matches_here:
  "k + 1 < length (br_ranges br) \<Longrightarrow>
     bucket_matches br k (br_ranges br ! k) (br_ranges br ! (k + 1)) = Inr True"
  by (simp add: bucket_matches_def BucketRanges_range_def)

lemma bucket_matches_below:
  assumes "sorted_wrt (<) (br_ranges br)" "index < k" "k < length (br_ranges br)"
  shows "bucket_matches br index (br_ranges br ! k) mx = Inr False"
  using assms strict_sorted_nth_less [OF assms]
  by (auto simp: bucket_matches_def BucketRanges_range_def)

definition merged :: "sample_op \<Rightarrow> nat \<Rightarrow> int list \<Rightarrow> int list \<Rightarrow> int list \<Rightarrow> bool" where
  "merged op k ds cs cs' \<longleftrightarrow> length cs' = length cs \<and>
     (\<forall>j < length cs. cs' ! j = (if j < k then cs ! j else i32 (cs ! j + op_delta op (ds ! j))))"

lemma merged_step:
  assumes "merged op k' ds (cs[k := i32 (cs ! k + op_delta op (ds ! k))]) cs'"
    and "k < k'" "\<forall>j. k < j \<longrightarrow> j < k' \<longrightarrow> ds ! j = 0" "\<forall>c \<in> set cs. is_i32 c"
  shows "merged op k ds cs cs'"
  using assms by (auto simp: merged_def nth_list_update)

definition merge_ready :: "bucket_ranges \<Rightarrow> int list \<Rightarrow> sample_iter \<Rightarrow> bool" where
  "merge_ready br cs it \<longleftrightarrow> sorted_wrt (<) (br_ranges br) \<and>
     length cs + 1 = length (br_ranges br) \<and> length (it_counts it) = length cs \<and>
     it_ranges it = br \<and> iter_settled it \<and> (\<forall>c \<in> set cs. is_i32 c)"

lemma Iter_Get_ready:
  assumes "merge_ready br cs it" "it_index it < length cs"
  shows "Iter_Get it = Inr (br_ranges br ! it_index it, br_ranges br ! (it_index it + 1),
                            it_counts it ! it_index it)"
    and "\<not> Iter_Done it"
  using assms by (simp_all add: merge_ready_def Iter_Get_def Iter_Done_def BucketRanges_range_def)

lemma AddSubtract_loop_hit:
  assumes "merge_ready br cs it" "it_index it < length cs" "Iter_Next it = Inr it'"
  shows "AddSubtract_loop br op cs it (it_index it) =
     AddSubtract_loop br op
       (cs[it_index it := i32 (cs ! it_index it + op_delta op (it_counts it ! it_index it))])
       it' (it_index it)"
proof -
  have "bucket_matches br (it_index it) (br_ranges br ! it_index it)
      (br_ranges br ! (it_index it + 1)) = Inr True"
    using assms by (intro bucket_matches_here) (auto simp: merge_ready_def)
  then show ?thesis
    using assms(2,3) Iter_Get_ready [OF assms(1,2)] by (subst AddSubtract_loop.simps) simp
qed

lemma AddSubtract_loop_below:
  assumes "merge_ready br cs it" "it_index it < length cs" "index < it_index it"
  shows "AddSubtract_loop br op cs it index = AddSubtract_loop br op cs it (index + 1)"
proof -
  have lt: "sorted_wrt (<) (br_ranges br)" "it_index it < length (br_ranges br)"
    using assms by (auto simp: merge_ready_def)
  have "bucket_matches br index (br_ranges br ! it_index it) (br_ranges br ! (it_index it + 1)) = Inr False"
    using lt(1) assms(3) lt(2) by (rule bucket_matches_below)
  moreover have "BucketRanges_range br index = Inr (br_ranges br ! index)"
    using assms(3) lt(2) by (simp add: BucketRanges_range_def)
  ultimately show ?thesis
    using assms(2,3) Iter_Get_ready [OF assms(1,2)] strict_sorted_nth_less [OF lt(1) assms(3) lt(2)]
    by (subst AddSubtract_loop.simps) simp
qed

lemma AddSubtract_loop_spec:
  assumes "merge_ready br cs it" "index \<le> it_index it"
  shows "\<exists>cs'. AddSubtract_loop br op cs it index = Inr (True, cs') \<and>
           merged op (it_index it) (it_counts it) cs cs'"
  using assms
proof (induction "length cs - index + (length cs - it_index it)" arbitrary: cs it index
    rule: less_induct)
  case less
  let ?k = "it_index it"
  consider "?k = length cs" | "?k < length cs" "index = ?k" | "?k < length cs" "index < ?k"
    using less.prems by (fastforce simp: merge_ready_def iter_settled_def)
  then show ?case
  proof cases
    case 1
    then show ?thesis using less.prems(1)
      by (auto simp: AddSubtract_loop.simps [of br op cs it index] merged_def merge_ready_def Iter_Done_def)
  next
    case 2
    define cs1 where "cs1 = cs[?k := i32 (cs ! ?k + op_delta op (it_counts it ! ?k))]"
    have "?k < length (it_counts it)" using 2 less.prems(1) by (simp add: merge_ready_def)
    from Iter_Next_settled [OF this] obtain k' where k': "Iter_Next it = Inr (it\<lparr>it_index := k'\<rparr>)"
        "iter_settled (it\<lparr>it_index := k'\<rparr>)" "?k < k'"
        "\<forall>j. ?k < j \<longrightarrow> j < k' \<longrightarrow> it_counts it ! j = 0" by blast
    have "\<forall>c \<in> set cs1. is_i32 c" using less.prems(1)
      by (auto simp: merge_ready_def cs1_def dest!: set_update_subset_insert [THEN subsetD])
    then have ready: "merge_ready br cs1 (it\<lparr>it_index := k'\<rparr>)"
      using less.prems(1) k'(2) by (simp add: merge_ready_def cs1_def)
    have "length cs1 - index + (length cs1 - k') < length cs - index + (length cs - ?k)"
      using 2 k'(3) by (simp add: cs1_def)
    with less.hyps [of cs1 index "it\<lparr>it_index := k'\<rparr>"] ready 2 k'(3) show ?thesis
      using AddSubtract_loop_hit [OF less.prems(1) 2(1) k'(1), of op] less.prems(1)
        merged_step [of op k' "it_counts it" cs ?k, OF _ k'(3,4)]
      by (fastforce simp: cs1_def merge_ready_def)
  next
    case 3
    with less.hyps [of cs "index + 1" it] less.prems show ?thesis
      by (simp add: AddSubtract_loop_below [OF less.prems(1) 3])
  qed
qed

definition same_shape :: "sample_vector \<Rightarrow> sample_vector \<Rightarrow> bool" where
  "same_shape a b \<longleftrightarrow> wf_samples a \<and> wf_samples b \<and> sv_ranges a = sv_ranges b"

definition op_sum :: "sample_op \<Rightarrow> int \<Rightarrow> int \<Rightarrow> int" where
  "op_sum op x y = (if op = ADD then x + y else x - y)"

definition merge_counts :: "sample_op \<Rightarrow> int list \<Rightarrow> int list \<Rightarrow> int list" where
  "merge_counts op cs ds = map2 (\<lambda>c d. i32 (op_sum op c d)) cs ds"

lemma i32_op_delta: "i32 (c + op_delta op d) = i32 (op_sum op c d)"
  by (simp add: op_delta_def op_sum_def wrap_simps)

lemma AddSubtractImpl_merges:
  assumes "same_shape a b"
  shows "\<exists>it. SampleVector_Iterator b = Inr it \<and>
     SampleVector_AddSubtractImpl (a\<lparr>sv_sum := s\<rparr>) it op =
       Inr (True, a\<lparr>sv_sum := s, sv_counts := merge_counts op (sv_counts a) (sv_counts b)\<rparr>)"
proof -
  let ?it0 = "\<lparr>it_counts = sv_counts b, it_ranges = sv_ranges b, it_index = 0\<rparr>"
  define k where "k = it_index (Iter_SkipEmptyBuckets ?it0)"
  define it where "it = ?it0\<lparr>it_index := k\<rparr>"
  have len: "length (sv_counts a) = length (sv_counts b)"
    using assms by (auto simp: same_shape_def wf_samples_def)
  have k: "k \<le> length (sv_counts b)" "\<forall>j < k. sv_counts b ! j = 0" "iter_settled it"
    using SkipEmptyBuckets_loop_zero [of 0 "sv_counts b"] SkipEmptyBuckets_loop_bounds [of 0 "sv_counts b"]
    by (auto simp: k_def it_def iter_settled_def Iter_SkipEmptyBuckets_def Iter_Done_def)
  have it: "SampleVector_Iterator b = Inr it"
    using bucket_count_samples [of b] assms
    by (simp add: SampleVector_Iterator_def Iter_new_def same_shape_def it_def k_def Iter_SkipEmptyBuckets_def)
  have "merge_ready (sv_ranges a) (sv_counts a) it"
    using assms k(3) len by (simp add: merge_ready_def same_shape_def wf_samples_def wf_ranges_def it_def)
  then obtain cs' where cs': "AddSubtract_loop (sv_ranges a) op (sv_counts a) it 0 = Inr (True, cs')"
      "merged op k (sv_counts b) (sv_counts a) cs'"
    using AddSubtract_loop_spec [of "sv_ranges a" "sv_counts a" it 0 op] by (auto simp: it_def)
  have "cs' = merge_counts op (sv_counts a) (sv_counts b)"
    using cs'(2) k(2) len assms
    by (auto simp: list_eq_iff_nth_eq merged_def merge_counts_def i32_op_delta op_sum_def
        same_shape_def wf_samples_def)
  with it cs'(1) show ?thesis by (auto simp: SampleVector_AddSubtractImpl_def)
qed

lemma HistogramSamples_Add_eq:
  assumes "same_shape a b"
  shows "HistogramSamples_Add a b = Inr (a\<lparr>sv_sum := i64 (sv_sum a + sv_sum b),
           sv_counts := merge_counts ADD (sv_counts a) (sv_counts b)\<rparr>)"
  using AddSubtractImpl_merges [OF assms, of "i64 (sv_sum a + sv_sum b)" ADD]
  by (auto simp: HistogramSamples_Add_def)

lemma HistogramSamples_Subtract_eq:
  assumes "same_shape a b"
  shows "HistogramSamples_Subtract a b = Inr (a\<lparr>sv_sum := i64 (sv_sum a - sv_sum b),
           sv_counts := merge_counts SUBTRACT (sv_counts a) (sv_counts b)\<rparr>)"
  using AddSubtractImpl_merges [OF assms, of "i64 (sv_sum a - sv_sum b)" SUBTRACT]
  by (auto simp: HistogramSamples_Subtract_def)

subsection \<open>The interface of a sample store\<close>

text \<open>
  What \<open>HistogramSamples\<close> promises its clients (the histogram and its snapshots): two stores of the
  same shape can be added and subtracted, bucket by bucket and in two's complement, and a store is
  determined by its shape, counts and sum. The laws of the algebra follow from that alone.
\<close>

locale sample_store =
  fixes inv :: "'s \<Rightarrow> bool"
    and shape :: "'s \<Rightarrow> 'r"
    and count_of :: "'s \<Rightarrow> nat \<Rightarrow> int"
    and sum_of :: "'s \<Rightarrow> int"
    and add :: "'s \<Rightarrow> 's \<Rightarrow> 's result"
    and sub :: "'s \<Rightarrow> 's \<Rightarrow> 's result"
  assumes add_law: "inv a \<Longrightarrow> inv b \<Longrightarrow> shape a = shape b \<Longrightarrow>
      \<exists>c. add a b = Inr c \<and> inv c \<and> shape c = shape a \<and>
          count_of c = (\<lambda>i. i32 (count_of a i + count_of b i)) \<and> sum_of c = i64 (sum_of a + sum_of b)"
    and sub_law: "inv a \<Longrightarrow> inv b \<Longrightarrow> shape a = shape b \<Longrightarrow>
      \<exists>c. sub a b = Inr c \<and> inv c \<and> shape c = shape a \<and>
          count_of c = (\<lambda>i. i32 (count_of a i - count_of b i)) \<and> sum_of c = i64 (sum_of a - sum_of b)"
    and store_ext: "inv a \<Longrightarrow> inv b \<Longrightarrow> shape a = shape b \<Longrightarrow>
      count_of a = count_of b \<Longrightarrow> sum_of a = sum_of b \<Longrightarrow> a = b"
    and count_width: "inv a \<Longrightarrow> is_i32 (count_of a i)"
    and sum_width: "inv a \<Longrightarrow> is_i64 (sum_of a)"
begin

lemma sub_after_add:
  assumes "inv a" "inv b" "shape a = shape b"
  shows "bindR (add a b) (\<lambda>c. sub c b) = Inr a"
proof -
  obtain c where c: "add a b = Inr c" "inv c" "shape c = shape a"
      "count_of c = (\<lambda>i. i32 (count_of a i + count_of b i))" "sum_of c = i64 (sum_of a + sum_of b)"
    using add_law [OF assms] by blast
  obtain d where d: "sub c b = Inr d" "inv d" "shape d = shape c"
      "count_of d = (\<lambda>i. i32 (count_of c i - count_of b i))" "sum_of d = i64 (sum_of c - sum_of b)"
    using sub_law [of c b] c assms by auto
  have "d = a"
    using c d assms by (intro store_ext) (auto simp: wrap_simps count_width sum_width)
  with c d show ?thesis by simp
qed

lemma add_commutes:
  assumes "inv a" "inv b" "shape a = shape b"
  shows "add a b = add b a"
proof -
  obtain c where c: "add a b = Inr c" "inv c" "shape c = shape a"
      "count_of c = (\<lambda>i. i32 (count_of a i + count_of b i))" "sum_of c = i64 (sum_of a + sum_of b)"
    using add_law [OF assms] by blast
  obtain d where d: "add b a = Inr d" "inv d" "shape d = shape b"
      "count_of d = (\<lambda>i. i32 (count_of b i + count_of a i))" "sum_of d = i64 (sum_of b + sum_of a)"
    using add_law [of b a] assms by auto
  have "c = d" using c d assms by (intro store_ext) (auto simp: add.commute)
  with c d show ?thesis by simp
qed

lemma add_to_zero:
  assumes "inv z" "inv a" "shape z = shape a" "count_of z = (\<lambda>i. 0)" "sum_of z = 0"
  shows "add z a = Inr a"
proof -
  obtain c where c: "add z a = Inr c" "inv c" "shape c = shape z"
      "count_of c = (\<lambda>i. i32 (count_of z i + count_of a i))" "sum_of c = i64 (sum_of z + sum_of a)"
    using add_law [of z a] assms by blast
  have "c = a" using c assms by (intro store_ext) (auto simp: count_width sum_width)
  with c show ?thesis by simp
qed

end

definition count_at :: "sample_vector \<Rightarrow> nat \<Rightarrow> int" where
  "count_at sv i = (if i < length (sv_counts sv) then sv_counts sv ! i else 0)"

lemma merge_counts_wf:
  assumes "same_shape a b"
  shows "length (merge_counts op (sv_counts a) (sv_counts b)) = length (sv_counts a)"
    and "\<forall>c \<in> set (merge_counts op (sv_counts a) (sv_counts b)). is_i32 c"
  using assms by (auto simp: same_shape_def wf_samples_def merge_counts_def)

lemma count_at_merge:
  assumes "same_shape a b"
  shows "count_at (a\<lparr>sv_sum := s, sv_counts := merge_counts op (sv_counts a) (sv_counts b)\<rparr>) i =
           i32 (op_sum op (count_at a i) (count_at b i))"
proof -
  have "length (sv_counts a) = length (sv_counts b)"
    using assms by (auto simp: same_shape_def wf_samples_def)
  then show ?thesis by (auto simp: count_at_def merge_counts_def op_sum_def i32_id)
qed

lemma merged_wf:
  assumes "same_shape a b" "is_i64 s"
  shows "wf_samples (a\<lparr>sv_sum := s, sv_counts := merge_counts op (sv_counts a) (sv_counts b)\<rparr>)"
  using assms merge_counts_wf [OF assms(1)] by (intro wf_samples_update) (auto simp: same_shape_def)

lemma samples_ext:
  assumes "wf_samples a" "wf_samples b" "sv_ranges a = sv_ranges b"
    "count_at a = count_at b" "sv_sum a = sv_sum b"
  shows "a = b"
proof -
  have len: "length (sv_counts a) = length (sv_counts b)"
    using assms(1-3) by (auto simp: wf_samples_def)
  have "sv_counts a = sv_counts b"
  proof (rule nth_equalityI [OF len])
    fix i assume "i < length (sv_counts a)"
    with len fun_cong [OF assms(4), of i] show "sv_counts a ! i = sv_counts b ! i"
      by (simp add: count_at_def)
  qed
  with assms show ?thesis by (cases a; cases b) simp
qed

interpretation sv_store: sample_store wf_samples sv_ranges count_at sv_sum
  HistogramSamples_Add HistogramSamples_Subtract
proof (unfold_locales, goal_cases)
  case (1 a b)
  then have s: "same_shape a b" by (simp add: same_shape_def)
  then show ?case using count_at_merge [OF s, where op = ADD] merged_wf [OF s, where op = ADD]
    by (auto simp: HistogramSamples_Add_eq op_sum_def)
next
  case (2 a b)
  then have s: "same_shape a b" by (simp add: same_shape_def)
  then show ?case using count_at_merge [OF s, where op = SUBTRACT] merged_wf [OF s, where op = SUBTRACT]
    by (auto simp: HistogramSamples_Subtract_eq op_sum_def)
next
  case (3 a b)
  then show ?case by (rule samples_ext)
next
  case (4 a i)
  then show ?case by (auto simp: wf_samples_def count_at_def is_i32_def)
next
  case (5 a)
  then show ?case by (simp add: wf_samples_def)
qed

subsection \<open>Properties\<close>

fun linear_bucket :: "int list \<Rightarrow> int \<Rightarrow> nat" where
  "linear_bucket (x # y # zs) val = (if val < y then 0 else Suc (linear_bucket (y # zs) val))"
| "linear_bucket _ val = 0"

lemma linear_bucket_in:
  "hd xs \<le> val \<Longrightarrow> val < last xs \<Longrightarrow> xs \<noteq> [] \<Longrightarrow>
     linear_bucket xs val + 1 < length xs \<and> xs ! linear_bucket xs val \<le> val \<and>
     val < xs ! (linear_bucket xs val + 1)"
  by (induction xs val rule: linear_bucket.induct) auto

text \<open>
  C17: the binary search of \<open>SampleVector::GetBucketIndex\<close> is total and agrees with the linear scan
  over strictly increasing ranges: a value between the first and the last range gets the index of
  the one bucket that holds it, any other value fails the first or second \<open>CHECK\<close>.
\<close>
theorem GetBucketIndex_equiv_linear:
  assumes "wf_ranges (sv_ranges sv)"
  shows "SampleVector_GetBucketIndex sv val =
    (let xs = br_ranges (sv_ranges sv) in
     if hd xs \<le> val \<and> val < last xs then Inr (linear_bucket xs val) else Inl Check_Failed)"
proof -
  let ?xs = "br_ranges (sv_ranges sv)"
  have ne: "?xs \<noteq> []" "0 < length ?xs" using assms by (auto simp: wf_ranges_def)
  show ?thesis
  proof (cases "hd ?xs \<le> val \<and> val < last ?xs")
    case True
    then have "in_bucket (sv_ranges sv) val (linear_bucket ?xs val)"
      using linear_bucket_in [of ?xs val] ne by (simp add: in_bucket_def)
    from GetBucketIndex_eqI [OF assms this] True show ?thesis by simp
  next
    case False
    have n: "BucketRanges_bucket_count (sv_ranges sv) = length ?xs - 1" "1 \<le> length ?xs - 1"
      using bucket_count_wf [OF assms] assms by (auto simp: wf_ranges_def)
    with False ne show ?thesis
      by (auto simp: SampleVector_GetBucketIndex_def BucketRanges_range_def Let_def CHECK_def
          hd_conv_nth last_conv_nth simp flip: length_greater_0_conv)
  qed
qed

theorem GetBucketIndex_equiv_linear_witness:
  "wf_ranges \<lparr>br_ranges = [0, 1, 3, 7, INT_MAX]\<rparr> \<and>
   SampleVector_GetBucketIndex
     \<lparr>sv_sum = 0, sv_counts = [0, 0, 0, 0], sv_ranges = \<lparr>br_ranges = [0, 1, 3, 7, INT_MAX]\<rparr>\<rparr> 5 = Inr 2"
  using GetBucketIndex_equiv_linear [of
      "\<lparr>sv_sum = 0, sv_counts = [0, 0, 0, 0], sv_ranges = \<lparr>br_ranges = [0, 1, 3, 7, INT_MAX]\<rparr>\<rparr>" 5]
  by (simp add: wf_ranges_def)

text \<open>
  C18: \<open>Subtract\<close> undoes \<open>Add\<close> exactly, for any two well-formed vectors over the same ranges and even
  when a count or the sum wraps around; neither operation fails a check.
\<close>
theorem Subtract_undoes_Add:
  assumes "wf_samples a" "wf_samples b" "sv_ranges a = sv_ranges b"
  shows "bindR (HistogramSamples_Add a b) (\<lambda>c. HistogramSamples_Subtract c b) = Inr a"
  using assms by (rule sv_store.sub_after_add)

definition demo_samples :: "int \<Rightarrow> int list \<Rightarrow> sample_vector" where
  "demo_samples s cs = \<lparr>sv_sum = s, sv_counts = cs, sv_ranges = \<lparr>br_ranges = [0, 1, 3, 7, INT_MAX]\<rparr>\<rparr>"

lemma demo_samples_wf:
  "length cs = 4 \<Longrightarrow> \<forall>c \<in> set cs. is_i32 c \<Longrightarrow> is_i64 s \<Longrightarrow> wf_samples (demo_samples s cs)"
  by (auto simp: demo_samples_def wf_samples_def wf_ranges_def)

theorem Subtract_undoes_Add_witness:
  "bindR (HistogramSamples_Add (demo_samples 9 [INT_MAX, 0, 2, 0]) (demo_samples 4 [5, 0, 0, 1]))
     (\<lambda>c. HistogramSamples_Subtract c (demo_samples 4 [5, 0, 0, 1])) =
   Inr (demo_samples 9 [INT_MAX, 0, 2, 0])"
  by (rule Subtract_undoes_Add)
    (auto intro!: demo_samples_wf simp: is_i32_def is_i64_def, simp add: demo_samples_def)

text \<open>
  Recording a sample inside the ranges succeeds, keeps the vector well formed, raises the count
  of the bucket that holds the value by one (in two's complement) and leaves every other bucket's
  count alone. The \<open>count\<close> argument of \<open>Accumulate\<close> reaches the sum only: a sample accumulated with
  \<open>count = n\<close> is counted once.
\<close>
theorem Accumulate_counts_once:
  assumes "wf_samples sv" "in_bucket (sv_ranges sv) val i"
  shows "\<exists>sv'. SampleVector_Accumulate sv val cnt = Inr sv' \<and> wf_samples sv' \<and>
           sv_ranges sv' = sv_ranges sv \<and>
           count_at sv' = (count_at sv)(i := i32 (count_at sv i + 1)) \<and>
           sv_sum sv' = i64 (sv_sum sv + i32 (cnt * val))"
proof -
  have i: "i < length (sv_counts sv)" using assms by (auto simp: wf_samples_def in_bucket_def)
  show ?thesis
    using Accumulate_step [OF assms, of cnt] Accumulate_wf [OF assms(1), of val cnt] i
    by (auto simp: count_at_def fun_eq_iff)
qed

end
