(* ===== verification/Histograms.thy ===== *)
theory Histograms
  imports Buckets
begin

text \<open>
  \<^verbatim>\<open>metrics/Histogram.h,.cc\<close>: construction with exponential bucket ranges, recording, snapshots and
  the pieces of the text report.

  Doubles and \<^verbatim>\<open>libm\<close> are the parameter \<open>fp\<close>: a record with the operations the code uses on them
  (arithmetic, comparison, conversions, \<open>log\<close>, \<open>exp\<close>, \<open>floor\<close> and the \<open>%.1f\<close> and \<open>%3.1f\<close>
  conversions of \<open>printf\<close>) over an unknown type. What is needed of them is a hypothesis
  of the theorem that needs it; the report's theorems hold for every \<open>fp\<close>. The loops of the
  reports and the JSON report are in \<open>Reports\<close>.
\<close>

subsection \<open>Floating point as a parameter\<close>

record 'd fp =
  fp_of_int :: "int \<Rightarrow> 'd"
  fp_to_int :: "'d \<Rightarrow> int"
  fp_half :: 'd
  fp_add :: "'d \<Rightarrow> 'd \<Rightarrow> 'd"
  fp_sub :: "'d \<Rightarrow> 'd \<Rightarrow> 'd"
  fp_mul :: "'d \<Rightarrow> 'd \<Rightarrow> 'd"
  fp_div :: "'d \<Rightarrow> 'd \<Rightarrow> 'd"
  fp_less :: "'d \<Rightarrow> 'd \<Rightarrow> bool"
  fp_log :: "'d \<Rightarrow> 'd"
  fp_exp :: "'d \<Rightarrow> 'd"
  fp_floor :: "'d \<Rightarrow> 'd"
  fmt_1f :: "'d \<Rightarrow> string"
  fmt_3_1f :: "'d \<Rightarrow> string"

subsection \<open>Construction\<close>

definition kSampleTypeMax :: int where "kSampleTypeMax = INT_MAX"
definition kBucketCountMax :: nat where "kBucketCountMax = 16384"

record histogram =
  histogram_name :: string
  h_ranges :: bucket_ranges
  declared_min :: int
  declared_max :: int
  h_samples :: sample_vector

definition next_range :: "'d fp \<Rightarrow> 'd \<Rightarrow> int \<Rightarrow> nat \<Rightarrow> int" where
  "next_range fp log_max current steps =
     (let log_current = fp_log fp (fp_of_int fp current);
          log_ratio = fp_div fp (fp_sub fp log_max log_current) (fp_of_int fp (int steps));
          log_next = fp_add fp log_current log_ratio
      in i32 (fp_to_int fp (fp_floor fp (fp_add fp (fp_exp fp log_next) (fp_half fp)))))"

function InitializeBucketRanges_loop ::
  "'d fp \<Rightarrow> 'd \<Rightarrow> nat \<Rightarrow> nat \<Rightarrow> int \<Rightarrow> bucket_ranges \<Rightarrow> bucket_ranges result" where
  "InitializeBucketRanges_loop fp log_max n bucket_index current ranges =
     (let bucket_index = bucket_index + 1
      in if bucket_index < n then
           let next = next_range fp log_max current (n - bucket_index);
               current = (if current < next then next else i32 (current + 1))
           in bindR (BucketRanges_set_range ranges bucket_index current)
                (InitializeBucketRanges_loop fp log_max n bucket_index current)
         else Inr ranges)"
  by pat_completeness auto
termination
  by (relation "measure (\<lambda>(fp, log_max, n, bucket_index, current, ranges). n - bucket_index)") auto

declare InitializeBucketRanges_loop.simps [simp del]

definition InitializeBucketRanges :: "'d fp \<Rightarrow> int \<Rightarrow> int \<Rightarrow> bucket_ranges \<Rightarrow> bucket_ranges result" where
  "InitializeBucketRanges fp minimum maximum ranges =
     (let log_max = fp_log fp (fp_of_int fp maximum)
      in bindR (BucketRanges_set_range ranges 1 minimum) (\<lambda>ranges.
         bindR (InitializeBucketRanges_loop fp log_max (BucketRanges_bucket_count ranges) 1 minimum ranges) (\<lambda>ranges.
         BucketRanges_set_range ranges (BucketRanges_bucket_count ranges) kSampleTypeMax)))"

definition Histogram_new :: "'d fp \<Rightarrow> string \<Rightarrow> int \<Rightarrow> int \<Rightarrow> nat \<Rightarrow> histogram result" where
  "Histogram_new fp name minimum maximum bucket_count =
     bindR (InitializeBucketRanges fp minimum maximum (BucketRanges_new ((bucket_count + 1) mod 2 ^ 64))) (\<lambda>ranges.
     bindR (SampleVector_new ranges) (\<lambda>samples.
     Inr \<lparr>histogram_name = name, h_ranges = ranges, declared_min = minimum, declared_max = maximum,
          h_samples = samples\<rparr>))"

definition InspectConstructionArguments :: "int \<Rightarrow> int \<Rightarrow> nat \<Rightarrow> bool \<times> int \<times> int \<times> nat" where
  "InspectConstructionArguments minimum maximum bucket_count =
     (let minimum = (if minimum < 1 then 1 else minimum);
          maximum = (if kSampleTypeMax \<le> maximum then kSampleTypeMax - 1 else maximum);
          bucket_count = (if kBucketCountMax \<le> bucket_count then kBucketCountMax - 1 else bucket_count);
          ok = (if maximum \<le> minimum then False
                else if bucket_count < 3 then False
                else if nat ((i32 (i32 (maximum - minimum) + 2)) mod 2 ^ 64) < bucket_count then False
                else True)
      in (ok, minimum, maximum, bucket_count))"

subsection \<open>Recording and snapshots\<close>

definition Histogram_ranges :: "histogram \<Rightarrow> nat \<Rightarrow> int result" where
  "Histogram_ranges h i = BucketRanges_range (h_ranges h) i"

definition Histogram_bucket_count :: "histogram \<Rightarrow> nat" where
  "Histogram_bucket_count h = BucketRanges_bucket_count (h_ranges h)"

definition Histogram_Add :: "histogram \<Rightarrow> int \<Rightarrow> histogram result" where
  "Histogram_Add h val =
     bindR (Histogram_ranges h 0) (\<lambda>first. DCHECK (0 = first)
    (bindR (Histogram_ranges h (Histogram_bucket_count h)) (\<lambda>last. DCHECK (kSampleTypeMax = last)
    (let val = (if kSampleTypeMax \<le> val then kSampleTypeMax - 1 else val);
         val = (if val < 0 then 0 else val)
     in bindR (SampleVector_Accumulate (h_samples h) val 1) (\<lambda>sv. Inr (h\<lparr>h_samples := sv\<rparr>))))))"

definition SnapshotSampleVector :: "histogram \<Rightarrow> sample_vector result" where
  "SnapshotSampleVector h =
     bindR (SampleVector_new (h_ranges h)) (\<lambda>samples. HistogramSamples_Add samples (h_samples h))"

definition Histogram_AddSamples :: "histogram \<Rightarrow> sample_vector \<Rightarrow> histogram result" where
  "Histogram_AddSamples h samples =
     bindR (HistogramSamples_Add (h_samples h) samples) (\<lambda>sv. Inr (h\<lparr>h_samples := sv\<rparr>))"

subsection \<open>The text report\<close>

definition GetBucketSize :: "'d fp \<Rightarrow> histogram \<Rightarrow> int \<Rightarrow> nat \<Rightarrow> 'd result" where
  "GetBucketSize fp h current i =
     bindR (Histogram_ranges h (i + 1)) (\<lambda>hi. bindR (Histogram_ranges h i) (\<lambda>lo. DCHECK (lo < hi)
       (let kTransitionWidth = fp_of_int fp 5;
            denominator = fp_of_int fp (i32 (hi - lo));
            denominator = (if fp_less fp kTransitionWidth denominator then kTransitionWidth else denominator)
        in Inr (fp_div fp (fp_of_int fp current) denominator))))"

definition GetAsciiBucketRange :: "histogram \<Rightarrow> nat \<Rightarrow> string result" where
  "GetAsciiBucketRange h i = bindR (Histogram_ranges h i) (\<lambda>sample. Inr (fmt_d sample))"

definition WriteAsciiBucketGraph :: "'d fp \<Rightarrow> 'd \<Rightarrow> 'd \<Rightarrow> string" where
  "WriteAsciiBucketGraph fp current_size max_size =
     (let k_line_length = 72;
          x_count = i32 (fp_to_int fp (fp_add fp (fp_mul fp (fp_of_int fp k_line_length)
                      (fp_div fp current_size max_size)) (fp_half fp)));
          x_remainder = i32 (k_line_length - x_count)
      in replicate (nat x_count) (CHR ''-'') @ ''O'' @ replicate (nat x_remainder) (CHR '' ''))"

definition WriteAsciiBucketValue :: "'d fp \<Rightarrow> int \<Rightarrow> 'd \<Rightarrow> string" where
  "WriteAsciiBucketValue fp current scaled_sum =
     '' ('' @ fmt_d current @ '' = '' @ fmt_3_1f fp (fp_div fp (fp_of_int fp current) scaled_sum) @ ''%)''"

definition WriteAsciiBucketContext :: "'d fp \<Rightarrow> int \<Rightarrow> int \<Rightarrow> int \<Rightarrow> nat \<Rightarrow> string" where
  "WriteAsciiBucketContext fp past current remaining i =
     (let scaled_sum = fp_div fp (fp_of_int fp (i64 (i64 (past + current) + remaining))) (fp_of_int fp 100)
      in WriteAsciiBucketValue fp current scaled_sum @
         (if 0 < i then '' {'' @ fmt_3_1f fp (fp_div fp (fp_of_int fp past) scaled_sum) @ ''%}'' else ''''))"

definition WriteAsciiHeader :: "'d fp \<Rightarrow> histogram \<Rightarrow> sample_vector \<Rightarrow> int \<Rightarrow> string result" where
  "WriteAsciiHeader fp h samples sample_count =
     (let out = ''Histogram: '' @ histogram_name h @ '' recorded '' @ fmt_d sample_count @ '' samples''
      in if sample_count = 0 then DCHECK (sv_sum samples = 0) (Inr out)
         else Inr (out @ '', average = '' @
                fmt_1f fp (fp_div fp (fp_of_int fp (sv_sum samples)) (fp_of_int fp sample_count))))"

fun GetPeakBucketSize_loop :: "'d fp \<Rightarrow> histogram \<Rightarrow> sample_vector \<Rightarrow> 'd \<Rightarrow> nat list \<Rightarrow> 'd result" where
  "GetPeakBucketSize_loop fp h samples mx [] = Inr mx"
| "GetPeakBucketSize_loop fp h samples mx (i # is) =
     bindR (SampleVector_GetCountAtIndex samples i) (\<lambda>c.
     bindR (GetBucketSize fp h c i) (\<lambda>current_size.
     GetPeakBucketSize_loop fp h samples (if fp_less fp mx current_size then current_size else mx) is))"

definition GetPeakBucketSize :: "'d fp \<Rightarrow> histogram \<Rightarrow> sample_vector \<Rightarrow> 'd result" where
  "GetPeakBucketSize fp h samples =
     GetPeakBucketSize_loop fp h samples (fp_of_int fp 0) [0..<Histogram_bucket_count h]"

fun LargestNonEmpty_loop :: "sample_vector \<Rightarrow> nat \<Rightarrow> nat result" where
  "LargestNonEmpty_loop snapshot 0 = bindR (SampleVector_GetCountAtIndex snapshot 0) (\<lambda>c. Inr 0)"
| "LargestNonEmpty_loop snapshot (Suc i) =
     bindR (SampleVector_GetCountAtIndex snapshot (Suc i)) (\<lambda>c.
       if 0 = c then LargestNonEmpty_loop snapshot i else Inr (Suc i))"

fun PrintWidth_loop :: "histogram \<Rightarrow> sample_vector \<Rightarrow> nat \<Rightarrow> nat list \<Rightarrow> nat result" where
  "PrintWidth_loop h snapshot print_width [] = Inr print_width"
| "PrintWidth_loop h snapshot print_width (i # is) =
     bindR (SampleVector_GetCountAtIndex snapshot i) (\<lambda>c.
       if c \<noteq> 0 then
         bindR (GetAsciiBucketRange h i) (\<lambda>range.
           let width = length range + 1
           in PrintWidth_loop h snapshot (if print_width < width then width else print_width) is)
       else PrintWidth_loop h snapshot print_width is)"

function SkipEmptyRun_loop :: "sample_vector \<Rightarrow> nat \<Rightarrow> nat \<Rightarrow> nat result" where
  "SkipEmptyRun_loop snapshot n i =
     (if i < size_sub n 1 then
        bindR (SampleVector_GetCountAtIndex snapshot (i + 1)) (\<lambda>c.
          if 0 = c then SkipEmptyRun_loop snapshot n (i + 1) else Inr i)
      else Inr i)"
  by pat_completeness auto
termination
  by (relation "measure (\<lambda>(snapshot, n, i). size_sub n 1 - i)") auto

declare SkipEmptyRun_loop.simps [simp del]

lemma SkipEmptyRun_loop_ge: "SkipEmptyRun_loop snapshot n i = Inr j \<Longrightarrow> i \<le> j"
proof (induction snapshot n i arbitrary: j rule: SkipEmptyRun_loop.induct)
  case (1 snapshot n i)
  from "1.prems" show ?case
    using "1.IH" by (subst (asm) SkipEmptyRun_loop.simps) (fastforce split: if_splits)
qed

definition next_is_empty :: "sample_vector \<Rightarrow> nat \<Rightarrow> int \<Rightarrow> nat \<Rightarrow> bool result" where
  "next_is_empty snapshot n current i =
     (if 0 = current \<and> i < size_sub n 1
      then bindR (SampleVector_GetCountAtIndex snapshot (i + 1)) (\<lambda>c. Inr (0 = c)) else Inr False)"

record 'd report =
  rp_graph :: bool
  rp_newline :: string
  rp_max_size :: 'd
  rp_width :: nat

function WriteAscii_rows ::
  "'d fp \<Rightarrow> histogram \<Rightarrow> sample_vector \<Rightarrow> 'd report \<Rightarrow> nat \<Rightarrow> int \<Rightarrow> int \<Rightarrow> string \<Rightarrow> (int \<times> string) result" where
  "WriteAscii_rows fp h snapshot rp i remaining past out =
     (if i < Histogram_bucket_count h then
        bindR (SampleVector_GetCountAtIndex snapshot i) (\<lambda>current.
        bindR (GetAsciiBucketRange h i) (\<lambda>range.
        bindR (next_is_empty snapshot (Histogram_bucket_count h) current i) (\<lambda>empty_run.
          let remaining = i64 (remaining - current);
              out = out @ range @ replicate (rp_width rp + 1 - length range) (CHR '' '')
          in if empty_run then
               bindR (SkipEmptyRun_loop snapshot (Histogram_bucket_count h) i) (\<lambda>j.
                 WriteAscii_rows fp h snapshot rp (j + 1) remaining past (out @ ''... '' @ rp_newline rp))
             else
               bindR (GetBucketSize fp h current i) (\<lambda>current_size.
                 let out = out @ (if rp_graph rp then WriteAsciiBucketGraph fp current_size (rp_max_size rp) else '''')
                       @ WriteAsciiBucketContext fp past current remaining i @ rp_newline rp
                 in WriteAscii_rows fp h snapshot rp (i + 1) remaining (i64 (past + current)) out))))
      else Inr (past, out))"
  by pat_completeness auto
termination
  by (relation "measure (\<lambda>(fp, h, snapshot, rp, i, remaining, past, out). Histogram_bucket_count h - i)")
    (auto dest!: SkipEmptyRun_loop_ge)

declare WriteAscii_rows.simps [simp del]

definition WriteAsciiImpl :: "'d fp \<Rightarrow> histogram \<Rightarrow> bool \<Rightarrow> string \<Rightarrow> string \<Rightarrow> string result" where
  "WriteAsciiImpl fp h graph_it newline out =
     bindR (SnapshotSampleVector h) (\<lambda>snapshot.
     let sample_count = SampleVector_TotalCount snapshot; n = Histogram_bucket_count h in
     bindR (WriteAsciiHeader fp h snapshot sample_count) (\<lambda>header.
     bindR (if graph_it then GetPeakBucketSize fp h snapshot else Inr (fp_of_int fp 0)) (\<lambda>max_size.
     bindR (LargestNonEmpty_loop snapshot (size_sub n 1)) (\<lambda>largest_non_empty_bucket.
     bindR (PrintWidth_loop h snapshot 1 [0..<n]) (\<lambda>print_width.
     bindR (WriteAscii_rows fp h snapshot
              \<lparr>rp_graph = graph_it, rp_newline = newline, rp_max_size = max_size, rp_width = print_width\<rparr>
              0 sample_count 0 (out @ header @ newline)) (\<lambda>(past, out).
     DCHECK (sample_count = past) (Inr out)))))))"

definition Histogram_WriteAscii :: "'d fp \<Rightarrow> histogram \<Rightarrow> string \<Rightarrow> string result" where
  "Histogram_WriteAscii fp h out = WriteAsciiImpl fp h True ''\<newline>'' out"

definition Histogram_WriteHTMLGraph :: "'d fp \<Rightarrow> histogram \<Rightarrow> string \<Rightarrow> string result" where
  "Histogram_WriteHTMLGraph fp h out =
     bindR (WriteAsciiImpl fp h True ''<br>'' (out @ ''<PRE>'')) (\<lambda>out. Inr (out @ ''</PRE>''))"

subsection \<open>Construction gives well-formed ranges\<close>

definition wf_histogram :: "histogram \<Rightarrow> bool" where
  "wf_histogram h \<longleftrightarrow> wf_samples (h_samples h) \<and> sv_ranges (h_samples h) = h_ranges h \<and>
     hd (br_ranges (h_ranges h)) = 0 \<and> last (br_ranges (h_ranges h)) = kSampleTypeMax \<and>
     length (br_ranges (h_ranges h)) \<le> 2 ^ 63"

text \<open>
  The one thing asked of the floating-point unit: interpolating between \<open>log current\<close> and
  \<open>log maximum\<close> and rounding back gives no value above both \<open>current\<close> and \<open>maximum\<close>.
\<close>

definition interpolates :: "'d fp \<Rightarrow> int \<Rightarrow> bool" where
  "interpolates fp maximum \<longleftrightarrow>
     (\<forall>current steps. 0 < current \<and> current < INT_MAX \<and> 0 < steps \<longrightarrow>
        next_range fp (fp_log fp (fp_of_int fp maximum)) current steps \<le> max current maximum)"

definition filled :: "bucket_ranges \<Rightarrow> nat \<Rightarrow> int \<Rightarrow> bool" where
  "filled br k current \<longleftrightarrow> k < length (br_ranges br) \<and> br_ranges br ! 0 = 0 \<and> br_ranges br ! k = current \<and>
     0 < current \<and> (\<forall>i < k. br_ranges br ! i < br_ranges br ! Suc i)"

lemma set_range_eq:
  "i < length (br_ranges r) \<Longrightarrow> 0 < v \<Longrightarrow> BucketRanges_set_range r i v = Inr (r\<lparr>br_ranges := (br_ranges r)[i := v]\<rparr>)"
  by (simp add: BucketRanges_set_range_def)

lemma filled_extend:
  assumes "filled br k current" "Suc k < length (br_ranges br)" "current < v"
  shows "filled (br\<lparr>br_ranges := (br_ranges br)[Suc k := v]\<rparr>) (Suc k) v"
  using assms by (auto simp: filled_def nth_list_update less_Suc_eq)

lemma InitializeBucketRanges_loop_filled:
  assumes "interpolates fp maximum" "maximum \<le> M" "M + int n \<le> INT_MAX"
    and "filled br k current" "0 < k" "k < n" "n < length (br_ranges br)" "current \<le> M + int k"
  shows "\<exists>br' c. InitializeBucketRanges_loop fp (fp_log fp (fp_of_int fp maximum)) n k current br = Inr br' \<and>
     filled br' (n - 1) c \<and> c < INT_MAX \<and> length (br_ranges br') = length (br_ranges br) \<and>
     br_ranges br' ! 1 = br_ranges br ! 1"
  using assms(4-)
proof (induction "n - k" arbitrary: br k current rule: less_induct)
  case less
  let ?lm = "fp_log fp (fp_of_int fp maximum)"
  show ?case
  proof (cases "Suc k < n")
    case False
    then have "n - 1 = k" using less.prems(3) by simp
    moreover from False have "InitializeBucketRanges_loop fp ?lm n k current br = Inr br"
      by (subst InitializeBucketRanges_loop.simps) simp
    ultimately show ?thesis using less.prems assms(3) by auto
  next
    case True
    define nx where "nx = next_range fp ?lm current (n - Suc k)"
    define c where "c = (if current < nx then nx else i32 (current + 1))"
    define br' where "br' = br\<lparr>br_ranges := (br_ranges br)[Suc k := c]\<rparr>"
    have cur: "0 < current" "current + 1 < INT_MAX"
      using less.prems(1,5) True assms(3) by (auto simp: filled_def)
    have "nx \<le> max current maximum"
      using assms(1) cur True by (auto simp: interpolates_def nx_def)
    then have c: "current < c" "c \<le> M + int (Suc k)"
      using cur less.prems(5) assms(2) by (auto simp: c_def i32_id max_def split: if_splits)
    have step: "InitializeBucketRanges_loop fp ?lm n k current br = InitializeBucketRanges_loop fp ?lm n (Suc k) c br'"
      using True less.prems(4) cur c
      by (subst InitializeBucketRanges_loop.simps) (simp add: Let_def nx_def [symmetric] c_def [symmetric] set_range_eq br'_def)
    have "\<exists>br'' d. InitializeBucketRanges_loop fp ?lm n (Suc k) c br' = Inr br'' \<and> filled br'' (n - 1) d \<and>
        d < INT_MAX \<and> length (br_ranges br'') = length (br_ranges br') \<and> br_ranges br'' ! 1 = br_ranges br' ! 1"
      using less.prems True c filled_extend [OF less.prems(1) _ c(1)] by (intro less.hyps) (auto simp: br'_def)
    then show ?thesis using less.prems(2) by (simp add: step br'_def)
  qed
qed

lemma filled_wf:
  assumes "filled br k c" "c < v" "length (br_ranges br) = Suc (Suc k)"
  shows "wf_ranges (br\<lparr>br_ranges := (br_ranges br)[Suc k := v]\<rparr>)"
proof -
  have "filled (br\<lparr>br_ranges := (br_ranges br)[Suc k := v]\<rparr>) (Suc k) v"
    using assms by (intro filled_extend) auto
  then show ?thesis using assms(3)
    by (auto simp: wf_ranges_def filled_def sorted_wrt_iff_nth_Suc_transp)
qed

lemma InitializeBucketRanges_wf:
  assumes "interpolates fp maximum" "1 \<le> minimum" "2 \<le> n"
    and "minimum + int n \<le> INT_MAX" "maximum + int n \<le> INT_MAX"
  shows "\<exists>br. InitializeBucketRanges fp minimum maximum (BucketRanges_new (n + 1)) = Inr br \<and> wf_ranges br \<and>
     length (br_ranges br) = n + 1 \<and> hd (br_ranges br) = 0 \<and> last (br_ranges br) = INT_MAX \<and>
     br_ranges br ! 1 = minimum"
proof -
  define br0 where "br0 = \<lparr>br_ranges = (replicate (n + 1) 0)[1 := minimum]\<rparr>"
  have new: "BucketRanges_set_range (BucketRanges_new (n + 1)) 1 minimum = Inr br0"
    using assms by (simp add: BucketRanges_new_def set_range_eq br0_def)
  have f0: "filled br0 1 minimum" using assms by (simp add: filled_def br0_def)
  have M: "max minimum maximum + int n \<le> INT_MAX" "minimum \<le> max minimum maximum + int 1"
    using assms by (simp_all add: max_def)
  have "0 < (1::nat)" "1 < n" "n < length (br_ranges br0)" "br_ranges br0 ! 1 = minimum"
    "length (br_ranges br0) = n + 1" using assms(3) by (simp_all add: br0_def)
  then obtain br c where br: "InitializeBucketRanges_loop fp (fp_log fp (fp_of_int fp maximum)) n 1 minimum br0 = Inr br"
      "filled br (n - 1) c" "c < INT_MAX" "length (br_ranges br) = n + 1" "br_ranges br ! 1 = minimum"
    using InitializeBucketRanges_loop_filled [OF assms(1) max.cobounded2 M(1) f0 _ _ _ M(2)] by auto
  let ?br = "br\<lparr>br_ranges := (br_ranges br)[n := INT_MAX]\<rparr>"
  have cnt: "BucketRanges_bucket_count br0 = n" "BucketRanges_bucket_count br = n"
    using br(4) by (simp_all add: BucketRanges_bucket_count_def br0_def)
  have "InitializeBucketRanges fp minimum maximum (BucketRanges_new (n + 1)) = Inr ?br"
    using br new cnt by (simp add: InitializeBucketRanges_def kSampleTypeMax_def set_range_eq)
  moreover have "wf_ranges ?br" using filled_wf [OF br(2) br(3)] br(4) assms(3) by simp
  moreover have "br_ranges br \<noteq> []" using br(4) by auto
  ultimately show ?thesis
    using br assms(3) by (auto simp: filled_def hd_conv_nth last_conv_nth)
qed


text \<open>
  The witnesses use the integers as a stand-in for doubles: logarithm, exponential and rounding are
  the identity, so the interpolation is linear.
\<close>

definition int_fp :: "int fp" where
  "int_fp = \<lparr>fp_of_int = (\<lambda>x. x), fp_to_int = (\<lambda>x. x), fp_half = 0, fp_add = (+), fp_sub = (-), fp_mul = (*),
     fp_div = (div), fp_less = (<), fp_log = (\<lambda>x. x), fp_exp = (\<lambda>x. x), fp_floor = (\<lambda>x. x),
     fmt_1f = fmt_d, fmt_3_1f = fmt_d\<rparr>"

lemma int_fp_interpolates:
  assumes "is_i32 maximum" "0 < maximum"
  shows "interpolates int_fp maximum"
  unfolding interpolates_def
proof (intro allI impI)
  fix current :: int and steps :: nat
  assume c: "0 < current \<and> current < INT_MAX \<and> 0 < steps"
  let ?d = "(maximum - current) div int steps"
  have "?d \<le> max 0 (maximum - current)" "- current \<le> ?d"
  proof -
    show "?d \<le> max 0 (maximum - current)"
      using c zdiv_mono2 [of "maximum - current" 1 "int steps"]
        div_nonpos_pos_le0 [of "maximum - current" "int steps"]
      by (cases "0 \<le> maximum - current") (simp_all add: le_max_iff_disj)
    have "- current * int steps \<le> maximum - current"
      using c assms(2) mult_left_mono [of 1 "int steps" current] by linarith
    from zdiv_mono1 [OF this, of "int steps"] show "- current \<le> ?d"
      using c nonzero_mult_div_cancel_right [of "int steps" "- current"] by simp
  qed
  then have "0 \<le> current + ?d" "current + ?d \<le> max current maximum" by (auto simp: max_def split: if_splits)
  then show "next_range int_fp (fp_log int_fp (fp_of_int int_fp maximum)) current steps \<le> max current maximum"
    using c assms by (simp add: next_range_def int_fp_def is_i32_def) (subst i32_id, auto simp: max_def split: if_splits)
qed


text \<open>
  A declared minimum below 1 aborts the construction in \<open>BucketRanges::set_range\<close>, whatever the
  other arguments: \<open>FactoryGet\<close> does not clamp it.
\<close>
theorem Histogram_bad_minimum_aborts:
  assumes "minimum < 1" "1 \<le> n" "n + 1 < 2 ^ 64"
  shows "Histogram_new fp name minimum maximum n = Inl Check_Failed"
  using assms by (simp add: Histogram_new_def InitializeBucketRanges_def BucketRanges_set_range_def BucketRanges_new_def)

lemma Inspect_limits:
  "InspectConstructionArguments a b k =
     (let mn = max 1 a; mx = min (INT_MAX - 1) b; bc = min 16383 k
      in (mn < mx \<and> 3 \<le> bc \<and> int bc \<le> mx - mn + 2, mn, mx, bc))"
proof -
  have c: "(if a < 1 then 1 else a) = max 1 a" "(if INT_MAX \<le> b then INT_MAX - 1 else b) = min (INT_MAX - 1) b"
    "(if 16384 \<le> k then 16384 - 1 else k) = min 16383 k" by (simp_all add: max_def min_def)
  have w: "nat (i32 (i32 (mx - mn) + 2) mod 2 ^ 64) = nat (mx - mn + 2)" if "1 \<le> mn" "mn < mx" "mx < INT_MAX" for mn mx
    using that by (simp add: i32_id)
  have ok: "(if mx \<le> mn then False else if bc < 3 then False
      else if nat (i32 (i32 (mx - mn) + 2) mod 2 ^ 64) < bc then False else True) =
      (mn < mx \<and> 3 \<le> bc \<and> int bc \<le> mx - mn + 2)" if "1 \<le> mn" "mx < INT_MAX" for mn mx bc
    using w [OF that(1) _ that(2)] by (auto simp: not_le not_less)
  show ?thesis
    unfolding InspectConstructionArguments_def kSampleTypeMax_def kBucketCountMax_def c Let_def
    by (subst ok) (simp_all add: min_less_iff_disj)
qed

text \<open>
  Arguments that \<open>InspectConstructionArguments\<close> accepts, after its clamping, satisfy the documented
  restrictions (a positive minimum below the maximum, both inside the sample type, more than two
  and fewer than \<open>kBucketCountMax\<close> buckets, and no more buckets than values), it leaves
  arguments inside the limits alone, and a second inspection changes nothing.
\<close>
theorem InspectConstructionArguments_sound:
  assumes "InspectConstructionArguments minimum maximum n = (ok, mn, mx, bc)"
  shows "(ok \<longleftrightarrow> 1 \<le> mn \<and> mn < mx \<and> mx < kSampleTypeMax \<and> 3 \<le> bc \<and> bc < kBucketCountMax \<and> int bc \<le> mx - mn + 2) \<and>
     (1 \<le> minimum \<and> maximum < kSampleTypeMax \<and> n < kBucketCountMax \<longrightarrow> mn = minimum \<and> mx = maximum \<and> bc = n) \<and>
     InspectConstructionArguments mn mx bc = (ok, mn, mx, bc)"
proof -
  have v: "mn = max 1 minimum" "mx = min (INT_MAX - 1) maximum" "bc = min 16383 n"
    "ok = (mn < mx \<and> 3 \<le> bc \<and> int bc \<le> mx - mn + 2)"
    using assms unfolding Inspect_limits Let_def prod.inject by auto
  then have "1 \<le> mn" "mx < INT_MAX" "bc < 16384" by linarith+
  moreover have "InspectConstructionArguments mn mx bc = (ok, mn, mx, bc)"
    unfolding Inspect_limits Let_def v(4) using calculation by (simp add: max_absorb2 min_absorb2)
  moreover have "1 \<le> minimum \<and> maximum < INT_MAX \<and> n < 16384 \<longrightarrow> mn = minimum \<and> mx = maximum \<and> bc = n"
    unfolding v(1-3) by linarith
  ultimately show ?thesis unfolding kSampleTypeMax_def kBucketCountMax_def v(4) by blast
qed

subsection \<open>Recording never fails\<close>

definition clamp_sample :: "int \<Rightarrow> int" where
  "clamp_sample val = max 0 (min (INT_MAX - 1) val)"

lemma wf_histogram_ranges:
  assumes "wf_histogram h"
  shows "wf_ranges (h_ranges h)" "Histogram_ranges h 0 = Inr 0"
    "Histogram_ranges h (Histogram_bucket_count h) = Inr kSampleTypeMax"
    "Histogram_bucket_count h = length (sv_counts (h_samples h))"
    "length (br_ranges (h_ranges h)) = Suc (length (sv_counts (h_samples h)))" "sv_counts (h_samples h) \<noteq> []"
proof -
  show wf: "wf_ranges (h_ranges h)" using assms by (auto simp: wf_histogram_def wf_samples_def)
  then have ne: "br_ranges (h_ranges h) \<noteq> []" by (auto simp: wf_ranges_def)
  show "Histogram_ranges h 0 = Inr 0"
    using assms ne by (simp add: wf_histogram_def Histogram_ranges_def BucketRanges_range_def hd_conv_nth)
  have "BucketRanges_bucket_count (h_ranges h) = length (br_ranges (h_ranges h)) - 1"
    using bucket_count_wf [OF wf] by simp
  then show "Histogram_ranges h (Histogram_bucket_count h) = Inr kSampleTypeMax"
    using assms ne by (simp add: wf_histogram_def Histogram_ranges_def BucketRanges_range_def last_conv_nth
        Histogram_bucket_count_def)
  show "Histogram_bucket_count h = length (sv_counts (h_samples h))"
    "length (br_ranges (h_ranges h)) = Suc (length (sv_counts (h_samples h)))" "sv_counts (h_samples h) \<noteq> []"
    using assms bucket_count_samples [of "h_samples h"]
    by (auto simp: wf_histogram_def Histogram_bucket_count_def wf_samples_def)
qed

lemma Histogram_Add_eq:
  assumes "wf_histogram h"
  shows "Histogram_Add h val = bindR (SampleVector_Accumulate (h_samples h) (clamp_sample val) 1) (\<lambda>sv. Inr (h\<lparr>h_samples := sv\<rparr>))"
proof -
  have "(if (if INT_MAX \<le> val then INT_MAX - 1 else val) < 0 then 0 else (if INT_MAX \<le> val then INT_MAX - 1 else val))
      = clamp_sample val" by (simp add: clamp_sample_def max_def min_def)
  then show ?thesis
    using wf_histogram_ranges [OF assms] unfolding Histogram_Add_def Let_def kSampleTypeMax_def by simp
qed

text \<open>
  C20: adding a sample to a histogram never fails, for any \<open>int\<close>: a negative value counts in the
  first bucket and \<open>INT_MAX\<close> in the last, and otherwise the bucket that holds the value; exactly that
  bucket's count grows by one, the sum by the clamped value, and the histogram stays well formed.
\<close>
theorem Histogram_Add_total:
  assumes "wf_histogram h"
  shows "\<exists>i. in_bucket (h_ranges h) (clamp_sample val) i \<and>
     (let sv = h_samples h;
          h' = h\<lparr>h_samples := sv\<lparr>sv_sum := i64 (sv_sum sv + clamp_sample val),
                    sv_counts := (sv_counts sv)[i := i32 (sv_counts sv ! i + 1)]\<rparr>\<rparr>
      in Histogram_Add h val = Inr h' \<and> wf_histogram h')"
proof -
  let ?v = "clamp_sample val" let ?sv = "h_samples h"
  have sv: "wf_samples ?sv" "sv_ranges ?sv = h_ranges h" using assms by (auto simp: wf_histogram_def)
  have "hd (br_ranges (h_ranges h)) \<le> ?v" "?v < last (br_ranges (h_ranges h))"
    using assms by (auto simp: wf_histogram_def clamp_sample_def kSampleTypeMax_def)
  then obtain i where i: "in_bucket (h_ranges h) ?v i"
    using GetBucketIndex_finds [of ?sv ?v] sv by (auto simp: wf_samples_def)
  have acc: "SampleVector_Accumulate ?sv ?v 1 = Inr (?sv\<lparr>sv_sum := i64 (sv_sum ?sv + ?v),
                    sv_counts := (sv_counts ?sv)[i := i32 (sv_counts ?sv ! i + 1)]\<rparr>)"
    using Accumulate_step [OF sv(1), of ?v i 1] i sv(2) by (simp add: i32_id clamp_sample_def)
  from Accumulate_wf [OF sv(1) acc] show ?thesis
    using i assms by (intro exI [of _ i]) (simp add: Histogram_Add_eq acc wf_histogram_def Let_def)
qed

definition demo_histogram :: histogram where
  "demo_histogram = \<lparr>histogram_name = ''load'', h_ranges = \<lparr>br_ranges = [0, 1, 3, 7, INT_MAX]\<rparr>,
     declared_min = 1, declared_max = 7, h_samples = demo_samples 9 [0, 2, 0, 1]\<rparr>"

lemma demo_histogram_wf: "wf_histogram demo_histogram"
  using demo_samples_wf [of "[0, 2, 0, 1]" 9]
  by (simp add: wf_histogram_def demo_histogram_def demo_samples_def is_i32_def is_i64_def kSampleTypeMax_def)

lemma Histogram_Add_total_witness:
  "Histogram_Add demo_histogram (-5) = Inr (demo_histogram\<lparr>h_samples := demo_samples 9 [1, 2, 0, 1]\<rparr>)"
proof -
  obtain i where "in_bucket (h_ranges demo_histogram) 0 i" and eq: "Histogram_Add demo_histogram (-5) =
      Inr (demo_histogram\<lparr>h_samples := (h_samples demo_histogram)\<lparr>sv_sum := i64 9,
        sv_counts := ([0, 2, 0, 1])[i := i32 ([0, 2, 0, 1] ! i + 1)]\<rparr>\<rparr>)"
    using Histogram_Add_total [OF demo_histogram_wf, of "-5"]
    by (auto simp: clamp_sample_def demo_histogram_def demo_samples_def Let_def)
  then have "i = 0"
    using in_bucket_unique [of "h_ranges demo_histogram" 0 i 0]
    by (simp add: demo_histogram_def in_bucket_def)
  with eq show ?thesis by (simp add: demo_histogram_def demo_samples_def i32_id i64_id)
qed

subsection \<open>Snapshots\<close>

lemma snapshot_copies:
  assumes "wf_histogram h"
  shows "SnapshotSampleVector h = Inr (h_samples h)"
proof -
  have wf: "wf_samples (h_samples h)" "sv_ranges (h_samples h) = h_ranges h" "length (br_ranges (h_ranges h)) \<le> 2 ^ 63"
    using assms by (auto simp: wf_histogram_def)
  obtain z where z: "SampleVector_new (h_ranges h) = Inr z" "wf_samples z" "sv_ranges z = h_ranges h"
      "sv_sum z = 0" "set (sv_counts z) = {0}"
    using wf_samples_new [OF wf_histogram_ranges(1) [OF assms] wf(3)] by blast
  have "count_at z = (\<lambda>i. 0)" using z(5) nth_mem [of _ "sv_counts z"] by (force simp: count_at_def)
  then have "HistogramSamples_Add z (h_samples h) = Inr (h_samples h)"
    using sv_store.add_to_zero [OF z(2) wf(1)] z wf by simp
  then show ?thesis by (simp add: SnapshotSampleVector_def z(1))
qed

text \<open>
  A snapshot is a fresh vector with exactly the counts and the sum of the histogram's own samples;
  building it through \<open>Add\<close> loses and invents nothing.
\<close>
theorem Snapshot_is_copy:
  assumes "wf_histogram h"
  shows "SnapshotSampleVector h = Inr (h_samples h)"
  by (rule snapshot_copies [OF assms])

lemma Histogram_Add_ok:
  assumes "wf_histogram h"
  shows "\<exists>h'. Histogram_Add h val = Inr h' \<and> histogram_name h' = histogram_name h \<and> wf_histogram h'"
proof -
  have sv: "wf_samples (h_samples h)" "sv_ranges (h_samples h) = h_ranges h" using assms by (auto simp: wf_histogram_def)
  have "hd (br_ranges (h_ranges h)) \<le> clamp_sample val" "clamp_sample val < last (br_ranges (h_ranges h))"
    using assms by (auto simp: wf_histogram_def clamp_sample_def kSampleTypeMax_def)
  then obtain i where i: "in_bucket (h_ranges h) (clamp_sample val) i"
    using GetBucketIndex_finds [of "h_samples h" "clamp_sample val"] sv by (auto simp: wf_samples_def)
  from Accumulate_step [OF sv(1), of "clamp_sample val" i 1] i sv(2)
  obtain sv' where acc: "SampleVector_Accumulate (h_samples h) (clamp_sample val) 1 = Inr sv'" "sv_ranges sv' = sv_ranges (h_samples h)"
    by auto
  from Accumulate_wf [OF sv(1) acc(1)] show ?thesis
    using assms acc by (simp add: Histogram_Add_eq wf_histogram_def)
qed

end
