(* ===== verification/Reports.thy ===== *)
theory Reports
  imports Histograms
begin

text \<open>
  The text report of a histogram (\<open>Histogram::WriteAscii\<close>, \<open>WriteHTMLGraph\<close>): every index it reads
  exists, every loop ends and the closing \<open>DCHECK_EQ(sample_count, past)\<close> holds, for any floating-point
  unit. Then the JSON report, \<open>WriteJSON\<close>, as the calls it makes on the document it builds (the text writer is the
  rapidjson package's).
\<close>

subsection \<open>Reading a histogram's buckets\<close>

text \<open>
  The counts a histogram collects when its 32-bit totals have not overflowed: none is negative, their
  sum is an \<open>int\<close>, and without samples the sum is zero.
\<close>

definition countable_samples :: "sample_vector \<Rightarrow> bool" where
  "countable_samples sv \<longleftrightarrow> (\<forall>c \<in> set (sv_counts sv). 0 \<le> c) \<and> sum_list (sv_counts sv) \<le> INT_MAX \<and>
     (sum_list (sv_counts sv) = 0 \<longrightarrow> sv_sum sv = 0)"

lemma GetCountAtIndex_in:
  "i < length (sv_counts sv) \<Longrightarrow> SampleVector_GetCountAtIndex sv i = Inr (sv_counts sv ! i)"
  by (simp add: SampleVector_GetCountAtIndex_def)

lemma GetBucketSize_in:
  assumes "wf_histogram h" "i < length (sv_counts (h_samples h))"
  shows "\<exists>d. GetBucketSize fp h c i = Inr d"
proof -
  note r = wf_histogram_ranges [OF assms(1)]
  then have "br_ranges (h_ranges h) ! i < br_ranges (h_ranges h) ! Suc i"
    using strict_sorted_nth_less [of "br_ranges (h_ranges h)" i "Suc i"] assms(2) by (simp add: wf_ranges_def)
  then show ?thesis
    using r assms(2) by (simp add: GetBucketSize_def Histogram_ranges_def BucketRanges_range_def Let_def)
qed

lemma GetAsciiBucketRange_in:
  assumes "wf_histogram h" "i < length (sv_counts (h_samples h))"
  shows "\<exists>r. GetAsciiBucketRange h i = Inr r"
  using wf_histogram_ranges [OF assms(1)] assms(2)
  by (simp add: GetAsciiBucketRange_def Histogram_ranges_def BucketRanges_range_def)

lemma GetPeakBucketSize_loop_in:
  assumes "wf_histogram h" "\<forall>i \<in> set is. i < length (sv_counts (h_samples h))"
  shows "\<exists>d. GetPeakBucketSize_loop fp h (h_samples h) mx is = Inr d"
  using assms(2)
proof (induction "is" arbitrary: mx)
  case (Cons i "is")
  obtain d where "GetBucketSize fp h (sv_counts (h_samples h) ! i) i = Inr d"
    using GetBucketSize_in [OF assms(1), of i fp] Cons.prems by auto
  with Cons show ?case by (simp add: GetCountAtIndex_in del: bindR_Inr_iff)
qed simp

lemma PrintWidth_loop_in:
  assumes "wf_histogram h" "\<forall>i \<in> set is. i < length (sv_counts (h_samples h))"
  shows "\<exists>w. PrintWidth_loop h (h_samples h) pw is = Inr w"
  using assms(2)
proof (induction "is" arbitrary: pw)
  case (Cons i "is")
  obtain r where "GetAsciiBucketRange h i = Inr r"
    using GetAsciiBucketRange_in [OF assms(1)] Cons.prems by (auto simp del: bindR_Inr_iff)
  with Cons show ?case by (simp add: GetCountAtIndex_in Let_def del: bindR_Inr_iff)
qed simp

lemma LargestNonEmpty_loop_in: "i < length (sv_counts sv) \<Longrightarrow> \<exists>j. LargestNonEmpty_loop sv i = Inr j"
  by (induction i) (auto simp: GetCountAtIndex_in)

lemma SkipEmptyRun_loop_spec:
  assumes "i < length (sv_counts sv)"
  shows "\<exists>j. SkipEmptyRun_loop sv (length (sv_counts sv)) i = Inr j \<and> i \<le> j \<and> j < length (sv_counts sv) \<and>
           (\<forall>k. i < k \<and> k \<le> j \<longrightarrow> sv_counts sv ! k = 0)"
  using assms
proof (induction "length (sv_counts sv) - i" arbitrary: i rule: less_induct)
  case less
  let ?n = "length (sv_counts sv)"
  show ?case
  proof (cases "Suc i < ?n \<and> sv_counts sv ! Suc i = 0")
    case True
    then have "i < size_sub ?n 1" by (cases ?n) auto
    with True have "SkipEmptyRun_loop sv ?n i = SkipEmptyRun_loop sv ?n (Suc i)"
      by (subst SkipEmptyRun_loop.simps) (simp add: GetCountAtIndex_in)
    moreover obtain j where "SkipEmptyRun_loop sv ?n (Suc i) = Inr j" "Suc i \<le> j" "j < ?n"
        "\<forall>k. Suc i < k \<and> k \<le> j \<longrightarrow> sv_counts sv ! k = 0"
      using less.hyps [of "Suc i", OF diff_less_mono2] True by auto
    moreover from this True have "\<forall>k. i < k \<and> k \<le> j \<longrightarrow> sv_counts sv ! k = 0"
      by (metis Suc_lessI)
    ultimately show ?thesis by (intro exI [of _ j]) auto
  next
    case False
    then have "SkipEmptyRun_loop sv ?n i = Inr i"
      using less.prems by (subst SkipEmptyRun_loop.simps) (auto simp: GetCountAtIndex_in)
    then show ?thesis using less.prems by auto
  qed
qed

lemma next_is_empty_in:
  "i < length (sv_counts sv) \<Longrightarrow>
   next_is_empty sv (length (sv_counts sv)) c i =
     Inr (c = 0 \<and> Suc i < length (sv_counts sv) \<and> sv_counts sv ! Suc i = 0)"
  by (auto simp: next_is_empty_def GetCountAtIndex_in)

lemma sum_drop_zeros:
  fixes xs :: "int list"
  assumes "i \<le> j" "j < length xs" "\<forall>k. i \<le> k \<and> k \<le> j \<longrightarrow> xs ! k = 0"
  shows "sum_list (drop i xs) = sum_list (drop (Suc j) xs)"
  using assms
proof (induction j)
  case (Suc j)
  then show ?case by (cases "i \<le> j") (auto simp: Cons_nth_drop_Suc [symmetric] le_Suc_eq)
next
  case 0
  then show ?case by (cases xs) simp_all
qed

lemma sum_drop_nonneg: "\<forall>c \<in> set xs. (0 :: int) \<le> c \<Longrightarrow> 0 \<le> sum_list (drop i xs)"
  by (intro sum_list_nonneg) (auto dest: in_set_dropD)

subsection \<open>The rows\<close>

lemma WriteAscii_rows_total:
  assumes wf: "wf_histogram h" and nn: "\<forall>c \<in> set (sv_counts (h_samples h)). 0 \<le> c"
    and "0 \<le> past" "past + sum_list (drop i (sv_counts (h_samples h))) \<le> INT_MAX"
  shows "\<exists>out'. WriteAscii_rows fp h (h_samples h) rp i remaining past out =
           Inr (past + sum_list (drop i (sv_counts (h_samples h))), out')"
  using assms(3,4)
proof (induction "length (sv_counts (h_samples h)) - i" arbitrary: i past remaining out rule: less_induct)
  case less
  let ?cs = "sv_counts (h_samples h)" let ?n = "length ?cs"
  have n: "Histogram_bucket_count h = ?n" using wf_histogram_ranges [OF wf] by simp
  show ?case
  proof (cases "i < ?n")
    case False
    then show ?thesis by (subst WriteAscii_rows.simps) (simp add: n)
  next
    case i: True
    obtain r where r: "GetAsciiBucketRange h i = Inr r" using GetAsciiBucketRange_in [OF wf i] by blast
    obtain d where d: "GetBucketSize fp h (?cs ! i) i = Inr d" using GetBucketSize_in [OF wf i, of fp] by blast
    obtain j where j: "SkipEmptyRun_loop (h_samples h) ?n i = Inr j" "i \<le> j" "j < ?n"
        "\<forall>k. i < k \<and> k \<le> j \<longrightarrow> ?cs ! k = 0" using SkipEmptyRun_loop_spec [OF i] by blast
    note run = i n r d j(1) GetCountAtIndex_in next_is_empty_in
    show ?thesis
    proof (cases "?cs ! i = 0 \<and> Suc i < ?n \<and> ?cs ! Suc i = 0")
      case True
      then have z: "sum_list (drop i ?cs) = sum_list (drop (Suc j) ?cs)"
        using j by (intro sum_drop_zeros) (auto simp: le_eq_less_or_eq)
      have "\<exists>r' o'. WriteAscii_rows fp h (h_samples h) rp i remaining past out =
          WriteAscii_rows fp h (h_samples h) rp (Suc j) r' past o'"
        using True by (subst WriteAscii_rows.simps) (simp add: run Let_def, blast)
      then obtain r' o' where "WriteAscii_rows fp h (h_samples h) rp i remaining past out =
          WriteAscii_rows fp h (h_samples h) rp (Suc j) r' past o'" by blast
      moreover have "length ?cs - Suc j < length ?cs - i" using j i by simp
      ultimately show ?thesis using less.hyps [of "Suc j" past] less.prems by (simp add: z)
    next
      case False
      have s: "sum_list (drop i ?cs) = ?cs ! i + sum_list (drop (Suc i) ?cs)"
        using i by (simp add: Cons_nth_drop_Suc [symmetric])
      have "0 \<le> ?cs ! i" using nn i by simp
      moreover have "i64 (past + ?cs ! i) = past + ?cs ! i"
        using less.prems s calculation sum_drop_nonneg [OF nn, of "Suc i"] by (intro i64_id) linarith+
      moreover have "\<exists>r' o'. WriteAscii_rows fp h (h_samples h) rp i remaining past out =
          WriteAscii_rows fp h (h_samples h) rp (Suc i) r' (past + ?cs ! i) o'"
        using calculation by (subst WriteAscii_rows.simps) (simp add: run Let_def if_not_P [OF False], blast)
      then obtain r' o' where "WriteAscii_rows fp h (h_samples h) rp i remaining past out =
          WriteAscii_rows fp h (h_samples h) rp (Suc i) r' (past + ?cs ! i) o'" by blast
      ultimately show ?thesis
        using less.hyps [of "Suc i" "past + ?cs ! i", OF diff_less_mono2] less.prems i
        by (simp add: s add.assoc)
    qed
  qed
qed



subsection \<open>The JSON report\<close>

text \<open>
  Values of rapidjson as \<open>WriteJSON\<close> builds them: a value starts as null, and \<open>AddMember\<close> asserts that it is an object. The text
  is made by the argument \<open>write\<close>.
\<close>

datatype report_json = RJ_Null | RJ_Int int | RJ_String string | RJ_Array "report_json list" | RJ_Object "(string \<times> report_json) list"

fun RJ_AddMember :: "report_json \<Rightarrow> string \<Rightarrow> report_json \<Rightarrow> report_json result" where
  "RJ_AddMember (RJ_Object ms) name v = Inr (RJ_Object (ms @ [(name, v)]))"
| "RJ_AddMember _ name v = Inl Check_Failed"

fun WriteJSON_buckets :: "histogram \<Rightarrow> sample_vector \<Rightarrow> nat list \<Rightarrow> report_json list result" where
  "WriteJSON_buckets h snapshot [] = Inr []"
| "WriteJSON_buckets h snapshot (i # is) =
     bindR (SampleVector_GetCountAtIndex snapshot i) (\<lambda>count.
       if 0 < count
       then bindR (Histogram_ranges h i) (\<lambda>low.
            bindR (RJ_AddMember RJ_Null ''low'' (RJ_Int low)) (\<lambda>bucket_value.
            bindR (if i \<noteq> Histogram_bucket_count h - 1
                   then bindR (Histogram_ranges h (i + 1)) (\<lambda>high.
                        bindR (RJ_AddMember bucket_value ''high'' (RJ_Int high)) (\<lambda>b. RJ_AddMember b ''count'' (RJ_Int count)))
                   else Inr bucket_value) (\<lambda>bucket_value.
            bindR (WriteJSON_buckets h snapshot is) (\<lambda>bs. Inr (bucket_value # bs)))))
       else WriteJSON_buckets h snapshot is)"

definition Histogram_WriteJSON :: "(report_json \<Rightarrow> string) \<Rightarrow> histogram \<Rightarrow> string result" where
  "Histogram_WriteJSON write h =
     bindR (SnapshotSampleVector h) (\<lambda>snapshot.
     bindR (WriteJSON_buckets h snapshot [0..<Histogram_bucket_count h]) (\<lambda>buckets.
       Inr (write (RJ_Object [(''name'', RJ_String (histogram_name h)), (''count'', RJ_Int (SampleVector_TotalCount snapshot)),
         (''sum'', RJ_Int (sv_sum snapshot)), (''type'', RJ_String ''Histogram''), (''min'', RJ_Int (declared_min h)),
         (''max'', RJ_Int (declared_max h)), (''bucket_count'', RJ_Int (int (Histogram_bucket_count h))), (''buckets'', RJ_Array buckets)]))))"

text \<open>The report of a histogram with a sample in it fails: the value of its first bucket is no object.\<close>

lemma WriteJSON_buckets_fails:
  assumes "wf_histogram h" "\<forall>i \<in> set is. i < length (sv_counts (h_samples h))"
  shows "WriteJSON_buckets h (h_samples h) is =
     (if \<exists>i \<in> set is. 0 < sv_counts (h_samples h) ! i then Inl Check_Failed else Inr [])"
  using assms(2)
proof (induction "is")
  case (Cons i "is")
  have "\<exists>r. Histogram_ranges h i = Inr r"
    using wf_histogram_ranges [OF assms(1)] Cons.prems by (simp add: Histogram_ranges_def BucketRanges_range_def)
  with Cons show ?case by (auto simp: GetCountAtIndex_in)
qed simp

lemma WriteJSON_fails:
  assumes "wf_histogram h" "\<exists>c \<in> set (sv_counts (h_samples h)). 0 < c"
  shows "Histogram_WriteJSON write h = Inl Check_Failed"
proof -
  have "Histogram_bucket_count h = length (sv_counts (h_samples h))" using wf_histogram_ranges [OF assms(1)] by simp
  moreover have "\<exists>i \<in> set [0..<length (sv_counts (h_samples h))]. 0 < sv_counts (h_samples h) ! i"
    using assms(2) by (auto simp: in_set_conv_nth Bex_def)
  ultimately show ?thesis
    using WriteJSON_buckets_fails [OF assms(1), of "[0..<length (sv_counts (h_samples h))]"] snapshot_copies [OF assms(1)]
    by (simp add: Histogram_WriteJSON_def)
qed

end
