(* ===== verification/Registry.thy ===== *)
theory Registry
  imports Histograms "HOL-Library.Char_ord" "HOL-Library.List_Lexorder" "HOL-Library.Product_Lexorder"
begin

text \<open>
  Registries of heap objects: \<open>std::map\<close> from a key to a pointer, the interface both
  \<open>HistogramRecorder\<close> and \<open>TraceRecorder\<close> offer, and \<^verbatim>\<open>metrics/HistogramRecorder.h,.cc\<close> with
  \<open>Histogram::FactoryGet\<close> and the recording macro of \<^verbatim>\<open>metrics/Histogram.h\<close>.

  The heap is a partial map from addresses to objects: \<open>new\<close> takes the next unused address and
  \<open>delete\<close> removes an object, so a use after \<open>delete\<close> is the failure \<open>Dangling_Pointer\<close>. The
  recorder's operations hold its mutex, so each is one step; \<open>FactoryGet\<close> takes the mutex twice and
  is also given as a transition system in which any number of threads interleave.
\<close>

subsection \<open>Ordered maps\<close>

fun omap_insert :: "'k :: linorder \<Rightarrow> 'v \<Rightarrow> ('k \<times> 'v) list \<Rightarrow> ('k \<times> 'v) list" where
  "omap_insert k v [] = [(k, v)]"
| "omap_insert k v ((k', v') # xs) =
     (if k < k' then (k, v) # (k', v') # xs
      else if k = k' then (k, v) # xs else (k', v') # omap_insert k v xs)"

definition omap_erase :: "'k \<Rightarrow> ('k \<times> 'v) list \<Rightarrow> ('k \<times> 'v) list" where
  "omap_erase k xs = filter (\<lambda>(k', v). k' \<noteq> k) xs"

definition omap :: "('k :: linorder \<times> 'v) list \<Rightarrow> bool" where
  "omap xs \<longleftrightarrow> sorted_wrt (<) (map fst xs)"

lemma map_of_omap_insert: "omap xs \<Longrightarrow> map_of (omap_insert k v xs) = (map_of xs)(k \<mapsto> v)"
proof (induction k v xs rule: omap_insert.induct)
  case (2 k v k' v' xs)
  have "map_of xs k' = None" if "k < k'" "k' \<notin> fst ` set xs" using that by (simp add: map_of_eq_None_iff)
  with 2 show ?case by (auto simp: omap_def)
qed simp

lemma omap_insert_keys: "fst ` set (omap_insert k v xs) = insert k (fst ` set xs)"
  by (induction k v xs rule: omap_insert.induct) auto

lemma omap_omap_insert [intro]: "omap xs \<Longrightarrow> omap (omap_insert k v xs)"
  by (induction k v xs rule: omap_insert.induct) (auto simp: omap_def omap_insert_keys)

lemma map_of_omap_erase [simp]: "map_of (omap_erase k xs) = (map_of xs)(k := None)"
  by (induction xs) (auto simp: omap_erase_def)

lemma omap_omap_erase [intro]: "omap xs \<Longrightarrow> omap (omap_erase k xs)"
  by (induction xs) (auto simp: omap_def omap_erase_def)

subsection \<open>The interface\<close>

text \<open>
  A registry maps keys to live objects that carry the key. Registering a live object returns the
  registered object of its key: the argument when the key is free, and otherwise the object that was there,
  the argument being deleted.
\<close>

locale registry =
  fixes inv :: "'s \<Rightarrow> bool"
    and live :: "'s \<Rightarrow> nat \<Rightarrow> 'o option"
    and lookup :: "'s \<Rightarrow> 'k \<Rightarrow> nat option"
    and key :: "'o \<Rightarrow> 'k"
    and register :: "'s \<Rightarrow> nat \<Rightarrow> (nat \<times> 's) result"
  assumes registered_live: "inv s \<Longrightarrow> lookup s k = Some p \<Longrightarrow> \<exists>ob. live s p = Some ob \<and> key ob = k"
    and register_free: "inv s \<Longrightarrow> live s p = Some ob \<Longrightarrow> lookup s (key ob) = None \<Longrightarrow>
      \<exists>s'. register s p = Inr (p, s') \<and> inv s' \<and> live s' = live s \<and> lookup s' = (lookup s)(key ob \<mapsto> p)"
    and register_taken: "inv s \<Longrightarrow> live s p = Some ob \<Longrightarrow> lookup s (key ob) = Some q \<Longrightarrow>
      \<exists>s'. register s p = Inr (q, s') \<and> inv s' \<and> lookup s' = lookup s \<and>
           live s' = (if p = q then live s else (live s)(p := None))"
    and register_dangling: "live s p = None \<Longrightarrow> register s p = Inl Dangling_Pointer"
begin

lemma register_returns:
  assumes "inv s" "live s p = Some ob" "register s p = Inr (q, s')"
  shows "inv s'" "lookup s' = (lookup s)(key ob \<mapsto> q)" "live s' q \<noteq> None"
    "lookup s (key ob) = Some q \<or> lookup s (key ob) = None \<and> q = p"
    "\<And>p'. p' \<noteq> p \<Longrightarrow> live s' p' = live s p'"
proof -
  consider (free) "lookup s (key ob) = None" | (taken) r where "lookup s (key ob) = Some r" by blast
  then have *: "inv s' \<and> lookup s' = (lookup s)(key ob \<mapsto> q) \<and>
      (lookup s (key ob) = Some q \<or> lookup s (key ob) = None \<and> q = p) \<and> (\<forall>p'. p' \<noteq> p \<longrightarrow> live s' p' = live s p')"
  proof cases
    case free
    then show ?thesis using register_free [OF assms(1,2)] assms(3) by auto
  next
    case (taken r)
    then show ?thesis using register_taken [OF assms(1,2) taken] assms(3) by (auto split: if_splits)
  qed
  then show "inv s'" "lookup s' = (lookup s)(key ob \<mapsto> q)" 
    "lookup s (key ob) = Some q \<or> lookup s (key ob) = None \<and> q = p"
    "\<And>p'. p' \<noteq> p \<Longrightarrow> live s' p' = live s p'" by auto
  then show "live s' q \<noteq> None" using registered_live [of s' "key ob" q] by auto
qed

lemma register_keeps:
  assumes "inv s" "live s p = Some ob" "register s p = Inr (q, s')" "lookup s k = Some r"
  shows "lookup s' k = Some r"
  using register_returns(2,4) [OF assms(1-3)] assms(4) by auto

lemma register_total:
  assumes "inv s" "live s p = Some ob"
  shows "\<exists>q s'. register s p = Inr (q, s')"
  using register_free [OF assms] register_taken [OF assms] by (cases "lookup s (key ob)") blast+

lemma register_again:
  assumes "inv s" "live s p = Some ob" "register s p = Inr (q, s')"
  shows "\<exists>s''. register s' q = Inr (q, s'') \<and> lookup s'' = lookup s' \<and> live s'' = live s'"
proof -
  note r = register_returns [OF assms]
  obtain ob' where ob': "live s' q = Some ob'" "key ob' = key ob"
    using registered_live [OF r(1), of "key ob" q] r(2) by auto
  then show ?thesis using register_taken [OF r(1) ob'(1)] r(2) by auto
qed

end

subsection \<open>HistogramRecorder\<close>

record histogram_recorder =
  hr_heap :: "nat \<rightharpoonup> histogram"
  hr_fresh :: nat
  hr_histograms :: "(string \<times> nat) list"

definition HistogramRecorder_new :: histogram_recorder where
  "HistogramRecorder_new = \<lparr>hr_heap = Map.empty, hr_fresh = 0, hr_histograms = []\<rparr>"

definition hr_alloc :: "histogram_recorder \<Rightarrow> histogram \<Rightarrow> nat \<times> histogram_recorder" where
  "hr_alloc r h = (hr_fresh r, r\<lparr>hr_heap := (hr_heap r)(hr_fresh r \<mapsto> h), hr_fresh := hr_fresh r + 1\<rparr>)"

definition FindHistogram :: "histogram_recorder \<Rightarrow> string \<Rightarrow> nat option" where
  "FindHistogram r name = map_of (hr_histograms r) name"

definition HistogramRecorder_RegisterOrDeleteDuplicate ::
  "histogram_recorder \<Rightarrow> nat \<Rightarrow> (nat \<times> histogram_recorder) result" where
  "HistogramRecorder_RegisterOrDeleteDuplicate r histogram =
     (case hr_heap r histogram of None \<Rightarrow> Inl Dangling_Pointer
      | Some h \<Rightarrow>
          let name = histogram_name h
          in case map_of (hr_histograms r) name of
               None \<Rightarrow> Inr (histogram, r\<lparr>hr_histograms := omap_insert name histogram (hr_histograms r)\<rparr>)
             | Some second \<Rightarrow>
                 if histogram = second then Inr (histogram, r)
                 else Inr (second, r\<lparr>hr_heap := (hr_heap r)(histogram := None)\<rparr>))"

definition Histogram_FactoryGet ::
  "'d fp \<Rightarrow> histogram_recorder \<Rightarrow> string \<Rightarrow> int \<Rightarrow> int \<Rightarrow> nat \<Rightarrow> (nat \<times> histogram_recorder) result" where
  "Histogram_FactoryGet fp r name minimum maximum bucket_count =
     (case FindHistogram r name of
        Some histogram \<Rightarrow> Inr (histogram, r)
      | None \<Rightarrow>
          bindR (Histogram_new fp name minimum maximum bucket_count) (\<lambda>h.
            let (tentative_histogram, r') = hr_alloc r h
            in HistogramRecorder_RegisterOrDeleteDuplicate r' tentative_histogram))"

definition name_contains :: "string \<Rightarrow> string \<Rightarrow> bool" where
  "name_contains name query = list_ex (\<lambda>i. take (length query) (drop i name) = query) [0..<length name + 1]"

definition GetSnapshot :: "histogram_recorder \<Rightarrow> string \<Rightarrow> nat list" where
  "GetSnapshot r query = map snd (filter (\<lambda>(name, p). name_contains name query) (hr_histograms r))"

fun WriteGraph_loop ::
  "'d fp \<Rightarrow> histogram_recorder \<Rightarrow> ('d fp \<Rightarrow> histogram \<Rightarrow> string \<Rightarrow> string result) \<Rightarrow> string \<Rightarrow> nat list \<Rightarrow> string \<Rightarrow> string result" where
  "WriteGraph_loop fp r write sep [] out = Inr out"
| "WriteGraph_loop fp r write sep (p # ps) out =
     (case hr_heap r p of None \<Rightarrow> Inl Dangling_Pointer
      | Some h \<Rightarrow> bindR (write fp h out) (\<lambda>out. WriteGraph_loop fp r write sep ps (out @ sep)))"

definition HistogramRecorder_WriteHTMLGraph :: "'d fp \<Rightarrow> histogram_recorder \<Rightarrow> string \<Rightarrow> string \<Rightarrow> string result" where
  "HistogramRecorder_WriteHTMLGraph fp r query out =
     WriteGraph_loop fp r Histogram_WriteHTMLGraph ''<br><hr><br>'' (GetSnapshot r query) out"

definition HistogramRecorder_WriteGraph :: "'d fp \<Rightarrow> histogram_recorder \<Rightarrow> string \<Rightarrow> string \<Rightarrow> string result" where
  "HistogramRecorder_WriteGraph fp r query out =
     (let out = (if length query \<noteq> 0 then out @ ''Collections of histograms for '' @ query @ ''\<newline>''
                 else out @ ''Collections of all histograms\<newline>'')
      in WriteGraph_loop fp r Histogram_WriteAscii ''\<newline>'' (GetSnapshot r query) out)"

text \<open>The macro \<open>STATIC_HISTOGRAM_POINTER_BLOCK\<close>: the cached pointer is a variable of the thread.\<close>

definition STATIC_HISTOGRAM_POINTER_BLOCK ::
  "'d fp \<Rightarrow> histogram_recorder \<Rightarrow> nat option \<Rightarrow> string \<Rightarrow> int \<Rightarrow> int \<Rightarrow> int \<Rightarrow> nat
   \<Rightarrow> (nat option \<times> histogram_recorder) result" where
  "STATIC_HISTOGRAM_POINTER_BLOCK fp r histogram_pointer name sample minimum maximum bucket_count =
     bindR (case histogram_pointer of
              Some p \<Rightarrow> Inr (p, r)
            | None \<Rightarrow> Histogram_FactoryGet fp r name minimum maximum bucket_count) (\<lambda>(p, r).
       case hr_heap r p of None \<Rightarrow> Inl Dangling_Pointer
       | Some h \<Rightarrow> DCHECK (histogram_name h = name)
           (bindR (Histogram_Add h sample) (\<lambda>h'. Inr (Some p, r\<lparr>hr_heap := (hr_heap r)(p \<mapsto> h')\<rparr>))))"

definition wf_recorder :: "histogram_recorder \<Rightarrow> bool" where
  "wf_recorder r \<longleftrightarrow> omap (hr_histograms r) \<and> (\<forall>p \<in> dom (hr_heap r). p < hr_fresh r) \<and>
     (\<forall>name p. map_of (hr_histograms r) name = Some p \<longrightarrow>
        (\<exists>h. hr_heap r p = Some h \<and> histogram_name h = name))"

lemma wf_recorder_new: "wf_recorder HistogramRecorder_new"
  by (simp add: wf_recorder_def HistogramRecorder_new_def omap_def)

lemma wf_recorder_alloc:
  assumes "wf_recorder r" "hr_alloc r h = (p, r')"
  shows "wf_recorder r'" "hr_heap r' = (hr_heap r)(p \<mapsto> h)" "FindHistogram r' = FindHistogram r"
    "hr_heap r p = None" "FindHistogram r name \<noteq> Some p"
proof -
  have eq: "p = hr_fresh r" "r' = r\<lparr>hr_heap := (hr_heap r)(hr_fresh r \<mapsto> h), hr_fresh := hr_fresh r + 1\<rparr>"
    using assms(2) by (auto simp: hr_alloc_def)
  show fresh: "hr_heap r p = None" using assms(1) by (auto simp: wf_recorder_def eq)
  then show "FindHistogram r name \<noteq> Some p" using assms(1) by (fastforce simp: wf_recorder_def FindHistogram_def)
  show "wf_recorder r'"
    using assms(1) fresh by (fastforce simp: wf_recorder_def eq less_Suc_eq)
qed (use assms(2) in \<open>auto simp: hr_alloc_def FindHistogram_def fun_eq_iff\<close>)

interpretation hr: registry wf_recorder hr_heap FindHistogram histogram_name HistogramRecorder_RegisterOrDeleteDuplicate
proof (unfold_locales, goal_cases)
  case (1 s k p)
  then show ?case by (simp add: wf_recorder_def FindHistogram_def)
next
  case (2 s p h)
  then show ?case
    by (auto simp: HistogramRecorder_RegisterOrDeleteDuplicate_def FindHistogram_def wf_recorder_def
        map_of_omap_insert fun_eq_iff)
next
  case (3 s p h q)
  then have "\<exists>h'. hr_heap s q = Some h' \<and> histogram_name h' = histogram_name h"
    by (simp add: wf_recorder_def FindHistogram_def)
  with 3 have "wf_recorder (s\<lparr>hr_heap := (hr_heap s)(p := None)\<rparr>)" if "p \<noteq> q"
    using that by (fastforce simp: wf_recorder_def FindHistogram_def)
  with 3 show ?case by (auto simp: HistogramRecorder_RegisterOrDeleteDuplicate_def FindHistogram_def)
next
  case (4 s p)
  then show ?case by (simp add: HistogramRecorder_RegisterOrDeleteDuplicate_def)
qed

subsection \<open>Racing factory calls\<close>

text \<open>
  Thread \<open>t\<close> calls \<open>FactoryGet\<close> with the arguments \<open>args t\<close>. The look-up, the construction
  and the registration are separate steps, so two threads may both miss and both construct.
\<close>

datatype factory_pc = At_Find | At_New | At_Register nat | Returned nat

record factory_args =
  fa_name :: string
  fa_min :: int
  fa_max :: int
  fa_buckets :: nat

record factory_state =
  fs_recorder :: histogram_recorder
  fs_pc :: "nat \<Rightarrow> factory_pc"

inductive factory_step ::
  "'d fp \<Rightarrow> (nat \<Rightarrow> factory_args) \<Rightarrow> factory_state \<Rightarrow> factory_state \<Rightarrow> bool" for fp args where
  find_hit: "fs_pc s t = At_Find \<Longrightarrow> FindHistogram (fs_recorder s) (fa_name (args t)) = Some p \<Longrightarrow>
     factory_step fp args s (s\<lparr>fs_pc := (fs_pc s)(t := Returned p)\<rparr>)"
| find_miss: "fs_pc s t = At_Find \<Longrightarrow> FindHistogram (fs_recorder s) (fa_name (args t)) = None \<Longrightarrow>
     factory_step fp args s (s\<lparr>fs_pc := (fs_pc s)(t := At_New)\<rparr>)"
| construct: "fs_pc s t = At_New \<Longrightarrow>
     Histogram_new fp (fa_name (args t)) (fa_min (args t)) (fa_max (args t)) (fa_buckets (args t)) = Inr h \<Longrightarrow>
     hr_alloc (fs_recorder s) h = (p, r) \<Longrightarrow>
     factory_step fp args s (s\<lparr>fs_recorder := r, fs_pc := (fs_pc s)(t := At_Register p)\<rparr>)"
| enrol: "fs_pc s t = At_Register p \<Longrightarrow>
     HistogramRecorder_RegisterOrDeleteDuplicate (fs_recorder s) p = Inr (q, r) \<Longrightarrow>
     factory_step fp args s (s\<lparr>fs_recorder := r, fs_pc := (fs_pc s)(t := Returned q)\<rparr>)"

inductive factory_reachable ::
  "'d fp \<Rightarrow> (nat \<Rightarrow> factory_args) \<Rightarrow> factory_state \<Rightarrow> bool" for fp args where
  factory_init: "factory_reachable fp args \<lparr>fs_recorder = HistogramRecorder_new, fs_pc = (\<lambda>t. At_Find)\<rparr>"
| factory_next: "factory_reachable fp args s \<Longrightarrow> factory_step fp args s s' \<Longrightarrow> factory_reachable fp args s'"


definition factory_inv :: "(nat \<Rightarrow> factory_args) \<Rightarrow> factory_state \<Rightarrow> bool" where
  "factory_inv args s \<longleftrightarrow> wf_recorder (fs_recorder s) \<and>
     (\<forall>t p. fs_pc s t = Returned p \<longrightarrow> FindHistogram (fs_recorder s) (fa_name (args t)) = Some p) \<and>
     (\<forall>t p. fs_pc s t = At_Register p \<longrightarrow>
        (\<exists>h. hr_heap (fs_recorder s) p = Some h \<and> histogram_name h = fa_name (args t))) \<and>
     (\<forall>t u p. fs_pc s t = At_Register p \<longrightarrow> fs_pc s u = At_Register p \<longrightarrow> t = u)"

lemma Histogram_new_name: "Histogram_new fp name mn mx n = Inr h \<Longrightarrow> histogram_name h = name"
  by (auto simp: Histogram_new_def)

lemma factory_inv_step:
  assumes "factory_inv args s" "factory_step fp args s s'"
  shows "factory_inv args s'"
  using assms(2)
proof (cases rule: factory_step.cases)
  case (find_hit t p)
  then show ?thesis using assms(1) by (auto simp: factory_inv_def)
next
  case (find_miss t)
  then show ?thesis using assms(1) by (auto simp: factory_inv_def)
next
  case (construct t h p r)
  have "wf_recorder (fs_recorder s)" using assms(1) by (simp add: factory_inv_def)
  note a = wf_recorder_alloc [OF this construct(4)]
  have "fs_pc s u \<noteq> At_Register p" for u
    using assms(1) a(4) unfolding factory_inv_def by (metis option.simps(3))
  then show ?thesis
    using assms(1) a construct(1) Histogram_new_name [OF construct(3)] by (auto simp: factory_inv_def)
next
  case (enrol t p q r)
  have inv: "wf_recorder (fs_recorder s)" using assms(1) by (simp add: factory_inv_def)
  obtain h where h: "hr_heap (fs_recorder s) p = Some h" "histogram_name h = fa_name (args t)"
    using assms(1) enrol(2) unfolding factory_inv_def by blast
  note r = hr.register_returns [OF inv h(1) enrol(3)] hr.register_keeps [OF inv h(1) enrol(3)]
  have old: "FindHistogram r (fa_name (args u)) = Some p'" if "fs_pc s u = Returned p'" for u p'
    using assms(1) that r(6) by (simp add: factory_inv_def)
  have other: "p' \<noteq> p" if "fs_pc s u = At_Register p'" "u \<noteq> t" for u p'
    using assms(1) that enrol(2) unfolding factory_inv_def by blast
  have "\<exists>h. hr_heap r p' = Some h \<and> histogram_name h = fa_name (args u)" if "fs_pc s u = At_Register p'" "u \<noteq> t" for u p'
    using assms(1) that r(5) [OF other [OF that]] unfolding factory_inv_def by metis
  moreover have "FindHistogram r (fa_name (args t)) = Some q" using r(2) h(2) by simp
  ultimately show ?thesis
    using assms(1) r(1) old by (auto simp: factory_inv_def enrol(1))
qed

text \<open>
  C6: however any number of threads interleave their calls of \<open>Histogram::FactoryGet\<close>, all calls
  for one name return the same pointer, it is the registered one, and the object behind it is
  live and has that name; a tentative histogram that lost the race is the one deleted.
\<close>
theorem FactoryGet_race:
  assumes "factory_reachable fp args s"
    and "fs_pc s t = Returned p" "fs_pc s u = Returned q" "fa_name (args t) = fa_name (args u)"
  shows "p = q \<and> FindHistogram (fs_recorder s) (fa_name (args t)) = Some p \<and>
     (\<exists>h. hr_heap (fs_recorder s) p = Some h \<and> histogram_name h = fa_name (args t))"
proof -
  have inv: "factory_inv args s" using assms(1)
  proof induction
    case factory_init
    then show ?case by (simp add: factory_inv_def wf_recorder_new)
  qed (rule factory_inv_step)
  then have "FindHistogram (fs_recorder s) (fa_name (args t)) = Some p"
    "FindHistogram (fs_recorder s) (fa_name (args u)) = Some q"
    using assms(2,3) by (simp_all add: factory_inv_def)
  moreover from inv have "wf_recorder (fs_recorder s)" by (simp add: factory_inv_def)
  ultimately show ?thesis using hr.registered_live [of "fs_recorder s" "fa_name (args t)" p] assms(4) by simp
qed

definition demo_args :: "nat \<Rightarrow> factory_args" where
  "demo_args t = \<lparr>fa_name = ''load'', fa_min = 1, fa_max = 64, fa_buckets = 2\<rparr>"

definition demo_new :: histogram where
  "demo_new = \<lparr>histogram_name = ''load'', h_ranges = \<lparr>br_ranges = [0, 1, INT_MAX]\<rparr>, declared_min = 1,
     declared_max = 64, h_samples = \<lparr>sv_sum = 0, sv_counts = [0, 0], sv_ranges = \<lparr>br_ranges = [0, 1, INT_MAX]\<rparr>\<rparr>\<rparr>"

lemma demo_new_eq: "Histogram_new fp ''load'' 1 64 2 = Inr demo_new"
proof -
  have a: "BucketRanges_new ((2 + 1) mod 2 ^ 64) = \<lparr>br_ranges = [0, 0, 0]\<rparr>"
  proof -
    have m: "(2 + 1) mod 2 ^ 64 = (3 :: nat)" by simp
    show ?thesis unfolding m by (simp add: BucketRanges_new_def numeral_3_eq_3)
  qed
  have b: "InitializeBucketRanges fp 1 64 \<lparr>br_ranges = [0, 0, 0]\<rparr> = Inr \<lparr>br_ranges = [0, 1, INT_MAX]\<rparr>"
  proof -
    have "InitializeBucketRanges_loop fp lm (Suc (Suc 0)) (Suc 0) 1 br = Inr br" for lm br
      by (subst InitializeBucketRanges_loop.simps) simp
    then show ?thesis
      by (simp add: InitializeBucketRanges_def BucketRanges_set_range_def BucketRanges_bucket_count_def
          kSampleTypeMax_def Let_def)
  qed
  show ?thesis
    unfolding Histogram_new_def a b
    by (simp add: SampleVector_new_def BucketRanges_bucket_count_def demo_new_def Let_def)
qed

text \<open>Two threads that both miss: thread 0 registers address 0, thread 1 finds its own histogram deleted.\<close>

definition demo_race :: factory_state where
  "demo_race = \<lparr>fs_recorder = \<lparr>hr_heap = [0 \<mapsto> demo_new], hr_fresh = 2, hr_histograms = [(''load'', 0)]\<rparr>,
     fs_pc = (\<lambda>t. At_Find)(0 := Returned 0, 1 := Returned 0)\<rparr>"

lemma demo_race_reachable: "factory_reachable int_fp demo_args demo_race"
proof -
  define pc where "pc a b = (\<lambda>t :: nat. At_Find)(0 := a, 1 := b)" for a b
  define st where "st r a b = \<lparr>fs_recorder = r, fs_pc = pc a b\<rparr>" for r a b
  define rec where "rec hp n m = \<lparr>hr_heap = hp, hr_fresh = n, hr_histograms = m\<rparr>" for hp n m
  let ?h1 = "Map.empty((0 :: nat) \<mapsto> demo_new)" and ?h2 = "Map.empty((0 :: nat) \<mapsto> demo_new, 1 \<mapsto> demo_new)"
  have pc: "pc a b 0 = a" "pc a b 1 = b" "(pc a b)(0 := c) = pc c b" "(pc a b)(1 := c) = pc a c" for a b c
    by (auto simp: pc_def)
  have name: "histogram_name demo_new = ''load''" by (simp add: demo_new_def)
  have hp: "?h2(1 := None) = ?h1" by (rule ext) simp
  note defs = st_def pc rec_def demo_args_def FindHistogram_def hr_alloc_def name hp
    HistogramRecorder_RegisterOrDeleteDuplicate_def demo_new_eq
  have 1: "factory_step int_fp demo_args (st (rec Map.empty 0 []) At_Find At_Find) (st (rec Map.empty 0 []) At_New At_Find)"
    using find_miss [of "st (rec Map.empty 0 []) At_Find At_Find" 0 demo_args int_fp] by (simp add: defs del: One_nat_def)
  have 2: "factory_step int_fp demo_args (st (rec Map.empty 0 []) At_New At_Find) (st (rec Map.empty 0 []) At_New At_New)"
    using find_miss [of "st (rec Map.empty 0 []) At_New At_Find" 1 demo_args int_fp] by (simp add: defs del: One_nat_def)
  have 3: "factory_step int_fp demo_args (st (rec Map.empty 0 []) At_New At_New) (st (rec ?h1 1 []) (At_Register 0) At_New)"
    using construct [of "st (rec Map.empty 0 []) At_New At_New" 0 int_fp demo_args demo_new 0 "rec ?h1 1 []"]
    by (simp add: defs del: One_nat_def)
  have 4: "factory_step int_fp demo_args (st (rec ?h1 1 []) (At_Register 0) At_New)
      (st (rec ?h2 2 []) (At_Register 0) (At_Register 1))"
    using construct [of "st (rec ?h1 1 []) (At_Register 0) At_New" 1 int_fp demo_args demo_new 1 "rec ?h2 2 []"]
    by (simp add: defs del: One_nat_def)
  have 5: "factory_step int_fp demo_args (st (rec ?h2 2 []) (At_Register 0) (At_Register 1))
      (st (rec ?h2 2 [(''load'', 0)]) (Returned 0) (At_Register 1))"
    using enrol [of "st (rec ?h2 2 []) (At_Register 0) (At_Register 1)" 0 0 0 "rec ?h2 2 [(''load'', 0)]" int_fp demo_args]
    by (simp add: defs del: One_nat_def)
  have 6: "factory_step int_fp demo_args (st (rec ?h2 2 [(''load'', 0)]) (Returned 0) (At_Register 1))
      (st (rec ?h1 2 [(''load'', 0)]) (Returned 0) (Returned 0))"
    using enrol [of "st (rec ?h2 2 [(''load'', 0)]) (Returned 0) (At_Register 1)" 1 1 0 "rec ?h1 2 [(''load'', 0)]" int_fp demo_args]
    by (simp add: defs del: One_nat_def)
  have "pc At_Find At_Find = (\<lambda>t. At_Find)" by (auto simp: pc_def)
  then have "factory_reachable int_fp demo_args (st (rec Map.empty 0 []) At_Find At_Find)"
    using factory_init [of int_fp demo_args] by (simp add: st_def rec_def HistogramRecorder_new_def)
  from factory_next [OF factory_next [OF factory_next [OF factory_next [OF factory_next [OF factory_next [OF this 1] 2] 3] 4] 5] 6]
  show ?thesis by (simp add: demo_race_def st_def rec_def pc_def)
qed

lemma FactoryGet_race_witness:
  "fs_pc demo_race 0 = Returned 0 \<and> fs_pc demo_race 1 = Returned 0 \<and>
   FindHistogram (fs_recorder demo_race) ''load'' = Some 0 \<and> hr_heap (fs_recorder demo_race) 1 = None"
  using FactoryGet_race [OF demo_race_reachable, of 0 0 1 0] by (simp add: demo_race_def demo_args_def)

text \<open>
  Recording through the macro (\<open>HISTOGRAM_COUNTS\<close> and the others): when the cached pointer is
  empty or is the registered histogram of the name, the sample reaches the registered histogram, the
  thread caches its address, every other histogram is left alone, and no check fails.
\<close>
theorem Histogram_macro_records:
  assumes "wf_recorder r" "\<forall>p h. hr_heap r p = Some h \<longrightarrow> wf_histogram h"
    and "cached = None \<or> cached = FindHistogram r name"
    and "Histogram_new fp name mn mx n = Inr h0" "wf_histogram h0"
  shows "\<exists>p h h' r'. STATIC_HISTOGRAM_POINTER_BLOCK fp r cached name sample mn mx n = Inr (Some p, r') \<and>
     h = (case FindHistogram r name of None \<Rightarrow> h0 | Some q \<Rightarrow> the (hr_heap r q)) \<and>
     Histogram_Add h sample = Inr h' \<and> hr_heap r' p = Some h' \<and> histogram_name h' = name \<and>
     FindHistogram r' name = Some p \<and> (\<forall>q \<noteq> p. hr_heap r' q = hr_heap r q)"
proof -
  have run: ?thesis if get: "(case cached of Some p \<Rightarrow> Inr (p, r) | None \<Rightarrow> Histogram_FactoryGet fp r name mn mx n) = Inr (p, r1)"
    and r1: "hr_heap r1 p = Some h" "h = (case FindHistogram r name of None \<Rightarrow> h0 | Some q \<Rightarrow> the (hr_heap r q))"
      "FindHistogram r1 name = Some p" "histogram_name h = name" "wf_histogram h" "\<forall>q \<noteq> p. hr_heap r1 q = hr_heap r q" for p r1 h
  proof -
    obtain h' where "Histogram_Add h sample = Inr h'" "histogram_name h' = name"
      using Histogram_Add_ok [OF r1(5)] r1(4) by metis
    then show ?thesis
      using get r1 by (intro exI [of _ p] exI [of _ h] exI [of _ h'] exI [of _ "r1\<lparr>hr_heap := (hr_heap r1)(p \<mapsto> h')\<rparr>"])
        (simp add: STATIC_HISTOGRAM_POINTER_BLOCK_def FindHistogram_def)
  qed
  show ?thesis
  proof (cases "FindHistogram r name")
    case (Some p)
    then obtain h where h: "hr_heap r p = Some h" "histogram_name h = name" using hr.registered_live [OF assms(1)] by blast
    show ?thesis by (rule run [of p r h]) (use Some h assms(2,3) in \<open>auto simp: Histogram_FactoryGet_def\<close>)
  next
    case None
    obtain p r' where al: "hr_alloc r h0 = (p, r')" by (cases "hr_alloc r h0")
    note a = wf_recorder_alloc [OF assms(1) al]
    have nm: "histogram_name h0 = name" using Histogram_new_name [OF assms(4)] .
    obtain r1 where r1: "HistogramRecorder_RegisterOrDeleteDuplicate r' p = Inr (p, r1)" "hr_heap r1 = hr_heap r'"
        "FindHistogram r1 = (FindHistogram r')(name \<mapsto> p)"
      using hr.register_free [OF a(1), of p h0] a(2,3) None nm by auto
    show ?thesis
      by (rule run [of p r1 h0]) (use None assms(3-5) al r1 a(2) nm in \<open>auto simp: Histogram_FactoryGet_def\<close>)
  qed
qed

text \<open>
  A report selected by a query covers every registered histogram whose name contains the query, once
  and in the order of the names, and no pointer it follows dangles.
\<close>
theorem GetSnapshot_complete:
  assumes "wf_recorder r"
  shows "sorted_wrt (\<lambda>p q. \<exists>h k. hr_heap r p = Some h \<and> hr_heap r q = Some k \<and> histogram_name h < histogram_name k)
      (GetSnapshot r query) \<and>
    set (GetSnapshot r query) = {p. \<exists>name. FindHistogram r name = Some p \<and> name_contains name query}"
proof -
  have om: "sorted_wrt (<) (map fst (hr_histograms r))" using assms by (simp add: wf_recorder_def omap_def)
  then have d: "distinct (map fst (hr_histograms r))" by (simp add: strict_sorted_iff)
  have live: "\<exists>h. hr_heap r p = Some h \<and> histogram_name h = name" if "(name, p) \<in> set (hr_histograms r)" for name p
    using assms that d by (simp add: wf_recorder_def)
  have "sorted_wrt (\<lambda>x y. fst x < fst y) (filter (\<lambda>(name, p). name_contains name query) (hr_histograms r))"
    using om by (simp add: sorted_wrt_map sorted_wrt_filter)
  then have "sorted_wrt (\<lambda>x y. \<exists>h k. hr_heap r (snd x) = Some h \<and> hr_heap r (snd y) = Some k \<and> histogram_name h < histogram_name k)
      (filter (\<lambda>(name, p). name_contains name query) (hr_histograms r))"
    by (rule sorted_wrt_mono_rel [rotated]) (use live in \<open>clarsimp, metis\<close>)
  then show ?thesis
    using d by (auto simp: GetSnapshot_def sorted_wrt_map FindHistogram_def image_iff)
qed

end
