(* ===== verification/Tracing.thy ===== *)
theory Tracing
  imports Registry Times
begin

text \<open>
  Distributed tracing: \<^verbatim>\<open>tracing/Trace.h,.cc\<close>, \<^verbatim>\<open>tracing/TraceRecorder.h,.cc\<close>,
  \<^verbatim>\<open>tracing/TraceContext.h,.cc\<close>, \<^verbatim>\<open>tracing/Tracing.h,.cc\<close> and \<^verbatim>\<open>tracing/Tracer.h\<close>.

  The recorder is a second instance of the \<open>registry\<close> interface, with the pair of trace and span id
  as the key. A thread's trace context is the pair of its two thread-local variables; \<open>ts_output\<close> is
  what the installed tracer received (the default tracer drops everything). The random ids of
  \<open>UniqueId\<close> are arguments: the generator is a Boost class.
\<close>

declare split_paired_All [simp del] split_paired_Ex [simp del]

subsection \<open>Data\<close>

record endpoint =
  ipv4 :: int
  port :: int
  service_name :: string

definition Endpoint_empty :: endpoint where
  "Endpoint_empty = \<lparr>ipv4 = 0, port = -1, service_name = ''''\<rparr>"

definition Endpoint_Valid :: "endpoint \<Rightarrow> bool" where
  "Endpoint_Valid e \<longleftrightarrow> ipv4 e \<noteq> 0 \<and> 0 \<le> port e"

record annotation =
  an_timestamp :: timestamp
  an_value :: string
  an_host :: endpoint

definition Annotation_new :: "timestamp \<Rightarrow> string \<Rightarrow> annotation" where
  "Annotation_new now v = \<lparr>an_timestamp = now, an_value = v, an_host = Endpoint_empty\<rparr>"

definition client_send :: "timestamp \<Rightarrow> annotation" where "client_send now = Annotation_new now ''cs''"
definition client_recv :: "timestamp \<Rightarrow> annotation" where "client_recv now = Annotation_new now ''cr''"
definition server_send :: "timestamp \<Rightarrow> annotation" where "server_send now = Annotation_new now ''ss''"
definition server_recv :: "timestamp \<Rightarrow> annotation" where "server_recv now = Annotation_new now ''sr''"

record binary_annotation =
  ba_name :: string
  ba_value :: string
  ba_type :: string
  ba_host :: endpoint

definition BinaryAnnotation_message :: "string \<Rightarrow> string \<Rightarrow> binary_annotation" where
  "BinaryAnnotation_message n v = \<lparr>ba_name = n, ba_value = v, ba_type = ''string'', ba_host = Endpoint_empty\<rparr>"

record trace =
  tr_name :: string
  trace_id :: int
  span_id :: int
  parent_span_id :: int
  tr_host :: endpoint

definition Trace_new :: "string \<Rightarrow> int \<Rightarrow> int \<Rightarrow> int \<Rightarrow> trace" where
  "Trace_new name t s parent =
     \<lparr>tr_name = name, trace_id = t, span_id = s, parent_span_id = parent, tr_host = Endpoint_empty\<rparr>"

definition Trace_has_parent_span_id :: "trace \<Rightarrow> bool" where
  "Trace_has_parent_span_id t \<longleftrightarrow> 0 < parent_span_id t"

definition Trace_key :: "trace \<Rightarrow> int \<times> int" where
  "Trace_key t = (trace_id t, span_id t)"

subsection \<open>TraceRecorder\<close>

record trace_recorder =
  tr_heap :: "nat \<rightharpoonup> trace"
  tr_fresh :: nat
  tr_traces :: "((int \<times> int) \<times> nat) list"

definition TraceRecorder_new :: trace_recorder where
  "TraceRecorder_new = \<lparr>tr_heap = Map.empty, tr_fresh = 0, tr_traces = []\<rparr>"

definition TraceRecorder_RegisterOrDeleteDuplicate :: "trace_recorder \<Rightarrow> nat \<Rightarrow> (nat \<times> trace_recorder) result" where
  "TraceRecorder_RegisterOrDeleteDuplicate r trace =
     (case tr_heap r trace of None \<Rightarrow> Inl Dangling_Pointer
      | Some t \<Rightarrow>
          let i = (trace_id t, span_id t)
          in case map_of (tr_traces r) i of
               None \<Rightarrow> Inr (trace, r\<lparr>tr_traces := omap_insert i trace (tr_traces r)\<rparr>)
             | Some second \<Rightarrow>
                 if trace = second then Inr (trace, r)
                 else Inr (second, r\<lparr>tr_heap := (tr_heap r)(trace := None)\<rparr>))"

definition TraceRecorder_Find :: "trace_recorder \<Rightarrow> int \<times> int \<Rightarrow> nat option" where
  "TraceRecorder_Find r i = map_of (tr_traces r) i"

definition TraceRecorder_Erase :: "trace_recorder \<Rightarrow> int \<times> int \<Rightarrow> trace_recorder" where
  "TraceRecorder_Erase r i =
     (case map_of (tr_traces r) i of None \<Rightarrow> r
      | Some p \<Rightarrow> r\<lparr>tr_heap := (tr_heap r)(p := None), tr_traces := omap_erase i (tr_traces r)\<rparr>)"

subsection \<open>Trace operations\<close>

definition Trace_FactoryGet ::
  "trace_recorder \<Rightarrow> string \<Rightarrow> int \<Rightarrow> int \<Rightarrow> int \<Rightarrow> (nat \<times> trace_recorder) result" where
  "Trace_FactoryGet r name t s parent =
     (let p = tr_fresh r;
          r' = r\<lparr>tr_heap := (tr_heap r)(p \<mapsto> Trace_new name t s parent), tr_fresh := tr_fresh r + 1\<rparr>
      in TraceRecorder_RegisterOrDeleteDuplicate r' p)"

definition Trace_FactoryGet_unique ::
  "trace_recorder \<Rightarrow> string \<Rightarrow> int \<Rightarrow> int \<Rightarrow> (nat \<times> trace_recorder) result" where
  "Trace_FactoryGet_unique r name unique1 unique2 = Trace_FactoryGet r name unique1 unique2 0"

definition Trace_MakeChild :: "trace_recorder \<Rightarrow> nat \<Rightarrow> string \<Rightarrow> (nat \<times> trace_recorder) result" where
  "Trace_MakeChild r p name =
     (case tr_heap r p of None \<Rightarrow> Inl Dangling_Pointer
      | Some t \<Rightarrow> Trace_FactoryGet r name (trace_id t) (i64 (span_id t + 1)) (span_id t))"

definition Trace_set_host :: "trace \<Rightarrow> endpoint \<Rightarrow> trace" where
  "Trace_set_host t e = t\<lparr>tr_host := e\<rparr>"

subsection \<open>The thread's context, the tracer and the macros\<close>

datatype trace_output = Out_Annotation trace annotation | Out_Binary trace binary_annotation

record tracing_state =
  ts_recorder :: trace_recorder
  ts_context :: "int \<times> int"
  ts_tracer :: bool
  ts_output :: "trace_output list"

definition SetTraceContext :: "tracing_state \<Rightarrow> int \<times> int \<Rightarrow> tracing_state" where
  "SetTraceContext s ctx = s\<lparr>ts_context := (fst ctx, snd ctx)\<rparr>"

definition GetTraceContext :: "tracing_state \<Rightarrow> int \<times> int" where
  "GetTraceContext s = ts_context s"

definition ResetTraceContext :: "tracing_state \<Rightarrow> tracing_state" where
  "ResetTraceContext s = s\<lparr>ts_context := (0, 0)\<rparr>"

definition TraceContextGuard :: "int \<times> int \<Rightarrow> (tracing_state \<Rightarrow> tracing_state) \<Rightarrow> tracing_state \<Rightarrow> tracing_state" where
  "TraceContextGuard ctx body s = ResetTraceContext (body (SetTraceContext s ctx))"

definition InstallClaireTracer :: "tracing_state \<Rightarrow> tracing_state" where
  "InstallClaireTracer s = s\<lparr>ts_tracer := True\<rparr>"

definition OutputTrace :: "tracing_state \<Rightarrow> trace_output \<Rightarrow> tracing_state" where
  "OutputTrace s x = (if ts_tracer s then s\<lparr>ts_output := ts_output s @ [x]\<rparr> else s)"

definition Trace_Record :: "tracing_state \<Rightarrow> trace \<Rightarrow> annotation \<Rightarrow> tracing_state" where
  "Trace_Record s t a = OutputTrace s (Out_Annotation t a)"

definition Trace_Record_binary :: "tracing_state \<Rightarrow> trace \<Rightarrow> binary_annotation \<Rightarrow> tracing_state" where
  "Trace_Record_binary s t a = OutputTrace s (Out_Binary t a)"

definition TRACE_ANNOTATION :: "tracing_state \<Rightarrow> annotation \<Rightarrow> tracing_state result" where
  "TRACE_ANNOTATION s a =
     (case TraceRecorder_Find (ts_recorder s) (GetTraceContext s) of
        None \<Rightarrow> Inr s
      | Some p \<Rightarrow> (case tr_heap (ts_recorder s) p of None \<Rightarrow> Inl Dangling_Pointer
                    | Some t \<Rightarrow> Inr (Trace_Record s t a)))"

definition TRACE_SET_HOST :: "tracing_state \<Rightarrow> endpoint \<Rightarrow> tracing_state result" where
  "TRACE_SET_HOST s e =
     (case TraceRecorder_Find (ts_recorder s) (GetTraceContext s) of
        None \<Rightarrow> Inr s
      | Some p \<Rightarrow> (case tr_heap (ts_recorder s) p of None \<Rightarrow> Inl Dangling_Pointer
                    | Some t \<Rightarrow> Inr (s\<lparr>ts_recorder := (ts_recorder s)
                        \<lparr>tr_heap := (tr_heap (ts_recorder s))(p \<mapsto> Trace_set_host t e)\<rparr>\<rparr>)))"

definition ERASE_TRACE :: "tracing_state \<Rightarrow> tracing_state" where
  "ERASE_TRACE s = s\<lparr>ts_recorder := TraceRecorder_Erase (ts_recorder s) (GetTraceContext s)\<rparr>"

subsection \<open>The recorder is a registry\<close>

definition wf_traces :: "trace_recorder \<Rightarrow> bool" where
  "wf_traces r \<longleftrightarrow> omap (tr_traces r) \<and> (\<forall>p \<in> dom (tr_heap r). p < tr_fresh r) \<and>
     (\<forall>i p. map_of (tr_traces r) i = Some p \<longrightarrow> (\<exists>t. tr_heap r p = Some t \<and> Trace_key t = i))"

definition no_leak :: "trace_recorder \<Rightarrow> bool" where
  "no_leak r \<longleftrightarrow> (\<forall>p t. tr_heap r p = Some t \<longrightarrow> TraceRecorder_Find r (Trace_key t) = Some p)"

interpretation tr: registry wf_traces tr_heap TraceRecorder_Find Trace_key TraceRecorder_RegisterOrDeleteDuplicate
proof (unfold_locales, goal_cases)
  case (1 s k p)
  then show ?case by (simp add: wf_traces_def TraceRecorder_Find_def)
next
  case (2 s p t)
  then show ?case
    by (auto simp: TraceRecorder_RegisterOrDeleteDuplicate_def TraceRecorder_Find_def wf_traces_def
        map_of_omap_insert fun_eq_iff Trace_key_def)
next
  case (3 s p t q)
  then have "\<exists>t'. tr_heap s q = Some t' \<and> Trace_key t' = Trace_key t"
    by (simp add: wf_traces_def TraceRecorder_Find_def)
  with 3 have "wf_traces (s\<lparr>tr_heap := (tr_heap s)(p := None)\<rparr>)" if "p \<noteq> q"
    using that by (fastforce simp: wf_traces_def TraceRecorder_Find_def)
  with 3 show ?case
    by (auto simp: TraceRecorder_RegisterOrDeleteDuplicate_def TraceRecorder_Find_def Trace_key_def)
next
  case (4 s p)
  then show ?case by (simp add: TraceRecorder_RegisterOrDeleteDuplicate_def)
qed

lemma Trace_FactoryGet_spec:
  assumes "wf_traces r" "no_leak r"
  shows "\<exists>p r'. Trace_FactoryGet r name t s parent = Inr (p, r') \<and> wf_traces r' \<and> no_leak r' \<and>
     TraceRecorder_Find r' = (TraceRecorder_Find r)((t, s) \<mapsto> p) \<and>
     (case TraceRecorder_Find r (t, s) of
        None \<Rightarrow> tr_heap r' = (tr_heap r)(p \<mapsto> Trace_new name t s parent) \<and> tr_heap r p = None
      | Some q \<Rightarrow> p = q \<and> tr_heap r' = tr_heap r)"
proof -
  let ?p = "tr_fresh r" let ?t = "Trace_new name t s parent"
  define r1 where "r1 = r\<lparr>tr_heap := (tr_heap r)(?p \<mapsto> ?t), tr_fresh := tr_fresh r + 1\<rparr>"
  have fresh: "tr_heap r ?p = None" using assms(1) by (auto simp: wf_traces_def)
  then have wf1: "wf_traces r1"
    using assms(1) by (fastforce simp: wf_traces_def r1_def less_Suc_eq)
  have f1: "TraceRecorder_Find r1 = TraceRecorder_Find r" by (simp add: r1_def TraceRecorder_Find_def fun_eq_iff)
  have h1: "tr_heap r1 ?p = Some ?t" and k: "Trace_key ?t = (t, s)" by (simp_all add: r1_def Trace_key_def Trace_new_def)
  have get: "Trace_FactoryGet r name t s parent = TraceRecorder_RegisterOrDeleteDuplicate r1 ?p"
    by (simp add: Trace_FactoryGet_def r1_def Let_def)
  show ?thesis
  proof (cases "TraceRecorder_Find r (t, s)")
    case None
    from tr.register_free [OF wf1 h1] obtain r' where r': "Trace_FactoryGet r name t s parent = Inr (?p, r')" "wf_traces r'"
        "tr_heap r' = (tr_heap r)(?p \<mapsto> ?t)" "TraceRecorder_Find r' = (TraceRecorder_Find r)((t, s) \<mapsto> ?p)"
      using None by (auto simp: get f1 k) (simp add: r1_def)
    moreover have "no_leak r'" using assms(2) None k by (fastforce simp: no_leak_def r'(3,4))
    ultimately show ?thesis using None fresh by auto
  next
    case (Some q)
    then have "?p \<noteq> q" using tr.registered_live [OF assms(1) Some] fresh by auto
    with tr.register_taken [OF wf1 h1, of q] obtain r' where r': "Trace_FactoryGet r name t s parent = Inr (q, r')" "wf_traces r'"
        "tr_heap r' = tr_heap r" "TraceRecorder_Find r' = TraceRecorder_Find r"
      using Some fresh by (auto simp: get f1 k) (auto simp: r1_def fun_eq_iff)
    moreover have "no_leak r'" using assms(2) by (simp add: no_leak_def r'(3,4))
    ultimately show ?thesis using Some by auto
  qed
qed

lemma TraceRecorder_Erase_spec:
  assumes "wf_traces r" "no_leak r"
  shows "wf_traces (TraceRecorder_Erase r i)" "no_leak (TraceRecorder_Erase r i)"
    "TraceRecorder_Find (TraceRecorder_Erase r i) = (TraceRecorder_Find r)(i := None)"
    "tr_heap (TraceRecorder_Erase r i) p = (if TraceRecorder_Find r i = Some p then None else tr_heap r p)"
proof -
  show f: "TraceRecorder_Find (TraceRecorder_Erase r i) = (TraceRecorder_Find r)(i := None)"
    by (auto simp: TraceRecorder_Find_def TraceRecorder_Erase_def fun_eq_iff split: option.splits)
  show h: "tr_heap (TraceRecorder_Erase r i) p = (if TraceRecorder_Find r i = Some p then None else tr_heap r p)" for p
    by (auto simp: TraceRecorder_Find_def TraceRecorder_Erase_def split: option.splits)
  show "no_leak (TraceRecorder_Erase r i)"
    using assms tr.registered_live [OF assms(1)] by (fastforce simp: no_leak_def f h split: if_splits)
  have "omap (tr_traces (TraceRecorder_Erase r i))" "tr_fresh (TraceRecorder_Erase r i) = tr_fresh r"
    using assms(1) by (auto simp: wf_traces_def TraceRecorder_Erase_def split: option.splits)
  moreover have "\<forall>p \<in> dom (tr_heap (TraceRecorder_Erase r i)). p < tr_fresh r"
    using assms(1) by (auto simp: h wf_traces_def split: if_splits)
  moreover have "\<exists>t. tr_heap (TraceRecorder_Erase r i) q = Some t \<and> Trace_key t = j"
    if "TraceRecorder_Find (TraceRecorder_Erase r i) j = Some q" for j q
  proof -
    have j: "j \<noteq> i" "TraceRecorder_Find r j = Some q" using that by (auto simp: f split: if_splits)
    then obtain t where "tr_heap r q = Some t" "Trace_key t = j" using tr.registered_live [OF assms(1)] by blast
    then show ?thesis using j tr.registered_live [OF assms(1), of i q] by (auto simp: h)
  qed
  ultimately show "wf_traces (TraceRecorder_Erase r i)"
    unfolding wf_traces_def by (simp add: TraceRecorder_Find_def)
qed

subsection \<open>Object lifetimes\<close>

inductive trace_step :: "tracing_state \<Rightarrow> tracing_state \<Rightarrow> bool" where
  st_factory: "Trace_FactoryGet (ts_recorder s) name t sp parent = Inr (p, r) \<Longrightarrow> trace_step s (s\<lparr>ts_recorder := r\<rparr>)"
| st_child: "Trace_MakeChild (ts_recorder s) p name = Inr (q, r) \<Longrightarrow> trace_step s (s\<lparr>ts_recorder := r\<rparr>)"
| st_context: "trace_step s (SetTraceContext s ctx)"
| st_reset: "trace_step s (ResetTraceContext s)"
| st_install: "trace_step s (InstallClaireTracer s)"
| st_annotate: "TRACE_ANNOTATION s a = Inr s' \<Longrightarrow> trace_step s s'"
| st_host: "TRACE_SET_HOST s e = Inr s' \<Longrightarrow> trace_step s s'"
| st_erase: "trace_step s (ERASE_TRACE s)"

inductive trace_reachable :: "tracing_state \<Rightarrow> bool" where
  trace_init: "trace_reachable \<lparr>ts_recorder = TraceRecorder_new, ts_context = (0, 0), ts_tracer = False, ts_output = []\<rparr>"
| trace_next: "trace_reachable s \<Longrightarrow> trace_step s s' \<Longrightarrow> trace_reachable s'"

lemma Trace_MakeChild_FactoryGet:
  "Trace_MakeChild r p name = Inr x \<Longrightarrow> \<exists>t s parent. Trace_FactoryGet r name t s parent = Inr x"
  by (auto simp: Trace_MakeChild_def split: option.splits)

lemma TRACE_SET_HOST_keeps:
  assumes "wf_traces (ts_recorder s)" "no_leak (ts_recorder s)" "TRACE_SET_HOST s e = Inr s'"
  shows "wf_traces (ts_recorder s') \<and> no_leak (ts_recorder s')"
proof (cases "TraceRecorder_Find (ts_recorder s) (GetTraceContext s)")
  case None
  then show ?thesis using assms by (simp add: TRACE_SET_HOST_def)
next
  case (Some p)
  then obtain t where t: "tr_heap (ts_recorder s) p = Some t" "Trace_key t = GetTraceContext s"
    using tr.registered_live [OF assms(1)] by blast
  have k: "Trace_key (Trace_set_host t e) = Trace_key t" by (simp add: Trace_key_def Trace_set_host_def)
  have s': "ts_recorder s' = (ts_recorder s)\<lparr>tr_heap := (tr_heap (ts_recorder s))(p \<mapsto> Trace_set_host t e)\<rparr>"
    using assms(3) Some t by (auto simp: TRACE_SET_HOST_def)
  have "no_leak (ts_recorder s')"
    using assms(2) t Some k by (auto simp: s' no_leak_def TraceRecorder_Find_def)
  moreover have "wf_traces (ts_recorder s')"
    using assms(1,2) t Some k by (fastforce simp: s' wf_traces_def TraceRecorder_Find_def)
  ultimately show ?thesis by blast
qed

lemma trace_step_keeps:
  assumes "trace_step s s'" "wf_traces (ts_recorder s) \<and> no_leak (ts_recorder s)"
  shows "wf_traces (ts_recorder s') \<and> no_leak (ts_recorder s')"
  using assms(1)
proof cases
  case (st_factory name t sp parent p r)
  then show ?thesis using Trace_FactoryGet_spec [of "ts_recorder s" name t sp parent] assms(2) by auto
next
  case (st_child p name q r)
  then obtain t sp parent where "Trace_FactoryGet (ts_recorder s) name t sp parent = Inr (q, r)"
    using Trace_MakeChild_FactoryGet by blast
  then show ?thesis using Trace_FactoryGet_spec [of "ts_recorder s" name t sp parent] assms(2) st_child by auto
next
  case (st_host e)
  then show ?thesis using TRACE_SET_HOST_keeps assms(2) by blast
next
  case st_erase
  then show ?thesis using TraceRecorder_Erase_spec assms(2) by (simp add: ERASE_TRACE_def)
qed (use assms(2) in \<open>auto simp: SetTraceContext_def ResetTraceContext_def InstallClaireTracer_def
    TRACE_ANNOTATION_def Trace_Record_def OutputTrace_def split: option.splits if_splits\<close>)


definition demo_tracing :: tracing_state where
  "demo_tracing = \<lparr>ts_recorder = \<lparr>tr_heap = [0 \<mapsto> Trace_new ''rpc'' 7 1 0], tr_fresh = 1, tr_traces = [((7, 1), 0)]\<rparr>,
     ts_context = (0, 0), ts_tracer = False, ts_output = []\<rparr>"


text \<open>
  A child span carries its parent's trace id and span id, and it is registered with the next
  span id; a second child of the same span, whatever its name, is the same object as the first.
\<close>
theorem MakeChild_twice:
  assumes "wf_traces r" "no_leak r" "tr_heap r p = Some t" "TraceRecorder_Find r (trace_id t, i64 (span_id t + 1)) = None"
  shows "\<exists>c r1 r2. Trace_MakeChild r p name1 = Inr (c, r1) \<and> Trace_MakeChild r1 p name2 = Inr (c, r2) \<and>
     tr_heap r2 c = Some (Trace_new name1 (trace_id t) (i64 (span_id t + 1)) (span_id t)) \<and>
     TraceRecorder_Find r2 (trace_id t, i64 (span_id t + 1)) = Some c"
proof -
  let ?i = "(trace_id t, i64 (span_id t + 1))"
  obtain c r1 where 1: "Trace_MakeChild r p name1 = Inr (c, r1)" "wf_traces r1" "no_leak r1"
      "TraceRecorder_Find r1 = (TraceRecorder_Find r)(?i \<mapsto> c)"
      "tr_heap r1 = (tr_heap r)(c \<mapsto> Trace_new name1 (trace_id t) (i64 (span_id t + 1)) (span_id t))" "tr_heap r c = None"
    using Trace_FactoryGet_spec [OF assms(1,2), of name1 "trace_id t" "i64 (span_id t + 1)" "span_id t"] assms(3,4)
    by (auto simp: Trace_MakeChild_def)
  then have "tr_heap r1 p = Some t" using assms(3) by auto
  then show ?thesis
    using Trace_FactoryGet_spec [OF 1(2,3), of name2 "trace_id t" "i64 (span_id t + 1)" "span_id t"] 1
    by (auto simp: Trace_MakeChild_def)
qed

end
