(* ===== verification/Timeouts.thy ===== *)
theory Timeouts
  imports Times "HOL-Library.Multiset"
begin

text \<open>
  The timer queue of the reactor: \<^verbatim>\<open>events/TimeoutQueue.h,.cc\<close>.

  The \<open>boost::multi_index_container\<close> with a unique index on the id and a non-unique ordered index on
  the expiration is the list of its events in the order of the second index: an insertion goes after
  the events of the same expiration and is refused when the id is taken. A callback is a tag and the
  queue operations it performs when it runs (callbacks may call back into the queue); \<open>fired\<close> is
  the history of the tags of the callbacks that ran. The timer descriptor is what
  \<open>timerfd_settime\<close> was last given: the expiration asked for and the relative \<open>timespec\<close>.
  The operations are the ones that run in the loop thread, where \<open>loop_->Run\<close> calls at once.
  The wall clock is a function \<open>clock\<close> from readings to values: \<open>ticks\<close> counts the calls of
  \<open>Timestamp::Now\<close>, and nothing is assumed of the values (the clock may jump).
\<close>

subsection \<open>State\<close>

datatype callback = Callback nat "queue_op list"
  and queue_op = Op_Add int callback | Op_AddRepeating int int callback | Op_Cancel int

fun cb_tag :: "callback \<Rightarrow> nat" where
  "cb_tag (Callback t ops) = t"

fun cb_ops :: "callback \<Rightarrow> queue_op list" where
  "cb_ops (Callback t ops) = ops"

record event =
  ev_id :: int
  expiration :: int
  repeat_interval :: int
  ev_callback :: callback

record timeout_queue =
  timeouts :: "event list"
  next_id :: int
  armed_for :: "int option"
  armed_spec :: "int \<times> int"
  fired :: "nat list"
  ticks :: nat

subsection \<open>The timer descriptor\<close>

definition read_clock :: "(nat \<Rightarrow> int) \<Rightarrow> timeout_queue \<Rightarrow> int \<times> timeout_queue" where
  "read_clock clock q = (clock (ticks q), q\<lparr>ticks := Suc (ticks q)\<rparr>)"

definition HowMuchTimeFromNow :: "int \<Rightarrow> int \<Rightarrow> int \<times> int" where
  "HowMuchTimeFromNow when now =
     (let delta = i64 (when - now);
          delta = (if delta < 100 then 100 else delta)
      in (delta sdiv 1000000, i64 ((delta smod kMicroSecondsPerSecond) * 1000)))"

definition ResetTimerfd :: "(nat \<Rightarrow> int) \<Rightarrow> timeout_queue \<Rightarrow> int \<Rightarrow> timeout_queue" where
  "ResetTimerfd clock q expire =
     (let (now, q') = read_clock clock q
      in q'\<lparr>armed_for := Some expire, armed_spec := HowMuchTimeFromNow expire now\<rparr>)"

subsection \<open>The container and the operations\<close>

fun insert_by_expiration :: "event \<Rightarrow> event list \<Rightarrow> event list" where
  "insert_by_expiration e [] = [e]"
| "insert_by_expiration e (x # xs) =
     (if expiration e < expiration x then e # x # xs else x # insert_by_expiration e xs)"

definition timeouts_insert :: "event \<Rightarrow> event list \<Rightarrow> event list" where
  "timeouts_insert e es = (if ev_id e \<in> ev_id ` set es then es else insert_by_expiration e es)"

definition TimeoutQueue_new :: timeout_queue where
  "TimeoutQueue_new =
     \<lparr>timeouts = [], next_id = 1, armed_for = None, armed_spec = (0, 0), fired = [], ticks = 0\<rparr>"

definition NextExpiration :: "timeout_queue \<Rightarrow> int" where
  "NextExpiration q = (case timeouts q of [] \<Rightarrow> INT64_MAX | e # _ \<Rightarrow> expiration e)"

definition AddInLoop :: "(nat \<Rightarrow> int) \<Rightarrow> timeout_queue \<Rightarrow> event \<Rightarrow> timeout_queue" where
  "AddInLoop clock q event =
     (let reset = expiration event < NextExpiration q;
          q' = q\<lparr>timeouts := timeouts_insert event (timeouts q)\<rparr>
      in if reset then ResetTimerfd clock q' (NextExpiration q') else q')"

definition fetch_id :: "timeout_queue \<Rightarrow> int \<times> timeout_queue" where
  "fetch_id q = (next_id q, q\<lparr>next_id := i64 (next_id q + 1)\<rparr>)"

definition TimeoutQueue_Add :: "(nat \<Rightarrow> int) \<Rightarrow> timeout_queue \<Rightarrow> int \<Rightarrow> callback \<Rightarrow> int \<times> timeout_queue" where
  "TimeoutQueue_Add clock q expire cb =
     (let (i, q') = fetch_id q;
          event = \<lparr>ev_id = i, expiration = expire, repeat_interval = -1, ev_callback = cb\<rparr>
      in (i, AddInLoop clock q' event))"

definition TimeoutQueue_AddRepeating ::
  "(nat \<Rightarrow> int) \<Rightarrow> timeout_queue \<Rightarrow> int \<Rightarrow> int \<Rightarrow> callback \<Rightarrow> int \<times> timeout_queue" where
  "TimeoutQueue_AddRepeating clock q now interval cb =
     (let (i, q') = fetch_id q;
          event = \<lparr>ev_id = i, expiration = i64 (now + interval), repeat_interval = interval, ev_callback = cb\<rparr>
      in (i, AddInLoop clock q' event))"

definition CancelInLoop :: "timeout_queue \<Rightarrow> int \<Rightarrow> timeout_queue" where
  "CancelInLoop q i = q\<lparr>timeouts := filter (\<lambda>e. ev_id e \<noteq> i) (timeouts q)\<rparr>"

subsection \<open>Running the due events\<close>

fun exec_op :: "(nat \<Rightarrow> int) \<Rightarrow> timeout_queue \<Rightarrow> queue_op \<Rightarrow> timeout_queue" where
  "exec_op clock q (Op_Add expire cb) = snd (TimeoutQueue_Add clock q expire cb)"
| "exec_op clock q (Op_AddRepeating now interval cb) = snd (TimeoutQueue_AddRepeating clock q now interval cb)"
| "exec_op clock q (Op_Cancel i) = CancelInLoop q i"

definition run_callback :: "(nat \<Rightarrow> int) \<Rightarrow> timeout_queue \<Rightarrow> callback \<Rightarrow> timeout_queue" where
  "run_callback clock q cb = foldl (exec_op clock) (q\<lparr>fired := fired q @ [cb_tag cb]\<rparr>) (cb_ops cb)"

definition due_events :: "int \<Rightarrow> event list \<Rightarrow> event list" where
  "due_events now es = takeWhile (\<lambda>e. expiration e \<le> now) es"

definition later_events :: "int \<Rightarrow> event list \<Rightarrow> event list" where
  "later_events now es = dropWhile (\<lambda>e. expiration e \<le> now) es"

definition reinsert :: "int \<Rightarrow> event list \<Rightarrow> event \<Rightarrow> event list" where
  "reinsert now es e =
     (if 0 \<le> repeat_interval e
      then timeouts_insert (e\<lparr>expiration := i64 (now + repeat_interval e)\<rparr>) es else es)"

definition TimeoutQueue_Run :: "(nat \<Rightarrow> int) \<Rightarrow> timeout_queue \<Rightarrow> int \<Rightarrow> timeout_queue \<times> int" where
  "TimeoutQueue_Run clock q now =
     (let expired = due_events now (timeouts q);
          q1 = q\<lparr>timeouts := later_events now (timeouts q)\<rparr>;
          q2 = q1\<lparr>timeouts := foldl (reinsert now) (timeouts q1) expired\<rparr>;
          q3 = foldl (\<lambda>q e. run_callback clock q (ev_callback e)) q2 expired
      in (q3, NextExpiration q3))"

definition OnTimer :: "(nat \<Rightarrow> int) \<Rightarrow> timeout_queue \<Rightarrow> timeout_queue" where
  "OnTimer clock q =
     (let (now, q1) = read_clock clock q;
          (q2, next) = TimeoutQueue_Run clock q1 now
      in ResetTimerfd clock q2 next)"

subsection \<open>The queue as a transition system\<close>

inductive queue_step :: "(nat \<Rightarrow> int) \<Rightarrow> timeout_queue \<Rightarrow> timeout_queue \<Rightarrow> bool" for clock where
  step_op: "queue_step clock q (exec_op clock q oper)"
| step_timer: "queue_step clock q (OnTimer clock q)"

inductive queue_reachable :: "(nat \<Rightarrow> int) \<Rightarrow> timeout_queue \<Rightarrow> bool" for clock where
  reach_new: "queue_reachable clock TimeoutQueue_new"
| reach_step: "queue_reachable clock q \<Longrightarrow> queue_step clock q q' \<Longrightarrow> queue_reachable clock q'"

inductive_cases queue_stepE: "queue_step clock q q'"

subsection \<open>Well-formed containers\<close>

definition wf_events :: "event list \<Rightarrow> bool" where
  "wf_events es \<longleftrightarrow> sorted (map expiration es) \<and> distinct (map ev_id es)"

definition wakeup_pending :: "timeout_queue \<Rightarrow> bool" where
  "wakeup_pending q \<longleftrightarrow>
     (NextExpiration q < INT64_MAX \<longrightarrow> (\<exists>t. armed_for q = Some t \<and> t \<le> NextExpiration q))"

lemma mset_insert_by: "mset (insert_by_expiration e es) = add_mset e (mset es)"
  by (induction es) auto

lemma set_insert_by [simp]: "set (insert_by_expiration e es) = insert e (set es)"
  using arg_cong [OF mset_insert_by, of set_mset] by simp

lemma distinct_insert_by:
  "distinct (map ev_id (insert_by_expiration e es)) \<longleftrightarrow> ev_id e \<notin> ev_id ` set es \<and> distinct (map ev_id es)"
  by (induction es) auto

lemma sorted_insert_by:
  "sorted (map expiration es) \<Longrightarrow> sorted (map expiration (insert_by_expiration e es))"
  by (induction es) auto

lemma wf_timeouts_insert [intro]: "wf_events es \<Longrightarrow> wf_events (timeouts_insert e es)"
  by (simp add: wf_events_def timeouts_insert_def distinct_insert_by sorted_insert_by)

lemma wf_filter [intro]: "wf_events es \<Longrightarrow> wf_events (filter P es)"
  by (simp add: wf_events_def sorted_filter distinct_map_filter)

lemma wf_reinsert [intro]: "wf_events es \<Longrightarrow> wf_events (reinsert now es e)"
  by (auto simp: reinsert_def)

lemma split_due:
  assumes "wf_events es"
  shows "due_events now es = filter (\<lambda>e. expiration e \<le> now) es"
    and "later_events now es = filter (\<lambda>e. now < expiration e) es"
  using assms filter_takeWhile_sorted [of expiration es now]
  by (simp_all add: wf_events_def due_events_def later_events_def not_le)

subsection \<open>Effects of the operations\<close>

lemma read_clock_simps [simp]:
  "timeouts (snd (read_clock clock q)) = timeouts q"
  "fired (snd (read_clock clock q)) = fired q"
  "armed_for (snd (read_clock clock q)) = armed_for q"
  by (simp_all add: read_clock_def)

lemma ResetTimerfd_simps [simp]:
  "timeouts (ResetTimerfd clock q t) = timeouts q"
  "fired (ResetTimerfd clock q t) = fired q"
  "armed_for (ResetTimerfd clock q t) = Some t"
  by (simp_all add: ResetTimerfd_def read_clock_def)

lemma AddInLoop_timeouts [simp]:
  "timeouts (AddInLoop clock q e) = timeouts_insert e (timeouts q)"
  "fired (AddInLoop clock q e) = fired q"
  by (simp_all add: AddInLoop_def Let_def)

lemma CancelInLoop_simps [simp]:
  "timeouts (CancelInLoop q i) = filter (\<lambda>e. ev_id e \<noteq> i) (timeouts q)"
  "fired (CancelInLoop q i) = fired q"
  "armed_for (CancelInLoop q i) = armed_for q"
  by (simp_all add: CancelInLoop_def)

lemmas add_defs = TimeoutQueue_Add_def TimeoutQueue_AddRepeating_def fetch_id_def

lemma exec_op_fired [simp]: "fired (exec_op clock q oper) = fired q"
  by (cases oper) (simp_all add: add_defs)

lemma exec_op_wf: "wf_events (timeouts q) \<Longrightarrow> wf_events (timeouts (exec_op clock q oper))"
  by (cases oper) (auto simp: add_defs)

lemma run_callback_fired [simp]: "fired (run_callback clock q cb) = fired q @ [cb_tag cb]"
  using foldl_const [where g = fired and f = "exec_op clock"] by (simp add: run_callback_def)

lemma run_callback_wf: "wf_events (timeouts q) \<Longrightarrow> wf_events (timeouts (run_callback clock q cb))"
  unfolding run_callback_def
  by (rule foldl_invariant [where P = "\<lambda>q. wf_events (timeouts q)"]) (auto intro: exec_op_wf)

lemma run_callbacks_fired:
  "fired (foldl (\<lambda>q e. run_callback clock q (ev_callback e)) q es)
   = fired q @ map (cb_tag \<circ> ev_callback) es"
  by (induction es arbitrary: q) simp_all

lemma Run_wf:
  assumes "wf_events (timeouts q)"
  shows "wf_events (timeouts (fst (TimeoutQueue_Run clock q now)))"
proof -
  have "wf_events (foldl (reinsert now) (later_events now (timeouts q)) (due_events now (timeouts q)))"
    by (rule foldl_invariant) (use assms in \<open>auto simp: split_due(2)\<close>)
  then show ?thesis
    unfolding TimeoutQueue_Run_def Let_def fst_conv
    by (intro foldl_invariant [where P = "\<lambda>q. wf_events (timeouts q)"]) (simp_all add: run_callback_wf)
qed

lemma OnTimer_simps:
  "timeouts (OnTimer clock q) = timeouts (fst (TimeoutQueue_Run clock (q\<lparr>ticks := Suc (ticks q)\<rparr>) (clock (ticks q))))"
  "armed_for (OnTimer clock q) = Some (NextExpiration (OnTimer clock q))"
  by (simp_all add: OnTimer_def read_clock_def TimeoutQueue_Run_def NextExpiration_def Let_def)

lemma OnTimer_wf: "wf_events (timeouts q) \<Longrightarrow> wf_events (timeouts (OnTimer clock q))"
  by (simp add: OnTimer_simps Run_wf)

definition demo_event :: event where
  "demo_event = \<lparr>ev_id = 1, expiration = 50, repeat_interval = 10, ev_callback = Callback 7 []\<rparr>"

definition demo_queue :: timeout_queue where
  "demo_queue = TimeoutQueue_new\<lparr>timeouts := [demo_event, demo_event\<lparr>ev_id := 2, repeat_interval := -1\<rparr>,
     demo_event\<lparr>ev_id := 3, expiration := 200\<rparr>], next_id := 4\<rparr>"

lemma demo_queue_wf: "wf_events (timeouts demo_queue)"
  by (simp add: wf_events_def demo_queue_def demo_event_def)

subsection \<open>No wake-up is lost\<close>

lemma NextExpiration_le: "wf_events (timeouts q) \<Longrightarrow> e \<in> set (timeouts q) \<Longrightarrow> NextExpiration q \<le> expiration e"
  by (cases "timeouts q") (auto simp: NextExpiration_def wf_events_def)

lemma NextExpiration_Min:
  assumes "wf_events (timeouts q)" "timeouts q \<noteq> []"
  shows "NextExpiration q = Min (expiration ` set (timeouts q))"
proof (rule Min_eqI [symmetric])
  show "NextExpiration q \<in> expiration ` set (timeouts q)"
    using assms(2) by (cases "timeouts q") (simp_all add: NextExpiration_def)
qed (use NextExpiration_le [OF assms(1)] in auto)

lemma NextExpiration_filter:
  assumes "wf_events (timeouts q)" "timeouts q' = filter P (timeouts q)"
  shows "NextExpiration q' < INT64_MAX \<Longrightarrow> NextExpiration q \<le> NextExpiration q'"
proof (cases "timeouts q'")
  case (Cons e es)
  then have "e \<in> set (timeouts q)" using assms(2) by (metis filter_is_subset list.set_intros(1) subsetD)
  then show ?thesis using NextExpiration_le [OF assms(1)] Cons by (simp add: NextExpiration_def)
qed (simp add: NextExpiration_def)

lemma AddInLoop_wakeup:
  assumes "wakeup_pending q"
  shows "wakeup_pending (AddInLoop clock q e)"
proof (cases "expiration e < NextExpiration q")
  case True
  then show ?thesis by (simp add: wakeup_pending_def AddInLoop_def Let_def NextExpiration_def)
next
  case False
  then have "NextExpiration (AddInLoop clock q e) = NextExpiration q \<or>
    NextExpiration (AddInLoop clock q e) = expiration e \<and> timeouts q = []"
    by (cases "timeouts q") (auto simp: NextExpiration_def timeouts_insert_def)
  with False show ?thesis
    using assms by (auto simp: wakeup_pending_def AddInLoop_def NextExpiration_def)
qed

lemma exec_op_wakeup:
  assumes "wf_events (timeouts q)" "wakeup_pending q"
  shows "wakeup_pending (exec_op clock q oper)"
proof (cases oper)
  case (Op_Cancel i)
  then show ?thesis
    using assms NextExpiration_filter [OF assms(1), of "CancelInLoop q i"]
    by (force simp: wakeup_pending_def)
next
  case (Op_Add t cb)
  moreover have "wakeup_pending (q\<lparr>next_id := n\<rparr>)" for n
    using assms(2) by (simp add: wakeup_pending_def NextExpiration_def)
  ultimately show ?thesis by (simp add: add_defs AddInLoop_wakeup)
next
  case (Op_AddRepeating t i cb)
  moreover have "wakeup_pending (q\<lparr>next_id := n\<rparr>)" for n
    using assms(2) by (simp add: wakeup_pending_def NextExpiration_def)
  ultimately show ?thesis by (simp add: add_defs AddInLoop_wakeup)
qed

lemma OnTimer_wakeup: "wakeup_pending (OnTimer clock q)"
  by (simp add: wakeup_pending_def OnTimer_simps(2))

lemma queue_step_inv:
  "queue_step clock q q' \<Longrightarrow> wf_events (timeouts q) \<and> wakeup_pending q
   \<Longrightarrow> wf_events (timeouts q') \<and> wakeup_pending q'"
  by (erule queue_stepE) (simp_all add: exec_op_wf exec_op_wakeup OnTimer_wf OnTimer_wakeup)

text \<open>
  C1: whatever operations clients, callbacks and timer expirations perform and however the wall clock
  moves, the queue keeps its events sorted by expiration with distinct ids, and no wake-up is
  lost: as long as an event is pending (before the end of time, \<open>INT64_MAX\<close>), the timer
  descriptor was last armed for a time no later than that event's expiration.
\<close>
theorem TimeoutQueue_no_lost_wakeup:
  assumes "queue_reachable clock q"
  shows "wf_events (timeouts q) \<and>
    (\<forall>e \<in> set (timeouts q). expiration e < INT64_MAX \<longrightarrow> (\<exists>t. armed_for q = Some t \<and> t \<le> expiration e))"
proof -
  have inv: "wf_events (timeouts q) \<and> wakeup_pending q"
    using assms
  proof induction
    case reach_new
    then show ?case by (simp add: TimeoutQueue_new_def wf_events_def wakeup_pending_def NextExpiration_def)
  qed (rule queue_step_inv)
  then have "NextExpiration q \<le> expiration e" if "e \<in> set (timeouts q)" for e
    using that by (simp add: NextExpiration_le)
  with inv show ?thesis by (fastforce simp: wakeup_pending_def)
qed

lemma TimeoutQueue_no_lost_wakeup_witness:
  "let q = exec_op (\<lambda>_. 10) TimeoutQueue_new (Op_Add 500 (Callback 1 [])) in
   queue_reachable (\<lambda>_. 10) q \<and> wf_events (timeouts q) \<and> timeouts q \<noteq> [] \<and> armed_for q = Some 500 \<and>
   (\<forall>e \<in> set (timeouts q). expiration e < INT64_MAX \<longrightarrow> (\<exists>t. armed_for q = Some t \<and> t \<le> expiration e))"
proof -
  have r: "queue_reachable (\<lambda>_. 10) (exec_op (\<lambda>_. 10) TimeoutQueue_new (Op_Add 500 (Callback 1 [])))"
    by (rule reach_step [OF reach_new step_op])
  from TimeoutQueue_no_lost_wakeup [OF r] r show ?thesis
    by (simp add: Let_def add_defs TimeoutQueue_new_def AddInLoop_def NextExpiration_def
        ResetTimerfd_def read_clock_def timeouts_insert_def)
qed

subsection \<open>What a run does\<close>

lemma mset_reinserts:
  assumes "distinct (map ev_id es @ map ev_id ds)"
  shows "mset (foldl (reinsert now) es ds) =
     mset es + mset (map (\<lambda>e. e\<lparr>expiration := i64 (now + repeat_interval e)\<rparr>) (filter (\<lambda>e. 0 \<le> repeat_interval e) ds))"
  using assms
proof (induction ds arbitrary: es)
  case (Cons d ds)
  let ?d = "d\<lparr>expiration := i64 (now + repeat_interval d)\<rparr>"
  have ins: "reinsert now es d = (if 0 \<le> repeat_interval d then insert_by_expiration ?d es else es)"
    using Cons.prems by (auto simp: reinsert_def timeouts_insert_def)
  have "distinct (map ev_id (reinsert now es d) @ map ev_id ds)"
    using Cons.prems by (auto simp: ins distinct_insert_by)
  from Cons.IH [OF this] show ?case by (simp add: ins mset_insert_by)
qed simp

lemma passive_callbacks_timeouts:
  "\<forall>e \<in> set es. cb_ops (ev_callback e) = [] \<Longrightarrow>
   timeouts (foldl (\<lambda>q e. run_callback clock q (ev_callback e)) q es) = timeouts q"
  by (induction es arbitrary: q) (simp_all add: run_callback_def)

text \<open>
  C2: \<open>Run(now)\<close> fires exactly the events that are due at \<open>now\<close>, each one once and in the order
  of their expirations, whatever their callbacks do to the queue while they run.
\<close>
theorem Run_fires_due:
  assumes "wf_events (timeouts q)"
  shows "fired (fst (TimeoutQueue_Run clock q now)) =
     fired q @ map (cb_tag \<circ> ev_callback) (filter (\<lambda>e. expiration e \<le> now) (timeouts q))"
  using split_due(1) [OF assms] by (simp add: TimeoutQueue_Run_def Let_def run_callbacks_fired)

lemma Run_fires_due_witness:
  "wf_events (timeouts demo_queue) \<and> fired (fst (TimeoutQueue_Run (\<lambda>_. 100) demo_queue 100)) = [7, 7]"
  using Run_fires_due [OF demo_queue_wf, of "\<lambda>_. 100" 100] demo_queue_wf
  by (simp add: demo_queue_def demo_event_def TimeoutQueue_new_def)

text \<open>
  When the callbacks leave the queue alone, after \<open>Run(now)\<close> the queue holds exactly the events
  that were not due, and every repeating event that was due again at \<open>now\<close> plus its interval;
  one-shot events are gone. The value returned is the least expiration left.
\<close>
theorem Run_remaining_events:
  assumes "wf_events (timeouts q)"
    and "\<forall>e \<in> set (timeouts q). cb_ops (ev_callback e) = []"
    and "TimeoutQueue_Run clock q now = (q', next)"
  shows "mset (timeouts q') = mset (filter (\<lambda>e. now < expiration e) (timeouts q)) +
      mset (map (\<lambda>e. e\<lparr>expiration := i64 (now + repeat_interval e)\<rparr>)
             (filter (\<lambda>e. expiration e \<le> now \<and> 0 \<le> repeat_interval e) (timeouts q)))
    \<and> (timeouts q' = [] \<longrightarrow> next = INT64_MAX) \<and> (timeouts q' \<noteq> [] \<longrightarrow> next = Min (expiration ` set (timeouts q')))"
proof -
  let ?due = "filter (\<lambda>e. expiration e \<le> now) (timeouts q)"
  let ?later = "filter (\<lambda>e. now < expiration e) (timeouts q)"
  have q': "timeouts q' = foldl (reinsert now) ?later ?due" and nx: "next = NextExpiration q'"
    using assms(3) passive_callbacks_timeouts [of ?due] assms(2)
    by (auto simp: TimeoutQueue_Run_def Let_def split_due [OF assms(1)])
  have "distinct (map ev_id ?later @ map ev_id ?due)"
    using assms(1) by (intro distinct_map_split) (auto simp: wf_events_def)
  from mset_reinserts [OF this] have "mset (timeouts q') = mset ?later +
      mset (map (\<lambda>e. e\<lparr>expiration := i64 (now + repeat_interval e)\<rparr>) (filter (\<lambda>e. 0 \<le> repeat_interval e) ?due))"
    by (simp add: q')
  moreover have "wf_events (timeouts q')" using Run_wf [OF assms(1), of clock now] assms(3) by simp
  then have "NextExpiration q' = Min (expiration ` set (timeouts q'))" if "timeouts q' \<noteq> []"
    using that NextExpiration_Min by blast
  ultimately show ?thesis
    by (simp add: nx NextExpiration_def conj_commute)
qed

text \<open>
  C23: cancelling the id that \<open>Add\<close> or \<open>AddRepeating\<close> returned gives back the events that were pending
  before, as long as the id counter has not come round to a pending id; until then the event is
  pending with the expiration asked for.
\<close>
theorem Cancel_undoes_Add:
  assumes "next_id q \<notin> ev_id ` set (timeouts q)"
    and "(i, q') = TimeoutQueue_Add clock q expire cb \<and> expected = expire \<or>
         (i, q') = TimeoutQueue_AddRepeating clock q now interval cb \<and> expected = i64 (now + interval)"
  shows "timeouts (CancelInLoop q' i) = timeouts q \<and>
    (\<exists>e \<in> set (timeouts q'). ev_id e = i \<and> expiration e = expected \<and> ev_callback e = cb)"
proof -
  have "filter (\<lambda>x. ev_id x \<noteq> i) (insert_by_expiration e es) = es" if "ev_id e = i" "i \<notin> ev_id ` set es" for i e es
    using that by (induction es) (auto simp: image_iff intro!: filter_True)
  then show ?thesis using assms by (auto simp: add_defs timeouts_insert_def)
qed

lemma Cancel_undoes_Add_witness:
  "timeouts (CancelInLoop (snd (TimeoutQueue_Add (\<lambda>_. 100) demo_queue 150 (Callback 8 []))) 4) = timeouts demo_queue"
  using Cancel_undoes_Add [of demo_queue 4 "snd (TimeoutQueue_Add (\<lambda>_. 100) demo_queue 150 (Callback 8 []))" "\<lambda>_. 100" 150 "Callback 8 []" 150]
  by (simp add: demo_queue_def demo_event_def add_defs)

text \<open>
  The timer is never armed with the zero \<open>timespec\<close> (which would disarm it): the relative time
  is a valid \<open>timespec\<close>, is the exact distance to the expiration when that is at least 100
  microseconds, and 100 microseconds otherwise, as long as the distance fits an \<open>int64_t\<close>.
\<close>
theorem HowMuchTimeFromNow_exact:
  assumes "is_i64 (expire - now)" and "HowMuchTimeFromNow expire now = (sec, nsec)"
  shows "0 \<le> sec \<and> 0 \<le> nsec \<and> nsec < 1000000000 \<and> (sec, nsec) \<noteq> (0, 0) \<and>
     sec * 1000000000 + nsec = max 100 (expire - now) * 1000"
proof -
  define d where "d = max 100 (expire - now)"
  have d: "100 \<le> d" "d \<le> INT64_MAX" using assms(1) by (auto simp: d_def is_i64_def)
  have sec: "sec = d div 1000000" and n: "nsec = i64 (d mod 1000000 * 1000)"
    using assms d by (auto simp: HowMuchTimeFromNow_def Let_def d_def max_def signed_divide_int_def
        signed_modulo_int_def kMicroSecondsPerSecond_def sgn_if minus_mult_div_eq_mod [symmetric])
  have "0 \<le> d mod 1000000" "d mod 1000000 < 1000000" by simp_all
  then have nsec: "nsec = d mod 1000000 * 1000" unfolding n by (intro i64_id) linarith+
  have eq: "d = sec * 1000000 + d mod 1000000" using sec by simp
  have "0 \<le> sec" "0 \<le> nsec" "nsec < 1000000000"
    using d by (simp_all add: sec nsec pos_imp_zdiv_nonneg_iff)
  moreover have "sec * 1000000000 + nsec = d * 1000" using eq nsec by linarith
  ultimately show ?thesis unfolding d_def [symmetric] using d by auto
qed

end
