(* ===== verification/Loops.thy ===== *)
theory Loops
  imports Timeouts
begin

text \<open>
  The reactor: \<^verbatim>\<open>events/EventLoop.h,.cc\<close> and the round-robin pool of
  \<^verbatim>\<open>events/EventLoopThreadPool.h,.cc\<close>.

  A task is a tag and what it does to the loop when it runs: post, run or quit. \<open>el_ran\<close> records the
  tasks that ran with the trace context they ran under; \<open>el_wakeups\<close> is the value of the eventfd.
  The loop is a transition system whose program counter is inside \<open>EventLoop::loop\<close>: polling,
  dispatching the active channels, or draining the tasks swapped out of \<open>pending_tasks_\<close>. Other
  threads post in two steps, the push under the mutex and the write to the eventfd, which
  interleave with the loop's steps in any way. \<open>el_posted\<close> is the history of what was posted.
  The channels and what guards their dispatch are in \<open>Reactor\<close>.
\<close>

subsection \<open>State and operations\<close>

datatype task = Task nat "task_op list"
  and task_op = Do_Post task | Do_Run task | Do_Quit

type_synonym trace_context = "int \<times> int"
type_synonym entry = "trace_context \<times> task"

record event_loop =
  el_looping :: bool
  el_quit :: bool
  el_tid :: nat
  el_current :: "nat option"
  el_pending :: "entry list"
  el_wakeups :: nat
  el_context :: trace_context
  el_ran :: "(trace_context \<times> nat) list"
  el_posted :: "entry list"

definition EventLoop_new :: "nat \<Rightarrow> event_loop" where
  "EventLoop_new tid = \<lparr>el_looping = False, el_quit = False, el_tid = tid, el_current = None, el_pending = [],
     el_wakeups = 0, el_context = (0, 0), el_ran = [], el_posted = []\<rparr>"

definition IsInLoopThread :: "event_loop \<Rightarrow> nat \<Rightarrow> bool" where
  "IsInLoopThread el tid \<longleftrightarrow> el_tid el = tid"

definition Wakeup :: "event_loop \<Rightarrow> event_loop" where
  "Wakeup el = el\<lparr>el_wakeups := el_wakeups el + 1\<rparr>"

definition OnWakeup :: "event_loop \<Rightarrow> event_loop" where
  "OnWakeup el = el\<lparr>el_wakeups := 0\<rparr>"

definition push_task :: "event_loop \<Rightarrow> trace_context \<Rightarrow> task \<Rightarrow> event_loop" where
  "push_task el ctx task = el\<lparr>el_pending := el_pending el @ [(ctx, task)], el_posted := el_posted el @ [(ctx, task)]\<rparr>"

definition EventLoop_Post :: "event_loop \<Rightarrow> nat \<Rightarrow> trace_context \<Rightarrow> task \<Rightarrow> event_loop" where
  "EventLoop_Post el tid ctx task =
     (let el' = push_task el ctx task
      in if \<not> IsInLoopThread el' tid \<or> el_current el' = None then Wakeup el' else el')"

definition EventLoop_quit :: "event_loop \<Rightarrow> nat \<Rightarrow> event_loop" where
  "EventLoop_quit el tid =
     (let el' = el\<lparr>el_quit := True\<rparr> in if \<not> IsInLoopThread el' tid then Wakeup el' else el')"

fun exec_task :: "event_loop \<Rightarrow> task \<Rightarrow> event_loop"
and exec_task_ops :: "event_loop \<Rightarrow> task_op list \<Rightarrow> event_loop" where
  "exec_task el (Task tag ops) = exec_task_ops (el\<lparr>el_ran := el_ran el @ [(el_context el, tag)]\<rparr>) ops"
| "exec_task_ops el [] = el"
| "exec_task_ops el (Do_Post t # ops) = exec_task_ops (EventLoop_Post el (el_tid el) (el_context el) t) ops"
| "exec_task_ops el (Do_Run t # ops) = exec_task_ops (exec_task el t) ops"
| "exec_task_ops el (Do_Quit # ops) = exec_task_ops (EventLoop_quit el (el_tid el)) ops"

definition EventLoop_Run :: "event_loop \<Rightarrow> nat \<Rightarrow> trace_context \<Rightarrow> task \<Rightarrow> event_loop" where
  "EventLoop_Run el tid ctx task = (if IsInLoopThread el tid then exec_task el task else EventLoop_Post el tid ctx task)"

definition run_entry :: "event_loop \<Rightarrow> entry \<Rightarrow> event_loop" where
  "run_entry el e = (exec_task (el\<lparr>el_context := fst e\<rparr>) (snd e))\<lparr>el_context := (0, 0)\<rparr>"

definition RunPendingTasks :: "event_loop \<Rightarrow> event_loop" where
  "RunPendingTasks el = foldl run_entry (el\<lparr>el_pending := []\<rparr>) (el_pending el)"

subsection \<open>Timers of a loop\<close>

definition EventLoop_RunAt :: "(nat \<Rightarrow> int) \<Rightarrow> timeout_queue \<Rightarrow> timestamp \<Rightarrow> callback \<Rightarrow> timer_id \<times> timeout_queue" where
  "EventLoop_RunAt clock q time cb =
     (let (i, q') = TimeoutQueue_Add clock q (microseconds_since_epoch time) cb in (TimerId_of i, q'))"

definition EventLoop_RunAfter :: "(nat \<Rightarrow> int) \<Rightarrow> timeout_queue \<Rightarrow> int \<Rightarrow> callback \<Rightarrow> timer_id \<times> timeout_queue" where
  "EventLoop_RunAfter clock q delay_in_milliseconds cb =
     (let (now, q') = read_clock clock q
      in EventLoop_RunAt clock q' (AddTime (Timestamp_of now) (i32 (delay_in_milliseconds * 1000))) cb)"

definition EventLoop_RunEvery :: "(nat \<Rightarrow> int) \<Rightarrow> timeout_queue \<Rightarrow> int \<Rightarrow> callback \<Rightarrow> timer_id \<times> timeout_queue" where
  "EventLoop_RunEvery clock q interval_in_milliseconds cb =
     (let (now, q') = read_clock clock q;
          (i, q'') = TimeoutQueue_AddRepeating clock q' now (i32 (interval_in_milliseconds * 1000)) cb
      in (TimerId_of i, q''))"

definition EventLoop_Cancel :: "timeout_queue \<Rightarrow> timer_id \<Rightarrow> timeout_queue" where
  "EventLoop_Cancel q i = CancelInLoop q (id_val i)"

subsection \<open>The loop as a transition system\<close>

datatype loop_pc = Polling | Dispatching "nat list" | Draining "entry list" | Stopped

record loop_state =
  ls_loop :: event_loop
  ls_pc :: loop_pc
  ls_wakers :: nat
  ls_done :: "entry list"

text \<open>
  \<open>handler p\<close> is the task a channel's callbacks amount to, \<open>prio p\<close> its priority and \<open>wake_channel\<close> the
  channel of the eventfd. The order of channels of equal priority is left open, as \<open>std::sort\<close> does.
\<close>

inductive loop_step ::
  "(nat \<Rightarrow> task) \<Rightarrow> (nat \<Rightarrow> int) \<Rightarrow> nat \<Rightarrow> loop_state \<Rightarrow> loop_state \<Rightarrow> bool" for handler prio wake_channel where
  l_poll: "ls_pc s = Polling \<Longrightarrow> \<not> el_quit (ls_loop s) \<Longrightarrow> sorted_wrt (\<lambda>a b. prio b \<le> prio a) active \<Longrightarrow>
     loop_step handler prio wake_channel s (s\<lparr>ls_pc := Dispatching active\<rparr>)"
| l_stop: "ls_pc s = Polling \<Longrightarrow> el_quit (ls_loop s) \<Longrightarrow>
     loop_step handler prio wake_channel s (s\<lparr>ls_loop := (ls_loop s)\<lparr>el_looping := False\<rparr>, ls_pc := Stopped\<rparr>)"
| l_wakeup: "ls_pc s = Dispatching (p # ps) \<Longrightarrow> p = wake_channel \<Longrightarrow>
     loop_step handler prio wake_channel s (s\<lparr>ls_loop := OnWakeup ((ls_loop s)\<lparr>el_current := Some p\<rparr>), ls_pc := Dispatching ps\<rparr>)"
| l_channel: "ls_pc s = Dispatching (p # ps) \<Longrightarrow> p \<noteq> wake_channel \<Longrightarrow>
     loop_step handler prio wake_channel s (s\<lparr>ls_loop := exec_task ((ls_loop s)\<lparr>el_current := Some p\<rparr>) (handler p), ls_pc := Dispatching ps\<rparr>)"
| l_swap: "ls_pc s = Dispatching [] \<Longrightarrow>
     loop_step handler prio wake_channel s (s\<lparr>ls_loop := (ls_loop s)\<lparr>el_current := None, el_pending := []\<rparr>,
       ls_pc := Draining (el_pending (ls_loop s))\<rparr>)"
| l_drain: "ls_pc s = Draining (e # es) \<Longrightarrow>
     loop_step handler prio wake_channel s (s\<lparr>ls_loop := run_entry (ls_loop s) e, ls_pc := Draining es, ls_done := ls_done s @ [e]\<rparr>)"
| l_next: "ls_pc s = Draining [] \<Longrightarrow> loop_step handler prio wake_channel s (s\<lparr>ls_pc := Polling\<rparr>)"
| t_push: "loop_step handler prio wake_channel s (s\<lparr>ls_loop := push_task (ls_loop s) ctx task, ls_wakers := ls_wakers s + 1\<rparr>)"
| t_wake: "0 < ls_wakers s \<Longrightarrow>
     loop_step handler prio wake_channel s (s\<lparr>ls_loop := Wakeup (ls_loop s), ls_wakers := ls_wakers s - 1\<rparr>)"
| t_quit: "loop_step handler prio wake_channel s (s\<lparr>ls_loop := Wakeup ((ls_loop s)\<lparr>el_quit := True\<rparr>)\<rparr>)"

definition loop_init :: "nat \<Rightarrow> loop_state" where
  "loop_init tid = \<lparr>ls_loop = (EventLoop_new tid)\<lparr>el_looping := True\<rparr>, ls_pc = Polling, ls_wakers = 0, ls_done = []\<rparr>"

inductive loop_reachable :: "(nat \<Rightarrow> task) \<Rightarrow> (nat \<Rightarrow> int) \<Rightarrow> nat \<Rightarrow> nat \<Rightarrow> loop_state \<Rightarrow> bool"
  for handler prio wake_channel tid where
  loop_reach_init: "loop_reachable handler prio wake_channel tid (loop_init tid)"
| loop_reach_step: "loop_reachable handler prio wake_channel tid s \<Longrightarrow> loop_step handler prio wake_channel s s' \<Longrightarrow>
     loop_reachable handler prio wake_channel tid s'"

fun draining :: "loop_pc \<Rightarrow> entry list" where
  "draining (Draining es) = es"
| "draining _ = []"

fun dispatching :: "loop_pc \<Rightarrow> bool" where
  "dispatching (Dispatching ps) = True"
| "dispatching _ = False"

subsection \<open>What running a task does\<close>

lemma exec_frame:
  "(\<exists>new. el_pending (exec_task el t) = el_pending el @ new \<and> el_posted (exec_task el t) = el_posted el @ new) \<and>
   el_current (exec_task el t) = el_current el \<and> el_tid (exec_task el t) = el_tid el \<and>
   el_context (exec_task el t) = el_context el \<and> el_wakeups el \<le> el_wakeups (exec_task el t) \<and>
   (el_current el = None \<longrightarrow> el_pending (exec_task el t) = el_pending el \<or> 0 < el_wakeups (exec_task el t))"
  "(\<exists>new. el_pending (exec_task_ops el ops) = el_pending el @ new \<and> el_posted (exec_task_ops el ops) = el_posted el @ new) \<and>
   el_current (exec_task_ops el ops) = el_current el \<and> el_tid (exec_task_ops el ops) = el_tid el \<and>
   el_context (exec_task_ops el ops) = el_context el \<and> el_wakeups el \<le> el_wakeups (exec_task_ops el ops) \<and>
   (el_current el = None \<longrightarrow> el_pending (exec_task_ops el ops) = el_pending el \<or> 0 < el_wakeups (exec_task_ops el ops))"
proof (induction el t and el ops rule: exec_task_exec_task_ops.induct)
  case (3 el t ops)
  then show ?case by (force simp: EventLoop_Post_def push_task_def Wakeup_def Let_def IsInLoopThread_def split: if_splits)
next
  case (4 el t ops)
  then show ?case by (force split: if_splits)
next
  case (5 el ops)
  then show ?case by (simp add: EventLoop_quit_def IsInLoopThread_def Let_def)
qed simp_all

lemma run_entry_frame:
  "(\<exists>new. el_pending (run_entry el e) = el_pending el @ new \<and> el_posted (run_entry el e) = el_posted el @ new) \<and>
   el_current (run_entry el e) = el_current el \<and> el_wakeups el \<le> el_wakeups (run_entry el e) \<and>
   (el_current el = None \<longrightarrow> el_pending (run_entry el e) = el_pending el \<or> 0 < el_wakeups (run_entry el e))"
  using exec_frame(1) [of "el\<lparr>el_context := fst e\<rparr>" "snd e"] by (simp add: run_entry_def)

definition loop_inv :: "loop_state \<Rightarrow> bool" where
  "loop_inv s \<longleftrightarrow>
     el_posted (ls_loop s) = ls_done s @ draining (ls_pc s) @ el_pending (ls_loop s) \<and>
     (\<not> dispatching (ls_pc s) \<longrightarrow> el_current (ls_loop s) = None \<and>
        (el_pending (ls_loop s) \<noteq> [] \<longrightarrow> 0 < el_wakeups (ls_loop s) \<or> 0 < ls_wakers s))"

lemma loop_inv_step:
  assumes "loop_step handler prio wake_channel s s'" "loop_inv s"
  shows "loop_inv s'"
  using assms
proof (induction rule: loop_step.induct)
  case (l_channel s p ps)
  then show ?case using exec_frame(1) [of "(ls_loop s)\<lparr>el_current := Some p\<rparr>" "handler p"]
    by (auto simp: loop_inv_def)
next
  case (l_drain s e es)
  then show ?case using run_entry_frame [of "ls_loop s" e] by (auto simp: loop_inv_def)
qed (auto simp: loop_inv_def OnWakeup_def Wakeup_def push_task_def)

lemma loop_reachable_inv: "loop_reachable handler prio wake_channel tid s \<Longrightarrow> loop_inv s"
proof (induction rule: loop_reachable.induct)
  case loop_reach_init
  then show ?case by (simp add: loop_inv_def loop_init_def EventLoop_new_def)
qed (rule loop_inv_step)


definition post_one :: "nat \<Rightarrow> loop_state" where
  "post_one tid = (loop_init tid)\<lparr>ls_loop := push_task (ls_loop (loop_init tid)) (7, 1) (Task 3 []), ls_wakers := 1\<rparr>"

lemma post_one_reachable: "loop_reachable handler prio wake_channel tid (post_one tid)"
  using loop_reach_step [OF loop_reach_init t_push [of handler prio wake_channel "loop_init tid" "(7, 1)" "Task 3 []"]]
  by (simp add: post_one_def loop_init_def)




text \<open>
  A round of pending tasks runs exactly the tasks that were pending when it began, in order and each
  under the trace context of the thread that posted it; tasks posted meanwhile wait for the
  next round, and the loop thread's context is reset afterwards.
\<close>
theorem RunPendingTasks_round:
  assumes "\<forall>(ctx, t) \<in> set (el_pending el). \<exists>tag posts. t = Task tag (map Do_Post posts)"
  shows "el_ran (RunPendingTasks el) = el_ran el @ map (\<lambda>(ctx, t). (ctx, case t of Task tag _ \<Rightarrow> tag)) (el_pending el) \<and>
     el_pending (RunPendingTasks el) =
       concat (map (\<lambda>(ctx, t). case t of Task _ ops \<Rightarrow> map (\<lambda>oper. (ctx, case oper of Do_Post u \<Rightarrow> u)) ops) (el_pending el)) \<and>
     (el_pending el \<noteq> [] \<longrightarrow> el_context (RunPendingTasks el) = (0, 0))"
proof -
  have posts: "el_ran (exec_task_ops el (map Do_Post ts)) = el_ran el \<and>
      el_pending (exec_task_ops el (map Do_Post ts)) = el_pending el @ map (Pair (el_context el)) ts" for el ts
    by (induction ts arbitrary: el)
      (simp_all add: EventLoop_Post_def push_task_def Wakeup_def Let_def)
  have entry: "el_ran (run_entry el (ctx, Task tag (map Do_Post ts))) = el_ran el @ [(ctx, tag)] \<and>
      el_pending (run_entry el (ctx, Task tag (map Do_Post ts))) = el_pending el @ map (Pair ctx) ts \<and>
      el_context (run_entry el (ctx, Task tag (map Do_Post ts))) = (0, 0)" for el ctx tag ts
    by (simp add: run_entry_def posts)
  have "el_ran (foldl run_entry el es) = el_ran el @ map (\<lambda>(ctx, t). (ctx, case t of Task tag _ \<Rightarrow> tag)) es \<and>
     el_pending (foldl run_entry el es) = el_pending el @
       concat (map (\<lambda>(ctx, t). case t of Task _ ops \<Rightarrow> map (\<lambda>oper. (ctx, case oper of Do_Post u \<Rightarrow> u)) ops) es) \<and>
     (es \<noteq> [] \<longrightarrow> el_context (foldl run_entry el es) = (0, 0))"
    if "\<forall>(ctx, t) \<in> set es. \<exists>tag posts. t = Task tag (map Do_Post posts)" for el es
    using that
  proof (induction es arbitrary: el)
    case (Cons e es)
    then obtain ctx tag ts where e: "e = (ctx, Task tag (map Do_Post ts))" by (cases e) auto
    have "\<forall>(ctx, t) \<in> set es. \<exists>tag posts. t = Task tag (map Do_Post posts)" using Cons.prems by auto
    from Cons.IH [OF this, of "run_entry el e"] show ?case using entry [of el ctx tag ts]
      by (cases es) (simp_all add: e o_def)
  qed simp
  from this [OF assms, of "el\<lparr>el_pending := []\<rparr>"] show ?thesis by (simp add: RunPendingTasks_def)
qed

subsection \<open>Timer arguments\<close>

text \<open>
  \<open>RunEvery\<close> and \<open>RunAfter\<close> take milliseconds: up to 2147483 ms the event is due that long after the
  clock reading; just above, the conversion to microseconds wraps and a repeating timer becomes an
  event that is due in the past and does not repeat.
\<close>
theorem RunEvery_interval:
  assumes "next_id q \<notin> ev_id ` set (timeouts q)" "is_i64 (clock (ticks q) + 2147483000)" "0 \<le> clock (ticks q)" "0 \<le> ms"
  shows "(ms \<le> 2147483 \<longrightarrow> (\<exists>e \<in> set (timeouts (snd (EventLoop_RunEvery clock q ms cb))). ev_id e = next_id q \<and>
            expiration e = clock (ticks q) + ms * 1000 \<and> repeat_interval e = ms * 1000)) \<and>
     (ms \<le> 2147483 \<longrightarrow> (\<exists>e \<in> set (timeouts (snd (EventLoop_RunAfter clock q ms cb))). ev_id e = next_id q \<and>
            expiration e = clock (ticks q) + ms * 1000)) \<and>
     (ms = 2147484 \<longrightarrow> (\<exists>e \<in> set (timeouts (snd (EventLoop_RunEvery clock q ms cb))). ev_id e = next_id q \<and>
            expiration e < clock (ticks q) \<and> repeat_interval e < 0))"
proof -
  have w: "i32 (ms * 1000) = ms * 1000" if "ms \<le> 2147483" using that assms(4) by (intro i32_id) auto
  have v: "i64 (clock (ticks q) + ms * 1000) = clock (ticks q) + ms * 1000" if "ms \<le> 2147483"
    using that assms(2-4) by (intro i64_id) (auto simp: is_i64_def)
  have o: "i32 2147484000 = - 2147483296" by (simp add: i32_def signed_take_bit_int_eq_self signed_take_bit_eq_take_bit_minus take_bit_eq_mod)
  have o2: "i64 (clock (ticks q) - 2147483296) = clock (ticks q) - 2147483296"
    using assms(2,3) by (intro i64_id) (auto simp: is_i64_def)
  show ?thesis
    using assms(1) w v o o2
    by (auto simp: EventLoop_RunEvery_def EventLoop_RunAfter_def EventLoop_RunAt_def read_clock_def add_defs
        timeouts_insert_def AddTime_def Timestamp_of_def)
qed

subsection \<open>Round robin\<close>

record loop_pool =
  lp_base :: nat
  lp_started :: bool
  lp_num_threads :: int
  lp_next :: int
  lp_loops :: "nat list"

definition LoopPool_new :: "nat \<Rightarrow> loop_pool" where
  "LoopPool_new base = \<lparr>lp_base = base, lp_started = False, lp_num_threads = 0, lp_next = 0, lp_loops = []\<rparr>"

definition LoopPool_set_num_threads :: "loop_pool \<Rightarrow> int \<Rightarrow> loop_pool" where
  "LoopPool_set_num_threads lp n = lp\<lparr>lp_num_threads := n\<rparr>"

text \<open>\<open>new_loops i\<close> is the loop that \<open>StartLoop\<close> of thread \<open>i\<close> returns; the result also lists the loops the callback sees.\<close>

definition LoopPool_Start :: "loop_pool \<Rightarrow> (nat \<Rightarrow> nat) \<Rightarrow> bool \<Rightarrow> (loop_pool \<times> nat list) result" where
  "LoopPool_Start lp new_loops has_callback =
     DCHECK (\<not> lp_started lp)
       (let n = nat (lp_num_threads lp); ls = map new_loops [0..<n]
        in Inr (lp\<lparr>lp_started := True, lp_loops := lp_loops lp @ ls\<rparr>,
                if has_callback then (if lp_num_threads lp = 0 then [lp_base lp] else ls) else []))"

definition NextLoop :: "loop_pool \<Rightarrow> (nat \<times> loop_pool) result" where
  "NextLoop lp =
     (if lp_loops lp \<noteq> [] then
        bindR (vec_get (lp_loops lp) (nat (lp_next lp))) (\<lambda>loop.
          let nx = lp_next lp + 1
          in Inr (loop, lp\<lparr>lp_next := (if int (length (lp_loops lp)) \<le> nx then 0 else nx)\<rparr>))
      else Inr (lp_base lp, lp))"

fun NextLoops :: "nat \<Rightarrow> loop_pool \<Rightarrow> (nat list \<times> loop_pool) result" where
  "NextLoops 0 lp = Inr ([], lp)"
| "NextLoops (Suc k) lp = bindR (NextLoop lp) (\<lambda>(l, lp). bindR (NextLoops k lp) (\<lambda>(ls, lp). Inr (l # ls, lp)))"

text \<open>
  After a start with threads, the \<open>k\<close>-th call of \<open>NextLoop\<close> returns loop \<open>k\<close> modulo the number of loops:
  the index never leaves the table and every loop is used once per round; without threads it is always
  the base loop.
\<close>
theorem NextLoop_round_robin:
  assumes "lp_next lp = 0"
  shows "\<exists>lp'. NextLoops k lp = Inr (map (\<lambda>i. if lp_loops lp = [] then lp_base lp else lp_loops lp ! (i mod length (lp_loops lp))) [0..<k], lp')"
proof (cases "lp_loops lp = []")
  case True
  have "\<exists>lp'. NextLoops k lp = Inr (replicate k (lp_base lp), lp')"
    using True by (induction k) (auto simp: NextLoop_def)
  then show ?thesis using True by (simp add: map_replicate_const)
next
  case False
  let ?n = "length (lp_loops lp)"
  have rr: "\<exists>lp'. NextLoops k (lp\<lparr>lp_next := int j\<rparr>) = Inr (map (\<lambda>i. lp_loops lp ! ((j + i) mod ?n)) [0..<k], lp')" if "j < ?n" for j k
    using that
  proof (induction k arbitrary: j)
    case (Suc k)
    define j' where "j' = (if ?n \<le> Suc j then 0 else Suc j)"
    have j': "j' < ?n" "(j' + i) mod ?n = (j + Suc i) mod ?n" for i
      using Suc.prems mod_add_self1 [of "Suc j" i] by (auto simp: j'_def le_Suc_eq)
    have "NextLoop (lp\<lparr>lp_next := int j\<rparr>) = Inr (lp_loops lp ! j, lp\<lparr>lp_next := int j'\<rparr>)"
      using Suc.prems False by (auto simp: NextLoop_def j'_def)
    then show ?case using Suc.IH [OF j'(1)] Suc.prems by (auto simp: j'(2) upt_conv_Cons map_Suc_upt [symmetric] o_def simp del: upt_Suc)
  qed simp
  have e: "lp\<lparr>lp_next := 0\<rparr> = lp" using assms by (cases lp) simp
  show ?thesis using rr [of 0 k] False by (simp add: e)
qed

end
