(* ===== verification/Logs.thy ===== *)
theory Logs
  imports Strings
begin

text \<open>
  Logging: \<^verbatim>\<open>logging/LogBuffer.h,.cc\<close>, \<^verbatim>\<open>logging/LogStream.h,.cc\<close> and the asynchronous double-buffered
  \<^verbatim>\<open>logging/Logger.h,.cc\<close>.

  A buffer is its capacity and the bytes below \<open>current_\<close>; a write past its end is the failure
  \<open>Out_Of_Bounds\<close>. The text of a double (\<open>%.12g\<close>) is an argument. The logger is a transition system:
  any thread appends under the mutex at any time, the logger thread alternates between the test of
  \<open>running_\<close>, the locked swap (after its wait, during which the mutex is free) and writing out, which touches only its
  own buffers; a \<open>BufferPtr\<close> that was moved from is \<open>None\<close>. \<open>lg_sent\<close> is the history of the
  messages appended, \<open>lg_output\<close> what reached the log file.
\<close>

subsection \<open>LogBuffer\<close>

definition kSmallBuffer :: nat where "kSmallBuffer = 4096"
definition kLargeBuffer :: nat where "kLargeBuffer = 4096 * 1000"

record log_buffer =
  lb_size :: nat
  lb_text :: string

definition LogBuffer_new :: "nat \<Rightarrow> log_buffer" where
  "LogBuffer_new n = \<lparr>lb_size = n, lb_text = ''''\<rparr>"

definition LogBuffer_avail :: "log_buffer \<Rightarrow> nat" where
  "LogBuffer_avail b = lb_size b - length (lb_text b)"

definition LogBuffer_Append :: "log_buffer \<Rightarrow> string \<Rightarrow> log_buffer" where
  "LogBuffer_Append b d =
     (if length d < LogBuffer_avail b then b\<lparr>lb_text := lb_text b @ d\<rparr>
      else if 0 < LogBuffer_avail b then b\<lparr>lb_text := lb_text b @ take (LogBuffer_avail b) d\<rparr>
      else b)"

definition LogBuffer_Reset :: "log_buffer \<Rightarrow> log_buffer" where
  "LogBuffer_Reset b = b\<lparr>lb_text := ''''\<rparr>"

text \<open>Writing \<open>s\<close> and \<open>extra\<close> more bytes (a terminating NUL) at \<open>current()\<close>, then \<open>Add(s)\<close>.\<close>

definition LogBuffer_write_Add :: "log_buffer \<Rightarrow> string \<Rightarrow> nat \<Rightarrow> log_buffer result" where
  "LogBuffer_write_Add b s extra =
     (if length s + extra \<le> LogBuffer_avail b then Inr (b\<lparr>lb_text := lb_text b @ s\<rparr>) else Inl Out_Of_Bounds)"

subsection \<open>LogStream\<close>

datatype LogFormat = kNormalFormat | kHexFormat

record log_stream =
  ls_buffer :: log_buffer
  ls_format :: LogFormat

definition kMaxNumericSize :: nat where "kMaxNumericSize = 32"

definition LogStream_new :: log_stream where
  "LogStream_new = \<lparr>ls_buffer = LogBuffer_new kSmallBuffer, ls_format = kNormalFormat\<rparr>"

definition LogStream_Append :: "log_stream \<Rightarrow> string \<Rightarrow> log_stream result" where
  "LogStream_Append s msg =
     (case ls_format s of
        kNormalFormat \<Rightarrow> Inr (s\<lparr>ls_buffer := LogBuffer_Append (ls_buffer s) msg\<rparr>)
      | kHexFormat \<Rightarrow> bindR (LogBuffer_write_Add (ls_buffer s) (HexString (LogBuffer_avail (ls_buffer s)) msg) 0)
                       (\<lambda>b. Inr (s\<lparr>ls_buffer := b\<rparr>)))"

definition LogStream_FormatInteger :: "log_stream \<Rightarrow> int \<Rightarrow> log_stream result" where
  "LogStream_FormatInteger s v =
     (if kMaxNumericSize \<le> LogBuffer_avail (ls_buffer s)
      then bindR (LogBuffer_write_Add (ls_buffer s) (IntToBuffer v) 1) (\<lambda>b. Inr (s\<lparr>ls_buffer := b\<rparr>))
      else Inr s)"

definition LogStream_pointer :: "log_stream \<Rightarrow> nat \<Rightarrow> log_stream result" where
  "LogStream_pointer s v =
     (if kMaxNumericSize \<le> LogBuffer_avail (ls_buffer s)
      then bindR (LogBuffer_write_Add (ls_buffer s) (''0x'' @ HexToBuffer v) 1) (\<lambda>b. Inr (s\<lparr>ls_buffer := b\<rparr>))
      else Inr s)"

definition LogStream_double :: "log_stream \<Rightarrow> string \<Rightarrow> log_stream result" where
  "LogStream_double s text =
     (if kMaxNumericSize \<le> LogBuffer_avail (ls_buffer s) then LogStream_Append s (take 31 text) else Inr s)"

definition LogStream_bool :: "log_stream \<Rightarrow> bool \<Rightarrow> log_stream" where
  "LogStream_bool s v = s\<lparr>ls_buffer := LogBuffer_Append (ls_buffer s) (if v then ''1'' else ''0'')\<rparr>"

definition LogStream_char :: "log_stream \<Rightarrow> char \<Rightarrow> log_stream" where
  "LogStream_char s v = s\<lparr>ls_buffer := LogBuffer_Append (ls_buffer s) [v]\<rparr>"

definition LogStream_ResetBuffer :: "log_stream \<Rightarrow> log_stream" where
  "LogStream_ResetBuffer s = s\<lparr>ls_format := kNormalFormat, ls_buffer := LogBuffer_Reset (ls_buffer s)\<rparr>"

datatype log_item =
    Put_bool bool | Put_char char | Put_int int | Put_pointer nat | Put_double string | Put_text string
  | Put_format LogFormat

fun LogStream_put :: "log_stream \<Rightarrow> log_item \<Rightarrow> log_stream result" where
  "LogStream_put s (Put_bool v) = Inr (LogStream_bool s v)"
| "LogStream_put s (Put_char v) = Inr (LogStream_char s v)"
| "LogStream_put s (Put_int v) = LogStream_FormatInteger s v"
| "LogStream_put s (Put_pointer v) = LogStream_pointer s v"
| "LogStream_put s (Put_double text) = LogStream_double s text"
| "LogStream_put s (Put_text msg) = LogStream_Append s msg"
| "LogStream_put s (Put_format f) = Inr (s\<lparr>ls_format := f\<rparr>)"

fun LogStream_puts :: "log_stream \<Rightarrow> log_item list \<Rightarrow> log_stream result" where
  "LogStream_puts s [] = Inr s"
| "LogStream_puts s (x # xs) = bindR (LogStream_put s x) (\<lambda>s. LogStream_puts s xs)"

subsection \<open>Logger\<close>

datatype logger_pc = At_Test | At_Swap | Writing | Finished

record logger =
  lg_running :: bool
  lg_current :: "log_buffer option"
  lg_next :: "log_buffer option"
  lg_buffers :: "log_buffer list"
  lg_buffer1 :: "log_buffer option"
  lg_buffer2 :: "log_buffer option"
  lg_to_write :: "log_buffer list"
  lg_pc :: logger_pc
  lg_output :: string
  lg_sent :: string
  lg_dropped :: bool

definition Logger_started :: logger where
  "Logger_started = \<lparr>lg_running = True, lg_current = Some (LogBuffer_new kLargeBuffer), lg_next = Some (LogBuffer_new kLargeBuffer),
     lg_buffers = [], lg_buffer1 = Some (LogBuffer_new kLargeBuffer), lg_buffer2 = Some (LogBuffer_new kLargeBuffer),
     lg_to_write = [], lg_pc = At_Test, lg_output = '''', lg_sent = '''', lg_dropped = False\<rparr>"

definition Logger_Append :: "logger \<Rightarrow> string \<Rightarrow> logger result" where
  "Logger_Append lg data =
     (case lg_current lg of None \<Rightarrow> Inl Dangling_Pointer
      | Some cur \<Rightarrow>
          let lg = lg\<lparr>lg_sent := lg_sent lg @ data\<rparr>
          in if length data < LogBuffer_avail cur then Inr (lg\<lparr>lg_current := Some (LogBuffer_Append cur data)\<rparr>)
             else
               let fresh = (case lg_next lg of Some b \<Rightarrow> b | None \<Rightarrow> LogBuffer_new kLargeBuffer)
               in Inr (lg\<lparr>lg_buffers := lg_buffers lg @ [cur], lg_next := None,
                          lg_current := Some (LogBuffer_Append fresh data)\<rparr>))"

definition Logger_Stop :: "logger \<Rightarrow> logger" where
  "Logger_Stop lg = lg\<lparr>lg_running := False\<rparr>"

definition Logger_test :: "logger \<Rightarrow> logger" where
  "Logger_test lg = lg\<lparr>lg_pc := if lg_running lg then At_Swap else Finished\<rparr>"

definition assert_empty :: "log_buffer option \<Rightarrow> bool" where
  "assert_empty b = (case b of None \<Rightarrow> False | Some x \<Rightarrow> length (lb_text x) = 0)"

definition Logger_swap :: "logger \<Rightarrow> logger result" where
  "Logger_swap lg =
     CHECK (assert_empty (lg_buffer1 lg)) (CHECK (assert_empty (lg_buffer2 lg)) (CHECK (lg_to_write lg = [])
       (case lg_current lg of None \<Rightarrow> Inl Dangling_Pointer
        | Some cur \<Rightarrow>
            let to_write = lg_buffers lg @ [cur];
                (nxt, b2) = (case lg_next lg of None \<Rightarrow> (lg_buffer2 lg, None) | Some b \<Rightarrow> (Some b, lg_buffer2 lg))
            in Inr (lg\<lparr>lg_to_write := to_write, lg_buffers := [], lg_current := lg_buffer1 lg, lg_buffer1 := None,
                       lg_next := nxt, lg_buffer2 := b2, lg_pc := Writing\<rparr>))))"

definition recycle :: "log_buffer option \<Rightarrow> log_buffer list \<Rightarrow> (log_buffer option \<times> log_buffer list) result" where
  "recycle b to_write =
     (case b of Some x \<Rightarrow> Inr (Some x, to_write)
      | None \<Rightarrow> CHECK (to_write \<noteq> []) (Inr (Some (LogBuffer_Reset (last to_write)), butlast to_write)))"

definition Logger_write :: "string \<Rightarrow> logger \<Rightarrow> logger result" where
  "Logger_write msg lg =
     CHECK (lg_to_write lg \<noteq> [])
       (let overload = 25 < length (lg_to_write lg);
            kept = (if overload then take 2 (lg_to_write lg) else lg_to_write lg);
            output = lg_output lg @ (if overload then msg else '''') @ concat (map lb_text kept);
            kept = take 2 kept
        in bindR (recycle (lg_buffer1 lg) kept) (\<lambda>(b1, kept).
           bindR (recycle (lg_buffer2 lg) kept) (\<lambda>(b2, kept).
           Inr (lg\<lparr>lg_output := output, lg_buffer1 := b1, lg_buffer2 := b2, lg_to_write := [],
                   lg_dropped := (lg_dropped lg \<or> overload),
                   lg_pc := At_Test\<rparr>))))"

inductive logger_step :: "logger \<Rightarrow> logger \<Rightarrow> bool" where
  lg_append: "length data < kLargeBuffer \<Longrightarrow> Logger_Append lg data = Inr lg' \<Longrightarrow> logger_step lg lg'"
| lg_stop: "logger_step lg (Logger_Stop lg)"
| lg_test: "lg_pc lg = At_Test \<Longrightarrow> logger_step lg (Logger_test lg)"
| lg_swap: "lg_pc lg = At_Swap \<Longrightarrow> Logger_swap lg = Inr lg' \<Longrightarrow> logger_step lg lg'"
| lg_write: "lg_pc lg = Writing \<Longrightarrow> Logger_write msg lg = Inr lg' \<Longrightarrow> logger_step lg lg'"

inductive logger_reachable :: "logger \<Rightarrow> bool" where
  logger_init: "logger_reachable Logger_started"
| logger_next: "logger_reachable lg \<Longrightarrow> logger_step lg lg' \<Longrightarrow> logger_reachable lg'"

subsection \<open>A stream never writes outside its buffer\<close>

definition wf_buffer :: "log_buffer \<Rightarrow> bool" where
  "wf_buffer b \<longleftrightarrow> length (lb_text b) \<le> lb_size b"

lemma wf_LogBuffer_Append [intro]: "wf_buffer b \<Longrightarrow> wf_buffer (LogBuffer_Append b d)"
  by (auto simp: wf_buffer_def LogBuffer_Append_def LogBuffer_avail_def)

lemma LogBuffer_Append_size [simp]: "lb_size (LogBuffer_Append b d) = lb_size b"
  by (simp add: LogBuffer_Append_def)

lemma LogBuffer_Append_fits: "length d \<le> LogBuffer_avail b \<Longrightarrow> lb_text (LogBuffer_Append b d) = lb_text b @ d"
  by (auto simp: LogBuffer_Append_def)

lemma LogBuffer_write_Add_ok:
  assumes "wf_buffer b" "length s + extra \<le> LogBuffer_avail b"
  shows "LogBuffer_write_Add b s extra = Inr (b\<lparr>lb_text := lb_text b @ s\<rparr>)" "wf_buffer (b\<lparr>lb_text := lb_text b @ s\<rparr>)"
  using assms by (auto simp: LogBuffer_write_Add_def wf_buffer_def LogBuffer_avail_def)


lemma hex_text_length: "n < 16 ^ Suc k \<Longrightarrow> length (HexToBuffer n) \<le> Suc k"
proof (induction k arbitrary: n)
  case 0
  then have "n div 16 = 0" by simp
  then show ?case by (simp add: HexToBuffer_def HexToBuffer_loop.simps [of n])
next
  case (Suc k)
  then have "n div 16 < 16 ^ Suc k" by (simp add: less_mult_imp_div_less)
  from Suc.IH [OF this] show ?case by (simp add: HexToBuffer_def HexToBuffer_loop.simps [of n])
qed


fun item_in_range :: "log_item \<Rightarrow> bool" where
  "item_in_range (Put_int v) = (INT64_MIN \<le> v \<and> v < 2 ^ 64)"
| "item_in_range (Put_pointer v) = (v < 2 ^ 64)"
| "item_in_range _ = True"

lemma LogStream_Append_ok:
  assumes "wf_buffer (ls_buffer s)"
  shows "\<exists>s'. LogStream_Append s msg = Inr s' \<and> wf_buffer (ls_buffer s') \<and> lb_size (ls_buffer s') = lb_size (ls_buffer s)"
proof (cases "ls_format s")
  case kNormalFormat
  then show ?thesis using assms by (auto simp: LogStream_Append_def)
next
  case kHexFormat
  then show ?thesis
    using LogBuffer_write_Add_ok [OF assms, of "HexString (LogBuffer_avail (ls_buffer s)) msg" 0]
    by (simp add: LogStream_Append_def hex_dump_bounded)
qed

lemma LogStream_put_ok:
  assumes "wf_buffer (ls_buffer s)" "item_in_range x"
  shows "\<exists>s'. LogStream_put s x = Inr s' \<and> wf_buffer (ls_buffer s') \<and> lb_size (ls_buffer s') = lb_size (ls_buffer s)"
proof (cases x)
  case (Put_int v)
  then show ?thesis
    using assms int_text_short [of v] LogBuffer_write_Add_ok [OF assms(1), of "IntToBuffer v" 1]
    by (simp add: LogStream_FormatInteger_def kMaxNumericSize_def)
next
  case (Put_pointer v)
  then show ?thesis
    using assms hex_text_length [of v 15] LogBuffer_write_Add_ok [OF assms(1), of "''0x'' @ HexToBuffer v" 1]
    by (simp add: LogStream_pointer_def kMaxNumericSize_def)
next
  case (Put_double t)
  then show ?thesis using assms LogStream_Append_ok [OF assms(1)] by (simp add: LogStream_double_def)
next
  case (Put_text t)
  then show ?thesis using LogStream_Append_ok [OF assms(1)] by simp
qed (use assms in \<open>auto simp: LogStream_bool_def LogStream_char_def\<close>)

text \<open>
  C40: whatever is streamed into a \<open>LogStream\<close>, in whatever order, the 4096-byte buffer is never
  overrun, the terminating NULs of the integer conversions included; text that does not fit is
  cut and a number that might not fit is left out.
\<close>
theorem LogStream_bounded:
  assumes "\<forall>x \<in> set xs. item_in_range x"
  shows "\<exists>s'. LogStream_puts LogStream_new xs = Inr s' \<and> length (lb_text (ls_buffer s')) \<le> kSmallBuffer"
proof -
  have "\<exists>s'. LogStream_puts s xs = Inr s' \<and> wf_buffer (ls_buffer s') \<and> lb_size (ls_buffer s') = lb_size (ls_buffer s)"
    if "wf_buffer (ls_buffer s)" for s
    using that assms
  proof (induction xs arbitrary: s)
    case (Cons x xs)
    then obtain s1 where s1: "LogStream_put s x = Inr s1" "wf_buffer (ls_buffer s1)" "lb_size (ls_buffer s1) = lb_size (ls_buffer s)"
      using LogStream_put_ok [of s x] by auto
    from Cons.IH [OF s1(2)] Cons.prems s1 show ?case by auto
  qed simp
  from this [of LogStream_new] show ?thesis
    by (auto simp: LogStream_new_def LogBuffer_new_def wf_buffer_def)
qed

lemma LogStream_bounded_witness:
  "\<exists>s'. LogStream_puts LogStream_new [Put_text ''x = '', Put_int (-5), Put_format kHexFormat, Put_text ''ab'', Put_pointer 255] = Inr s' \<and>
     length (lb_text (ls_buffer s')) \<le> kSmallBuffer"
  using LogStream_bounded [of "[Put_text ''x = '', Put_int (-5), Put_format kHexFormat, Put_text ''ab'', Put_pointer 255]"] by simp

subsection \<open>The double buffering\<close>

definition large_empty :: "log_buffer option \<Rightarrow> bool" where
  "large_empty b \<longleftrightarrow> b = Some (LogBuffer_new kLargeBuffer)"

definition logger_inv :: "logger \<Rightarrow> bool" where
  "logger_inv lg \<longleftrightarrow>
     (\<exists>cur. lg_current lg = Some cur \<and> wf_buffer cur \<and> lb_size cur = kLargeBuffer) \<and>
     (\<forall>b \<in> set (lg_buffers lg @ lg_to_write lg). lb_size b = kLargeBuffer) \<and>
     (lg_next lg = None \<and> lg_buffers lg \<noteq> [] \<or> large_empty (lg_next lg)) \<and>
     (lg_pc lg \<noteq> Writing \<longrightarrow> large_empty (lg_buffer1 lg) \<and> large_empty (lg_buffer2 lg) \<and> lg_to_write lg = []) \<and>
     (lg_pc lg = Writing \<longrightarrow> lg_buffer1 lg = None \<and> lg_to_write lg \<noteq> [] \<and>
        (large_empty (lg_buffer2 lg) \<or> lg_buffer2 lg = None \<and> 2 \<le> length (lg_to_write lg))) \<and>
     (\<not> lg_dropped lg \<longrightarrow> lg_sent lg = lg_output lg @ concat (map lb_text (lg_to_write lg)) @
        concat (map lb_text (lg_buffers lg)) @ (case lg_current lg of Some cur \<Rightarrow> lb_text cur | None \<Rightarrow> ''''))"

lemma Logger_Append_inv:
  assumes "logger_inv lg" "length data < kLargeBuffer"
  shows "\<exists>lg'. Logger_Append lg data = Inr lg' \<and> logger_inv lg'"
proof -
  obtain cur where cur: "lg_current lg = Some cur" "wf_buffer cur" "lb_size cur = kLargeBuffer"
    using assms(1) by (auto simp: logger_inv_def)
  define fresh where "fresh = (case lg_next lg of Some b \<Rightarrow> b | None \<Rightarrow> LogBuffer_new kLargeBuffer)"
  have fresh: "fresh = LogBuffer_new kLargeBuffer"
    using assms(1) by (auto simp: logger_inv_def large_empty_def fresh_def)
  have f: "wf_buffer (LogBuffer_Append fresh data)" "lb_text (LogBuffer_Append fresh data) = data"
    using LogBuffer_Append_fits [of data fresh] assms(2)
    by (auto simp: fresh LogBuffer_new_def wf_buffer_def LogBuffer_avail_def)
  show ?thesis
  proof (cases "length data < LogBuffer_avail cur")
    case True
    then have "lb_text (LogBuffer_Append cur data) = lb_text cur @ data" by (simp add: LogBuffer_Append_fits)
    with True cur assms(1) show ?thesis
      by (intro exI [of _ "lg\<lparr>lg_sent := lg_sent lg @ data, lg_current := Some (LogBuffer_Append cur data)\<rparr>"])
        (auto simp: Logger_Append_def logger_inv_def)
  next
    case False
    with cur assms(1) f fresh show ?thesis
      by (intro exI [of _ "lg\<lparr>lg_sent := lg_sent lg @ data, lg_buffers := lg_buffers lg @ [cur], lg_next := None,
            lg_current := Some (LogBuffer_Append fresh data)\<rparr>"])
        (auto simp: Logger_Append_def logger_inv_def Let_def fresh_def [symmetric] LogBuffer_new_def)
  qed
qed

lemma Logger_swap_inv:
  assumes "logger_inv lg" "lg_pc lg = At_Swap"
  shows "\<exists>lg'. Logger_swap lg = Inr lg' \<and> logger_inv lg'"
proof -
  obtain cur where cur: "lg_current lg = Some cur" "wf_buffer cur" "lb_size cur = kLargeBuffer"
    using assms(1) by (auto simp: logger_inv_def)
  have b: "lg_buffer1 lg = Some (LogBuffer_new kLargeBuffer)" "lg_buffer2 lg = Some (LogBuffer_new kLargeBuffer)" "lg_to_write lg = []"
    using assms by (auto simp: logger_inv_def large_empty_def)
  have e: "assert_empty (Some (LogBuffer_new kLargeBuffer))" "wf_buffer (LogBuffer_new kLargeBuffer)"
    "lb_size (LogBuffer_new kLargeBuffer) = kLargeBuffer" "lb_text (LogBuffer_new kLargeBuffer) = ''''"
    by (simp_all add: assert_empty_def LogBuffer_new_def wf_buffer_def)
  show ?thesis
  proof (cases "lg_next lg")
    case None
    then have "lg_buffers lg \<noteq> []" using assms(1) by (auto simp: logger_inv_def large_empty_def)
    then have "2 \<le> length (lg_buffers lg @ [cur])" by (cases "lg_buffers lg") auto
    with None cur b e assms show ?thesis by (auto simp: Logger_swap_def logger_inv_def large_empty_def)
  next
    case (Some n)
    with cur b e assms show ?thesis by (auto simp: Logger_swap_def logger_inv_def large_empty_def)
  qed
qed

lemma LogBuffer_Reset_new: "lb_size b = n \<Longrightarrow> LogBuffer_Reset b = LogBuffer_new n"
  by (cases b) (simp add: LogBuffer_Reset_def LogBuffer_new_def)

lemma recycle_to_write:
  assumes "to_write \<noteq> []" "\<forall>b \<in> set to_write. lb_size b = n"
    "b2 = Some (LogBuffer_new n) \<or> b2 = None \<and> 2 \<le> length to_write"
  shows "bindR (recycle None (take 2 to_write)) (\<lambda>(b1, kept). bindR (recycle b2 kept) (\<lambda>(b2, kept). f b1 b2)) =
         f (Some (LogBuffer_new n)) (Some (LogBuffer_new n))"
proof -
  consider x where "to_write = [x]" | x y rest where "to_write = x # y # rest"
    using assms(1) by (cases to_write; cases "tl to_write") auto
  then show ?thesis
    by cases (use assms in \<open>auto simp: recycle_def LogBuffer_Reset_new\<close>)
qed

definition written :: "string \<Rightarrow> logger \<Rightarrow> string" where
  "written msg lg = (if 25 < length (lg_to_write lg) then msg @ concat (map lb_text (take 2 (lg_to_write lg)))
                     else concat (map lb_text (lg_to_write lg)))"

lemma Logger_write_result:
  assumes "logger_inv lg" "lg_pc lg = Writing"
  shows "Logger_write msg lg =
    Inr (lg\<lparr>lg_output := lg_output lg @ written msg lg, lg_buffer1 := Some (LogBuffer_new kLargeBuffer),
            lg_buffer2 := Some (LogBuffer_new kLargeBuffer), lg_to_write := [],
            lg_dropped := (lg_dropped lg \<or> 25 < length (lg_to_write lg)), lg_pc := At_Test\<rparr>)"
proof -
  have w: "lg_buffer1 lg = None" "lg_to_write lg \<noteq> []" "\<forall>b \<in> set (lg_to_write lg). lb_size b = kLargeBuffer"
    "lg_buffer2 lg = Some (LogBuffer_new kLargeBuffer) \<or> lg_buffer2 lg = None \<and> 2 \<le> length (lg_to_write lg)"
    using assms by (auto simp: logger_inv_def large_empty_def)
  have t: "take 2 (if 25 < length (lg_to_write lg) then take 2 (lg_to_write lg) else lg_to_write lg) = take 2 (lg_to_write lg)"
    by simp
  show ?thesis unfolding Logger_write_def Let_def t w(1) recycle_to_write [OF w(2,3,4)]
    by (simp add: w(2) written_def)
qed

lemma Logger_write_inv:
  assumes "logger_inv lg" "lg_pc lg = Writing" "Logger_write msg lg = Inr lg'"
  shows "logger_inv lg'"
proof -
  have "lg' = lg\<lparr>lg_output := lg_output lg @ written msg lg, lg_buffer1 := Some (LogBuffer_new kLargeBuffer),
            lg_buffer2 := Some (LogBuffer_new kLargeBuffer), lg_to_write := [],
            lg_dropped := (lg_dropped lg \<or> 25 < length (lg_to_write lg)), lg_pc := At_Test\<rparr>"
    using assms Logger_write_result by simp
  then show ?thesis using assms(1) by (auto simp: logger_inv_def large_empty_def written_def)
qed

lemma logger_step_inv: "logger_step lg lg' \<Longrightarrow> logger_inv lg \<Longrightarrow> logger_inv lg'"
proof (induction rule: logger_step.induct)
  case (lg_append data lg lg')
  then show ?case using Logger_Append_inv by force
next
  case (lg_stop lg)
  then show ?case by (simp add: Logger_Stop_def logger_inv_def)
next
  case (lg_test lg)
  then show ?case by (simp add: Logger_test_def logger_inv_def)
next
  case (lg_swap lg lg')
  then show ?case using Logger_swap_inv by force
next
  case (lg_write lg msg lg')
  then show ?case using Logger_write_inv by blast
qed

lemma logger_reachable_inv: "logger_reachable lg \<Longrightarrow> logger_inv lg"
proof (induction rule: logger_reachable.induct)
  case logger_init
  then show ?case by (simp add: Logger_started_def logger_inv_def large_empty_def wf_buffer_def LogBuffer_new_def)
next
  case (logger_next lg lg')
  then show ?case using logger_step_inv by blast
qed

lemma logger_enabled_returns:
  assumes "logger_reachable lg"
  shows "length data < kLargeBuffer \<Longrightarrow> \<exists>lg'. Logger_Append lg data = Inr lg'"
    "lg_pc lg = At_Swap \<Longrightarrow> \<exists>lg'. Logger_swap lg = Inr lg'"
    "lg_pc lg = Writing \<Longrightarrow> \<exists>lg'. Logger_write msg lg = Inr lg' \<and> lg_to_write lg' = [] \<and>
       lg_buffer1 lg' = Some (LogBuffer_new kLargeBuffer) \<and> lg_buffer2 lg' = Some (LogBuffer_new kLargeBuffer)"
  using logger_reachable_inv [OF assms] Logger_Append_inv [of lg data] Logger_swap_inv [of lg] Logger_write_result [of lg msg]
  by auto

text \<open>
  Whatever the interleaving of appending threads, \<open>Stop\<close> and the logger thread, no
  assertion of \<open>ThreadMain\<close> fails and no moved-from buffer is dereferenced: each operation
  that is enabled returns, and the thread has its two spare buffers, empty, back at the top of its loop.
\<close>
theorem Logger_never_fails:
  assumes "logger_reachable lg"
  shows "(length data < kLargeBuffer \<longrightarrow> (\<exists>lg'. Logger_Append lg data = Inr lg')) \<and>
    (lg_pc lg = At_Swap \<longrightarrow> (\<exists>lg'. Logger_swap lg = Inr lg')) \<and>
    (lg_pc lg = Writing \<longrightarrow> (\<exists>lg'. Logger_write msg lg = Inr lg' \<and> lg_to_write lg' = [] \<and>
       lg_buffer1 lg' = Some (LogBuffer_new kLargeBuffer) \<and> lg_buffer2 lg' = Some (LogBuffer_new kLargeBuffer)))"
  using logger_enabled_returns [OF assms] by blast

lemma logger_prefix_and_flush:
  assumes "logger_reachable lg" "\<not> lg_dropped lg"
  shows "\<exists>rest. lg_sent lg = lg_output lg @ rest"
    "lg_pc lg = At_Swap \<Longrightarrow> length (lg_buffers lg) < 25 \<Longrightarrow>
       \<exists>lg' lg''. Logger_swap lg = Inr lg' \<and> Logger_write msg lg' = Inr lg'' \<and> lg_output lg'' = lg_sent lg \<and> \<not> lg_dropped lg''"
proof -
  note inv = logger_reachable_inv [OF assms(1)]
  show "\<exists>rest. lg_sent lg = lg_output lg @ rest" using inv assms(2) by (auto simp: logger_inv_def)
  assume sw: "lg_pc lg = At_Swap" "length (lg_buffers lg) < 25"
  obtain lg' where lg': "Logger_swap lg = Inr lg'" "logger_inv lg'" using Logger_swap_inv [OF inv sw(1)] by blast
  obtain cur where cur: "lg_current lg = Some cur" using inv by (auto simp: logger_inv_def)
  have s: "lg_pc lg' = Writing" "lg_to_write lg' = lg_buffers lg @ [cur]" "lg_output lg' = lg_output lg" "lg_dropped lg' = lg_dropped lg"
    using lg'(1) cur by (auto simp: Logger_swap_def CHECK_def Let_def split: if_splits option.splits)
  have "lg_output lg @ written msg lg' = lg_sent lg"
    using inv assms(2) s(2) cur sw by (auto simp: logger_inv_def written_def)
  then show "\<exists>lg' lg''. Logger_swap lg = Inr lg' \<and> Logger_write msg lg' = Inr lg'' \<and> lg_output lg'' = lg_sent lg \<and> \<not> lg_dropped lg''"
    using lg'(1) Logger_write_result [OF lg'(2) s(1), of msg] s assms(2) sw by auto
qed

text \<open>
  C15: as long as the overload rule has not dropped buffers, the log file holds a prefix of
  what was appended, in the order of the appends, and one more round of the logger thread with fewer than 25 full
  buffers waiting brings the file up to date.
\<close>
theorem Logger_in_order:
  assumes "logger_reachable lg" "\<not> lg_dropped lg"
  shows "(\<exists>rest. lg_sent lg = lg_output lg @ rest) \<and>
    (lg_pc lg = At_Swap \<and> length (lg_buffers lg) < 25 \<longrightarrow>
       (\<exists>lg' lg''. Logger_swap lg = Inr lg' \<and> Logger_write msg lg' = Inr lg'' \<and> lg_output lg'' = lg_sent lg \<and> \<not> lg_dropped lg''))"
  using logger_prefix_and_flush [OF assms] by blast

lemma Logger_started_swaps:
  "\<exists>lg. logger_reachable lg \<and> \<not> lg_dropped lg \<and> lg_pc lg = At_Swap \<and> lg_buffers lg = [] \<and> lg_sent lg = ''hello''"
proof -
  have "kLargeBuffer > 5" by (simp add: kLargeBuffer_def)
  then have "logger_step Logger_started (Logger_started\<lparr>lg_sent := ''hello'', lg_current := Some \<lparr>lb_size = kLargeBuffer, lb_text = ''hello''\<rparr>\<rparr>)"
    by (intro lg_append [of "''hello''"])
      (simp_all add: Logger_Append_def Logger_started_def LogBuffer_new_def LogBuffer_avail_def LogBuffer_Append_def)
  from logger_next [OF logger_next [OF logger_init this] lg_test] show ?thesis
    by (force simp: Logger_test_def Logger_started_def)
qed

lemma Logger_in_order_witness:
  "\<exists>lg lg' lg''. logger_reachable lg \<and> Logger_swap lg = Inr lg' \<and> Logger_write [] lg' = Inr lg'' \<and> lg_output lg'' = ''hello''"
proof -
  obtain lg where lg: "logger_reachable lg" "\<not> lg_dropped lg" "lg_pc lg = At_Swap" "lg_buffers lg = []" "lg_sent lg = ''hello''"
    using Logger_started_swaps by blast
  then show ?thesis using Logger_in_order [OF lg(1,2), of "[]"] by auto
qed

text \<open>
  A message appended while the logger thread writes is lost when \<open>Stop\<close> comes before the thread
  is back at the test of its loop: the thread ends with the message still in the current buffer, although
  nothing was dropped by the overload rule and \<open>Stop\<close> joins the thread.
\<close>
theorem Logger_Stop_loses:
  "\<exists>lg. logger_reachable lg \<and> lg_pc lg = Finished \<and> \<not> lg_dropped lg \<and> lg_sent lg = ''hello'' \<and> lg_output lg = ''''"
proof -
  define l1 where "l1 = Logger_test Logger_started"
  define l2 where "l2 = l1\<lparr>lg_to_write := [LogBuffer_new kLargeBuffer], lg_buffer1 := None, lg_pc := Writing\<rparr>"
  define l3 where "l3 = l2\<lparr>lg_sent := ''hello'', lg_current := Some \<lparr>lb_size = kLargeBuffer, lb_text = ''hello''\<rparr>\<rparr>"
  define l4 where "l4 = Logger_Stop l3"
  define l5 where "l5 = l4\<lparr>lg_buffer1 := Some (LogBuffer_new kLargeBuffer), lg_to_write := [], lg_pc := At_Test\<rparr>"
  have k: "kLargeBuffer > 5" by (simp add: kLargeBuffer_def)
  note defs = l1_def l2_def l3_def l4_def l5_def Logger_started_def Logger_test_def Logger_Stop_def
  have "logger_step Logger_started l1" unfolding l1_def by (rule lg_test) (simp add: Logger_started_def)
  moreover have "logger_step l1 l2"
    by (rule lg_swap) (simp_all add: defs Logger_swap_def assert_empty_def LogBuffer_new_def)
  moreover have "logger_step l2 l3"
    using k by (intro lg_append [of "''hello''"])
      (simp_all add: defs Logger_Append_def LogBuffer_new_def LogBuffer_avail_def LogBuffer_Append_def)
  moreover have "logger_step l3 l4" unfolding l4_def by (rule lg_stop)
  moreover have "logger_step l4 l5"
    by (rule lg_write [of _ "''''"]) (simp_all add: defs Logger_write_def recycle_def LogBuffer_new_def LogBuffer_Reset_def)
  moreover have "logger_step l5 (Logger_test l5)" by (rule lg_test) (simp add: defs)
  ultimately have "logger_reachable (Logger_test l5)" by (meson logger_init logger_next)
  then show ?thesis by (rule exI [of _ "Logger_test l5", OF conjI]) (simp add: defs)
qed

end
