(* ===== verification/Counters.thy ===== *)
theory Counters
  imports Prelude
begin

text \<open>
  Counters: \<^verbatim>\<open>metrics/Counter.h,.cc\<close>, \<^verbatim>\<open>metrics/CounterProvider.h,.cc\<close> and the sampler
  \<^verbatim>\<open>metrics/CounterSampler.h,.cc\<close>.

  The provider keeps one row of \<open>max_threads_\<close> cells per counter in one array, so a pointer to a cell is
  an index that may be outside the array, and then reading or writing through it is a failure. The array
  comes from \<open>new int[n]\<close>: its first contents are an argument. A thread is a number (it owns
  \<open>t_thread_slot\<close>) together with its kernel id, which a later thread may get again. An
  \<open>unordered_map\<close> is an association list; nothing below depends on its order.
\<close>

subsection \<open>CounterProvider\<close>

record counter_provider =
  cp_max_threads :: nat
  cp_max_counters :: nat
  cp_counters :: "(string \<times> int) list"
  cp_slots :: "(int \<times> int) list"
  cp_data :: "int list"
  t_thread_slot :: "nat \<Rightarrow> int"

definition CounterProvider_new :: "nat \<Rightarrow> nat \<Rightarrow> (nat \<Rightarrow> int) \<Rightarrow> counter_provider" where
  "CounterProvider_new max_threads max_counters memory =
     \<lparr>cp_max_threads = max_threads, cp_max_counters = max_counters, cp_counters = [], cp_slots = [],
      cp_data = map memory [0 ..< max_threads * max_counters], t_thread_slot = (\<lambda>_. 0)\<rparr>"

definition GetCounterId :: "counter_provider \<Rightarrow> string \<Rightarrow> int \<times> counter_provider" where
  "GetCounterId p name =
     (case map_of (cp_counters p) name of
        Some i \<Rightarrow> (i, p)
      | None \<Rightarrow>
          if cp_max_counters p \<le> length (cp_counters p) then (0, p)
          else let i = int (length (cp_counters p)) + 1 in (i, p\<lparr>cp_counters := cp_counters p @ [(name, i)]\<rparr>))"

definition GetSlotId :: "counter_provider \<Rightarrow> nat \<Rightarrow> int \<Rightarrow> int \<times> counter_provider" where
  "GetSlotId p thread tid =
     (if t_thread_slot p thread \<noteq> 0 then (t_thread_slot p thread, p)
      else if cp_max_threads p \<le> length (cp_slots p) then (0, p)
      else case map_of (cp_slots p) tid of
        Some _ \<Rightarrow> (0, p)
      | None \<Rightarrow>
          let slots = cp_slots p @ [(tid, int (length (cp_slots p)) + 1)]; slot = int (length slots)
          in (slot, p\<lparr>cp_slots := slots, t_thread_slot := (t_thread_slot p)(thread := slot)\<rparr>))"

definition GetLocation :: "counter_provider \<Rightarrow> int \<Rightarrow> int \<Rightarrow> int" where
  "GetLocation p counter_id slot_id = (counter_id - 1) * int (cp_max_threads p) + slot_id - 1"

definition Provider_GetLocation :: "counter_provider \<Rightarrow> nat \<Rightarrow> int \<Rightarrow> int \<Rightarrow> int \<times> counter_provider" where
  "Provider_GetLocation p thread tid counter_id =
     (let (slot_id, p) = GetSlotId p thread tid in (GetLocation p counter_id slot_id, p))"

definition load :: "int list \<Rightarrow> int \<Rightarrow> int result" where
  "load data loc = (if 0 \<le> loc then vec_get data (nat loc) else Inl Out_Of_Bounds)"

definition store :: "int list \<Rightarrow> int \<Rightarrow> int \<Rightarrow> int list result" where
  "store data loc v = (if 0 \<le> loc then vec_set data (nat loc) v else Inl Out_Of_Bounds)"

fun GetCounterValue_loop :: "int list \<Rightarrow> int \<Rightarrow> int \<Rightarrow> nat list \<Rightarrow> int result" where
  "GetCounterValue_loop data row v [] = Inr v"
| "GetCounterValue_loop data row v (i # is) =
     bindR (load data (row + int i)) (\<lambda>x. GetCounterValue_loop data row (i32 (v + x)) is)"

definition Impl_GetCounterValue :: "counter_provider \<Rightarrow> int \<Rightarrow> int result" where
  "Impl_GetCounterValue p counter_id =
     GetCounterValue_loop (cp_data p) ((counter_id - 1) * int (cp_max_threads p)) 0 [0 ..< cp_max_threads p]"

definition Provider_GetCounterValue :: "counter_provider \<Rightarrow> string \<Rightarrow> (int \<times> counter_provider) result" where
  "Provider_GetCounterValue p name =
     (let (counter_id, p) = GetCounterId p name
      in if counter_id = 0 then Inr (0, p) else bindR (Impl_GetCounterValue p counter_id) (\<lambda>v. Inr (v, p)))"

fun GetSnapshot_loop :: "counter_provider \<Rightarrow> (string \<times> int) list \<Rightarrow> (string \<times> int) list result" where
  "GetSnapshot_loop p [] = Inr []"
| "GetSnapshot_loop p ((name, counter_id) # rest) =
     bindR (Impl_GetCounterValue p counter_id) (\<lambda>v.
     bindR (GetSnapshot_loop p rest) (\<lambda>snapshot. Inr ((name, v) # snapshot)))"

definition Provider_GetSnapshot :: "counter_provider \<Rightarrow> (string \<times> int) list result" where
  "Provider_GetSnapshot p = GetSnapshot_loop p (cp_counters p)"

subsection \<open>Counter\<close>

record counter =
  ct_name :: string
  ct_counter_id :: int

definition Counter_new :: "string \<Rightarrow> counter" where
  "Counter_new name = \<lparr>ct_name = name, ct_counter_id = - 1\<rparr>"

definition Counter_GetPtr :: "counter_provider \<Rightarrow> nat \<Rightarrow> int \<Rightarrow> counter \<Rightarrow> int option \<times> counter \<times> counter_provider" where
  "Counter_GetPtr p thread tid c =
     (let (c, p) = (if ct_counter_id c = - 1
                    then let (i, p) = GetCounterId p (ct_name c) in (c\<lparr>ct_counter_id := i\<rparr>, p) else (c, p))
      in if 0 < ct_counter_id c
         then let (loc, p) = Provider_GetLocation p thread tid (ct_counter_id c) in (Some loc, c, p)
         else (None, c, p))"

definition Counter_update ::
  "(int \<Rightarrow> int) \<Rightarrow> counter_provider \<Rightarrow> nat \<Rightarrow> int \<Rightarrow> counter \<Rightarrow> (counter \<times> counter_provider) result" where
  "Counter_update f p thread tid c =
     (case Counter_GetPtr p thread tid c of
        (None, c, p) \<Rightarrow> Inr (c, p)
      | (Some loc, c, p) \<Rightarrow>
          bindR (load (cp_data p) loc) (\<lambda>x. bindR (store (cp_data p) loc (f x)) (\<lambda>data. Inr (c, p\<lparr>cp_data := data\<rparr>))))"

definition Counter_Set :: "counter_provider \<Rightarrow> nat \<Rightarrow> int \<Rightarrow> counter \<Rightarrow> int \<Rightarrow> (counter \<times> counter_provider) result" where
  "Counter_Set p thread tid c v = Counter_update (\<lambda>_. v) p thread tid c"

definition Counter_Add :: "counter_provider \<Rightarrow> nat \<Rightarrow> int \<Rightarrow> counter \<Rightarrow> int \<Rightarrow> (counter \<times> counter_provider) result" where
  "Counter_Add p thread tid c v = Counter_update (\<lambda>x. i32 (x + v)) p thread tid c"

definition Counter_Increment :: "counter_provider \<Rightarrow> nat \<Rightarrow> int \<Rightarrow> counter \<Rightarrow> (counter \<times> counter_provider) result" where
  "Counter_Increment p thread tid c = Counter_Add p thread tid c 1"

definition Counter_Decrement :: "counter_provider \<Rightarrow> nat \<Rightarrow> int \<Rightarrow> counter \<Rightarrow> (counter \<times> counter_provider) result" where
  "Counter_Decrement p thread tid c = Counter_Add p thread tid c (- 1)"

definition Counter_Subtract :: "counter_provider \<Rightarrow> nat \<Rightarrow> int \<Rightarrow> counter \<Rightarrow> int \<Rightarrow> (counter \<times> counter_provider) result" where
  "Counter_Subtract p thread tid c v = Counter_Add p thread tid c (i32 (- v))"

definition Counter_get :: "counter_provider \<Rightarrow> nat \<Rightarrow> int \<Rightarrow> counter \<Rightarrow> (int \<times> counter \<times> counter_provider) result" where
  "Counter_get p thread tid c =
     (case Counter_GetPtr p thread tid c of
        (None, c, p) \<Rightarrow> Inr (0, c, p)
      | (Some loc, c, p) \<Rightarrow> bindR (load (cp_data p) loc) (\<lambda>x. Inr (x, c, p)))"

definition DEFINE_COUNTER :: "counter_provider \<Rightarrow> nat \<Rightarrow> int \<Rightarrow> string \<Rightarrow> int \<Rightarrow> counter_provider result" where
  "DEFINE_COUNTER p thread tid name delta =
     bindR (Counter_Add p thread tid (Counter_new name) delta) (\<lambda>(_, p). Inr p)"

subsection \<open>CounterSampler\<close>

record counter_sampler =
  cs_capacity :: nat
  cs_samples :: "(int \<times> (string \<times> int) list) list"
  cs_last_snapshot :: "(string \<times> int) list"

definition CounterSampler_new :: "nat \<Rightarrow> nat \<Rightarrow> counter_sampler" where
  "CounterSampler_new sample_duration sample_rate =
     \<lparr>cs_capacity = sample_duration * 60 div sample_rate, cs_samples = [], cs_last_snapshot = []\<rparr>"

definition circular_push_back :: "nat \<Rightarrow> 'a list \<Rightarrow> 'a \<Rightarrow> 'a list" where
  "circular_push_back capacity xs x = drop (Suc (length xs) - capacity) (xs @ [x])"

fun DoSnapshotDiff :: "(string \<times> int) list \<Rightarrow> (string \<times> int) list \<Rightarrow> (string \<times> int) list" where
  "DoSnapshotDiff [] rhs = []"
| "DoSnapshotDiff ((name, v) # lhs) rhs =
     (case map_of rhs name of
        None \<Rightarrow> DoSnapshotDiff lhs rhs
      | Some old \<Rightarrow>
          (name, if v < old then i32 (i32 (INT_MAX - old) - v) else i32 (v - old)) # DoSnapshotDiff lhs rhs)"

definition DoSample :: "counter_sampler \<Rightarrow> (string \<times> int) list \<Rightarrow> int \<Rightarrow> counter_sampler" where
  "DoSample cs snapshot now =
     (let entry = (if cs_last_snapshot cs \<noteq> [] then DoSnapshotDiff snapshot (cs_last_snapshot cs) else []);
          cs = cs\<lparr>cs_last_snapshot := snapshot\<rparr>
      in if entry \<noteq> [] then cs\<lparr>cs_samples := circular_push_back (cs_capacity cs) (cs_samples cs) (now, entry)\<rparr> else cs)"

text \<open>The document of \<open>WriteJson\<close> without its concrete syntax: the names, and one row per sample.\<close>

definition WriteJson_names :: "counter_sampler \<Rightarrow> string list option" where
  "WriteJson_names cs = (if cs_samples cs = [] then None else Some (map fst (snd (last (cs_samples cs)))))"

definition WriteJson :: "counter_sampler \<Rightarrow> string list \<Rightarrow> int \<Rightarrow> string list \<times> int list list" where
  "WriteJson cs metrics since =
     (''time'' # metrics,
      map (\<lambda>sample. i64 (fst sample * 1000) #
              map (\<lambda>metric. case map_of (snd sample) metric of Some v \<Rightarrow> v | None \<Rightarrow> 0) metrics)
        (filter (\<lambda>sample. \<not> i64 (1000 * fst sample) \<le> since) (cs_samples cs)))"

subsection \<open>Cells and rows\<close>

definition row_sum :: "counter_provider \<Rightarrow> nat \<Rightarrow> int" where
  "row_sum p c = (\<Sum>i<cp_max_threads p. cp_data p ! (c * cp_max_threads p + i))"

definition cp_inv :: "counter_provider \<Rightarrow> bool" where
  "cp_inv p \<longleftrightarrow> map snd (cp_counters p) = map (\<lambda>i. int i + 1) [0 ..< length (cp_counters p)] \<and>
     distinct (map fst (cp_counters p)) \<and> length (cp_counters p) \<le> cp_max_counters p \<and>
     length (cp_slots p) \<le> cp_max_threads p \<and> length (cp_data p) = cp_max_threads p * cp_max_counters p \<and>
     (\<forall>th. 0 \<le> t_thread_slot p th \<and> t_thread_slot p th \<le> int (length (cp_slots p))) \<and>
     (\<forall>th th'. t_thread_slot p th = t_thread_slot p th' \<and> t_thread_slot p th \<noteq> 0 \<longrightarrow> th = th')"

lemma row_in_data: "c < n \<Longrightarrow> i < m \<Longrightarrow> c * m + i < m * (n :: nat)"
proof -
  assume "c < n" "i < m"
  then have "c * m + i < Suc c * m" by simp
  also have "\<dots> \<le> n * m" using \<open>c < n\<close> by (intro mult_le_mono1) simp
  finally show ?thesis by (simp add: mult.commute)
qed

lemma row_cell_inj:
  assumes "c * m + i = c' * m + i'" "i < m" "i' < (m :: nat)"
  shows "c = c' \<and> i = i'"
proof -
  have "(c * m + i) div m = c" "(c' * m + i') div m = c'" using assms(2,3) by simp_all
  with assms(1) show ?thesis by simp
qed

lemma GetCounterValue_loop_sum:
  assumes "\<forall>i \<in> set is. r + i < length data" "is_i32 v"
  shows "GetCounterValue_loop data (int r) v is = Inr (i32 (v + (\<Sum>i\<leftarrow>is. data ! (r + i))))"
  using assms
proof (induction "is" arbitrary: v)
  case (Cons i "is")
  have "load data (int r + int i) = Inr (data ! (r + i))"
    using Cons.prems(1) by (simp add: load_def nat_int_add)
  then show ?case
    using Cons.IH [of "i32 (v + data ! (r + i))"] Cons.prems by (simp add: wrap_simps add.assoc)
qed simp

lemma Impl_GetCounterValue_row:
  assumes "cp_inv p" "1 \<le> counter_id" "counter_id \<le> int (cp_max_counters p)"
  shows "Impl_GetCounterValue p counter_id = Inr (i32 (row_sum p (nat counter_id - 1)))"
proof -
  define c where "c = nat counter_id - 1"
  have c: "(counter_id - 1) * int (cp_max_threads p) = int (c * cp_max_threads p)" "c < cp_max_counters p"
    using assms(2,3) by (auto simp: c_def of_nat_diff)
  have "\<forall>i \<in> set [0 ..< cp_max_threads p]. c * cp_max_threads p + i < length (cp_data p)"
    using row_in_data [OF c(2)] assms(1) by (auto simp: cp_inv_def)
  from GetCounterValue_loop_sum [OF this, of 0] show ?thesis
    unfolding Impl_GetCounterValue_def c(1) row_sum_def c_def [symmetric]
    by (simp add: is_i32_def interv_sum_list_conv_sum_set_nat atLeast0LessThan)
qed

lemma row_sum_store:
  assumes "c < cp_max_counters p" "s < cp_max_threads p" "length (cp_data p) = cp_max_threads p * cp_max_counters p"
    "k = c * cp_max_threads p + s"
  shows "i32 (row_sum (p\<lparr>cp_data := (cp_data p)[k := i32 (cp_data p ! k + v)]\<rparr>) c') =
         i32 (row_sum p c' + (if c' = c then v else 0))"
proof -
  let ?m = "cp_max_threads p" and ?y = "i32 (cp_data p ! k + v)"
  have k: "k < length (cp_data p)" using row_in_data [OF assms(1,2)] assms(3,4) by simp
  have "(cp_data p)[k := ?y] ! (c' * ?m + i) = cp_data p ! (c' * ?m + i) + (if i = s then if c' = c then ?y - cp_data p ! k else 0 else 0)"
    if "i < ?m" for i
  proof (cases "c' * ?m + i = k")
    case True
    then have "c' = c \<and> i = s" using row_cell_inj [of c' ?m i c s] that assms(2,4) by simp
    with True k show ?thesis by simp
  next
    case False
    then have "\<not> (c' = c \<and> i = s)" using assms(4) by auto
    with False show ?thesis by auto
  qed
  then have "row_sum (p\<lparr>cp_data := (cp_data p)[k := ?y]\<rparr>) c' = row_sum p c' + (if c' = c then ?y - cp_data p ! k else 0)"
    using assms(2) by (simp add: row_sum_def sum.distrib)
  then show ?thesis using i32_add_i32(2) [of "row_sum p c' - cp_data p ! k" "cp_data p ! k + v"] by (auto simp: algebra_simps)
qed

subsection \<open>Registration\<close>

lemma cp_inv_new: "cp_inv (CounterProvider_new mt mc memory)"
  by (simp add: cp_inv_def CounterProvider_new_def)

lemma registered_id:
  assumes "cp_inv p" "map_of (cp_counters p) name = Some i"
  shows "1 \<le> i" "i \<le> int (length (cp_counters p))" "i \<le> int (cp_max_counters p)"
proof -
  have e: "map snd (cp_counters p) = map (\<lambda>i. int i + 1) [0 ..< length (cp_counters p)]"
    using assms(1) unfolding cp_inv_def by blast
  have "i \<in> set (map snd (cp_counters p))" using map_of_SomeD [OF assms(2)] by force
  then have "i \<in> set (map (\<lambda>i. int i + 1) [0 ..< length (cp_counters p)])" by (simp only: e)
  then show "1 \<le> i" "i \<le> int (length (cp_counters p))" by auto
  then show "i \<le> int (cp_max_counters p)" using assms(1) by (simp add: cp_inv_def)
qed

lemma registered_id_inj:
  assumes "cp_inv p" "map_of (cp_counters p) name = Some i" "map_of (cp_counters p) name' = Some i"
  shows "name = name'"
proof -
  have e: "map snd (cp_counters p) = map (\<lambda>i. int i + 1) [0 ..< length (cp_counters p)]"
    using assms(1) unfolding cp_inv_def by blast
  have "distinct (map snd (cp_counters p))" unfolding e by (simp add: distinct_map inj_on_def)
  then show ?thesis using map_of_SomeD [OF assms(2)] map_of_SomeD [OF assms(3)]
    by (metis distinct_map inj_on_def prod.inject snd_conv)
qed

lemma GetCounterId_registers:
  assumes "cp_inv p" "GetCounterId p name = (i, p')"
    "name \<in> fst ` set (cp_counters p) \<or> length (cp_counters p) < cp_max_counters p"
  shows "cp_inv p' \<and> map_of (cp_counters p') name = Some i \<and> map_of (cp_counters p) \<subseteq>\<^sub>m map_of (cp_counters p') \<and>
    fst ` set (cp_counters p') = insert name (fst ` set (cp_counters p)) \<and> cp_slots p' = cp_slots p \<and>
    t_thread_slot p' = t_thread_slot p \<and> cp_max_threads p' = cp_max_threads p \<and>
    cp_max_counters p' = cp_max_counters p \<and> cp_data p' = cp_data p"
proof (cases "map_of (cp_counters p) name")
  case None
  then have n: "name \<notin> fst ` set (cp_counters p)" by (simp add: map_of_eq_None_iff)
  with assms(3) have l: "length (cp_counters p) < cp_max_counters p" by simp
  define k where "k = int (length (cp_counters p)) + 1"
  have p': "i = k" "p' = p\<lparr>cp_counters := cp_counters p @ [(name, k)]\<rparr>"
    using assms(2) None l by (auto simp: GetCounterId_def Let_def k_def)
  have "cp_inv p'" using assms(1) n l by (simp add: p' cp_inv_def k_def)
  moreover have "map_of (cp_counters p) \<subseteq>\<^sub>m map_of (cp_counters p')"
    by (auto simp: p' map_le_def map_add_def)
  ultimately show ?thesis using None by (simp add: p' map_add_def)
next
  case (Some j)
  then have "p' = p" "i = j" using assms(2) by (simp_all add: GetCounterId_def)
  moreover have "name \<in> fst ` set (cp_counters p)" using map_of_SomeD [OF Some] by force
  ultimately show ?thesis using assms(1) Some by (auto simp: insert_absorb)
qed

lemma GetSlotId_registers:
  assumes "cp_inv p" "GetSlotId p th tid = (s, p')"
    "t_thread_slot p th \<noteq> 0 \<or> length (cp_slots p) < cp_max_threads p \<and> tid \<notin> fst ` set (cp_slots p)"
  shows "cp_inv p' \<and> t_thread_slot p' th = s \<and> 1 \<le> s \<and> s \<le> int (cp_max_threads p) \<and>
    (\<forall>th'. th' \<noteq> th \<longrightarrow> t_thread_slot p' th' = t_thread_slot p th') \<and>
    cp_counters p' = cp_counters p \<and> cp_max_threads p' = cp_max_threads p \<and>
    cp_max_counters p' = cp_max_counters p \<and> cp_data p' = cp_data p \<and>
    cp_slots p' = (if t_thread_slot p th = 0 then cp_slots p @ [(tid, s)] else cp_slots p)"
proof (cases "t_thread_slot p th = 0")
  case True
  then have n: "length (cp_slots p) < cp_max_threads p" "tid \<notin> fst ` set (cp_slots p)" using assms(3) by simp_all
  define k where "k = int (length (cp_slots p)) + 1"
  have p': "s = k" "p' = p\<lparr>cp_slots := cp_slots p @ [(tid, k)], t_thread_slot := (t_thread_slot p)(th := k)\<rparr>"
    using assms(2) True n map_of_eq_None_iff [of "cp_slots p" tid]
    by (auto simp: GetSlotId_def Let_def k_def add.commute)
  have small: "\<forall>th'. t_thread_slot p th' < k \<and> t_thread_slot p th' \<le> k \<and> 0 \<le> t_thread_slot p th'"
    using assms(1) by (auto simp: cp_inv_def k_def) (smt (verit))+
  then have own: "\<forall>th'. k \<noteq> t_thread_slot p th' \<and> t_thread_slot p th' \<noteq> k" by (metis order_less_irrefl)
  have l: "1 + int (length (cp_slots p)) = k" "0 \<le> k" by (simp_all add: k_def)
  have "cp_inv p'" using assms(1) n small own by (simp add: p' cp_inv_def l)
  then show ?thesis using n True by (auto simp: p' k_def)
next
  case False
  then have p': "p' = p" "s = t_thread_slot p th" using assms(2) by (auto simp: GetSlotId_def)
  have "0 \<le> s" "s \<le> int (length (cp_slots p))" "length (cp_slots p) \<le> cp_max_threads p"
    using assms(1) by (simp_all add: cp_inv_def p')
  then show ?thesis using False assms(1) by (simp add: p')
qed

subsection \<open>Counting\<close>

lemma Counter_Add_cell:
  assumes "cp_inv p" "map_of (cp_counters p) name = Some i" "1 \<le> s" "s \<le> int (cp_max_threads p)"
  shows "0 \<le> GetLocation p i s" "nat (GetLocation p i s) = (nat i - 1) * cp_max_threads p + (nat s - 1)"
    "nat i - 1 < cp_max_counters p" "nat s - 1 < cp_max_threads p" "nat (GetLocation p i s) < length (cp_data p)"
proof -
  note i = registered_id [OF assms(1,2)]
  have loc: "GetLocation p i s = int ((nat i - 1) * cp_max_threads p + (nat s - 1))"
    using i assms(3) by (simp add: GetLocation_def of_nat_diff)
  show "0 \<le> GetLocation p i s" "nat (GetLocation p i s) = (nat i - 1) * cp_max_threads p + (nat s - 1)"
    unfolding loc by (simp_all only: nat_int of_nat_0_le_iff)
  show c: "nat i - 1 < cp_max_counters p" "nat s - 1 < cp_max_threads p" using i assms(3,4) by auto
  show "nat (GetLocation p i s) < length (cp_data p)"
    unfolding loc nat_int using row_in_data [OF c] assms(1) by (simp add: cp_inv_def)
qed

definition cp_value :: "counter_provider \<Rightarrow> int \<Rightarrow> int" where
  "cp_value p i = i32 (row_sum p (nat i - 1))"

lemma DEFINE_COUNTER_step:
  assumes "cp_inv p" "name \<in> fst ` set (cp_counters p) \<or> length (cp_counters p) < cp_max_counters p"
    "t_thread_slot p th \<noteq> 0 \<or> length (cp_slots p) < cp_max_threads p \<and> tid \<notin> fst ` set (cp_slots p)"
  shows "\<exists>p' i. DEFINE_COUNTER p th tid name delta = Inr p' \<and> cp_inv p' \<and> map_of (cp_counters p') name = Some i \<and>
     map_of (cp_counters p) \<subseteq>\<^sub>m map_of (cp_counters p') \<and>
     fst ` set (cp_counters p') = insert name (fst ` set (cp_counters p)) \<and>
     fst ` set (cp_slots p') = (if t_thread_slot p th = 0 then insert tid (fst ` set (cp_slots p)) else fst ` set (cp_slots p)) \<and>
     length (cp_slots p') = (if t_thread_slot p th = 0 then Suc (length (cp_slots p)) else length (cp_slots p)) \<and>
     {th. t_thread_slot p' th \<noteq> 0} = insert th {th. t_thread_slot p th \<noteq> 0} \<and>
     cp_max_threads p' = cp_max_threads p \<and> cp_max_counters p' = cp_max_counters p \<and>
     (\<forall>j \<ge> 1. cp_value p' j = i32 (cp_value p j + (if j = i then delta else 0)))"
proof -
  obtain i p1 where 1: "GetCounterId p name = (i, p1)" by fastforce
  note r = GetCounterId_registers [OF assms(1) 1 assms(2)]
  obtain s p2 where 2: "GetSlotId p1 th tid = (s, p2)" by fastforce
  have q: "cp_inv p2 \<and> t_thread_slot p2 th = s \<and> 1 \<le> s \<and> s \<le> int (cp_max_threads p) \<and>
    (\<forall>th'. th' \<noteq> th \<longrightarrow> t_thread_slot p2 th' = t_thread_slot p th') \<and>
    cp_counters p2 = cp_counters p1 \<and> cp_max_threads p2 = cp_max_threads p \<and>
    cp_max_counters p2 = cp_max_counters p \<and> cp_data p2 = cp_data p \<and>
    cp_slots p2 = (if t_thread_slot p th = 0 then cp_slots p @ [(tid, s)] else cp_slots p)"
    using GetSlotId_registers [of p1 th tid s p2] r 2 assms(3) by simp
  then have c: "cp_inv p2" "map_of (cp_counters p2) name = Some i" "1 \<le> s" "s \<le> int (cp_max_threads p2)" using r by simp_all
  note cell = Counter_Add_cell [OF c]
  define k where "k = nat (GetLocation p2 i s)"
  define p' where "p' = p2\<lparr>cp_data := (cp_data p2)[k := i32 (cp_data p2 ! k + delta)]\<rparr>"
  have "DEFINE_COUNTER p th tid name delta = Inr p'"
    using registered_id(1) [OF c(1,2)] cell(1,5)
    by (simp add: DEFINE_COUNTER_def Counter_Add_def Counter_update_def Counter_GetPtr_def Counter_new_def 1 2
        Provider_GetLocation_def load_def store_def p'_def k_def)
  moreover have "cp_inv p'" using c(1) by (simp add: cp_inv_def p'_def)
  moreover have "cp_value p' j = i32 (cp_value p j + (if j = i then delta else 0))" if "1 \<le> j" for j
  proof -
    have "i32 (row_sum p' (nat j - 1)) = i32 (row_sum p2 (nat j - 1) + (if nat j - 1 = nat i - 1 then delta else 0))"
      unfolding p'_def by (rule row_sum_store [OF cell(3,4) _ k_def [unfolded cell(2)]]) (use c(1) in \<open>simp add: cp_inv_def\<close>)
    moreover have "row_sum p2 = row_sum p" using q by (simp add: row_sum_def fun_eq_iff)
    moreover have "nat j - 1 = nat i - 1 \<longleftrightarrow> j = i" using that registered_id(1) [OF c(1,2)] by auto
    ultimately show ?thesis by (simp add: cp_value_def i32_add_i32)
  qed
  moreover have "{th. t_thread_slot p' th \<noteq> 0} = insert th {th. t_thread_slot p th \<noteq> 0}"
  proof -
    have "t_thread_slot p2 x \<noteq> 0 \<longleftrightarrow> x = th \<or> t_thread_slot p x \<noteq> 0" for x using q by (cases "x = th") auto
    then show ?thesis by (auto simp: p'_def)
  qed
  ultimately show ?thesis using q r by (intro exI [of _ p'] exI [of _ i]) (auto simp: p'_def)
qed

text \<open>A run of the recording macro by several threads: thread, name and delta of each call.\<close>

fun run_counters :: "(nat \<Rightarrow> int) \<Rightarrow> counter_provider \<Rightarrow> (nat \<times> string \<times> int) list \<Rightarrow> counter_provider result" where
  "run_counters tid p [] = Inr p"
| "run_counters tid p ((th, name, delta) # calls) =
     bindR (DEFINE_COUNTER p th (tid th) name delta) (\<lambda>p. run_counters tid p calls)"

definition counted :: "(nat \<times> string \<times> int) list \<Rightarrow> string \<Rightarrow> int" where
  "counted calls name = (\<Sum>(th, n, delta)\<leftarrow>calls. if n = name then delta else 0)"

lemma counted_simps [simp]:
  "counted [] name = 0"
  "counted ((th, n, delta) # calls) name = (if n = name then delta else 0) + counted calls name"
  by (simp_all add: counted_def)

definition registered :: "(nat \<Rightarrow> int) \<Rightarrow> counter_provider \<Rightarrow> bool" where
  "registered tid p \<longleftrightarrow> fst ` set (cp_slots p) = tid ` {th. t_thread_slot p th \<noteq> 0} \<and>
     finite {th. t_thread_slot p th \<noteq> 0} \<and> length (cp_slots p) = card {th. t_thread_slot p th \<noteq> 0}"

lemma run_counters_sum:
  assumes "cp_inv p" "registered tid p" "inj_on tid T" "finite T" "{th. t_thread_slot p th \<noteq> 0} \<union> fst ` set calls \<subseteq> T" "card T \<le> cp_max_threads p"
    "card (fst ` set (cp_counters p) \<union> (\<lambda>(th, n, delta). n) ` set calls) \<le> cp_max_counters p"
  shows "\<exists>p'. run_counters tid p calls = Inr p' \<and> cp_inv p' \<and>
     cp_max_threads p' = cp_max_threads p \<and> cp_max_counters p' = cp_max_counters p \<and>
     map_of (cp_counters p) \<subseteq>\<^sub>m map_of (cp_counters p') \<and>
     fst ` set (cp_counters p') = fst ` set (cp_counters p) \<union> (\<lambda>(th, n, delta). n) ` set calls \<and>
     (\<forall>name i. map_of (cp_counters p') name = Some i \<longrightarrow> cp_value p' i = i32 (cp_value p i + counted calls name))"
  using assms
proof (induction calls arbitrary: p)
  case Nil
  then show ?case by (simp add: cp_value_def)
next
  case (Cons call calls)
  obtain th name delta where call: "call = (th, name, delta)" using prod_cases3 by blast
  let ?S = "{th. t_thread_slot p th \<noteq> 0}" and ?N = "fst ` set (cp_counters p)"
  note inv = Cons.prems(1) and reg = Cons.prems(2)
  have th: "insert th ?S \<subseteq> T" using Cons.prems(5) by (auto simp: call)
  have slot: "t_thread_slot p th \<noteq> 0 \<or> length (cp_slots p) < cp_max_threads p \<and> tid th \<notin> fst ` set (cp_slots p)"
  proof (cases "t_thread_slot p th = 0")
    case True
    then have "card (insert th ?S) = Suc (card ?S)" using reg by (simp add: registered_def)
    moreover have "card (insert th ?S) \<le> card T" using th Cons.prems(4) by (rule card_mono [rotated])
    ultimately have "length (cp_slots p) < cp_max_threads p" using reg Cons.prems(6) by (simp add: registered_def)
    moreover have "tid th \<notin> tid ` ?S" using inj_on_image_mem_iff [OF Cons.prems(3), of th ?S] th True by auto
    ultimately show ?thesis using reg by (simp add: registered_def)
  qed simp
  have dn: "card ?N = length (cp_counters p)" using inv by (metis cp_inv_def distinct_card length_map list.set_map)
  have sub: "insert name ?N \<subseteq> ?N \<union> (\<lambda>(th, n, delta). n) ` set (call # calls)" by (auto simp: call)
  have "name \<in> ?N \<or> length (cp_counters p) < cp_max_counters p"
    using card_mono [OF _ sub] Cons.prems(7) dn by (cases "name \<in> ?N") auto
  from DEFINE_COUNTER_step [OF inv this slot, of delta] obtain p1 i where
    d: "DEFINE_COUNTER p th (tid th) name delta = Inr p1" and p1: "cp_inv p1" "map_of (cp_counters p1) name = Some i"
      "map_of (cp_counters p) \<subseteq>\<^sub>m map_of (cp_counters p1)" "fst ` set (cp_counters p1) = insert name ?N"
      "cp_max_threads p1 = cp_max_threads p" "cp_max_counters p1 = cp_max_counters p"
      "{th. t_thread_slot p1 th \<noteq> 0} = insert th ?S"
    and sl: "fst ` set (cp_slots p1) = (if t_thread_slot p th = 0 then insert (tid th) (fst ` set (cp_slots p)) else fst ` set (cp_slots p))"
      "length (cp_slots p1) = (if t_thread_slot p th = 0 then Suc (length (cp_slots p)) else length (cp_slots p))"
    and v: "\<forall>j \<ge> 1. cp_value p1 j = i32 (cp_value p j + (if j = i then delta else 0))"
    by blast
  have reg1: "registered tid p1" using reg unfolding registered_def p1(7) sl by (auto simp: insert_absorb)
  have "?N \<union> (\<lambda>(th, n, delta). n) ` set (call # calls) = fst ` set (cp_counters p1) \<union> (\<lambda>(th, n, delta). n) ` set calls"
    by (auto simp: p1(4) call)
  with Cons.prems p1 reg1 call obtain p2 where p2: "run_counters tid p1 calls = Inr p2" "cp_inv p2"
      "cp_max_threads p2 = cp_max_threads p" "cp_max_counters p2 = cp_max_counters p"
      "map_of (cp_counters p1) \<subseteq>\<^sub>m map_of (cp_counters p2)"
      "fst ` set (cp_counters p2) = fst ` set (cp_counters p1) \<union> (\<lambda>(th, n, delta). n) ` set calls"
      "\<forall>name i. map_of (cp_counters p2) name = Some i \<longrightarrow> cp_value p2 i = i32 (cp_value p1 i + counted calls name)"
    using Cons.IH [of p1] by auto
  have i: "map_of (cp_counters p2) name = Some i" using p1(2) p2(5) by (metis domI map_le_def)
  have "cp_value p2 j = i32 (cp_value p j + counted (call # calls) n)" if n: "map_of (cp_counters p2) n = Some j" for n j
  proof -
    have "j = i \<longleftrightarrow> name = n" using registered_id_inj [OF p2(2) i, of n] n i by auto
    then show ?thesis using p2(7) n v registered_id(1) [OF p2(2) n] by (auto simp: call wrap_simps add.assoc)
  qed
  then show ?case using d p2 p1 map_le_trans [OF p1(3) p2(5)] by (auto simp: call)
qed



lemma private_cells:
  "cp_inv (CounterProvider_new mt mc memory)"
  "cp_inv p \<Longrightarrow> cp_inv (snd (GetCounterId p name)) \<and> cp_inv (snd (GetSlotId p th tid))"
  "cp_inv p \<Longrightarrow> map_of (cp_counters p) name = Some i \<Longrightarrow> map_of (cp_counters p) name' = Some i' \<Longrightarrow>
     t_thread_slot p th \<noteq> 0 \<Longrightarrow> t_thread_slot p th' \<noteq> 0 \<Longrightarrow>
     (\<exists>x. load (cp_data p) (GetLocation p i (t_thread_slot p th)) = Inr x) \<and>
     (GetLocation p i (t_thread_slot p th) = GetLocation p i' (t_thread_slot p th') \<longleftrightarrow> name = name' \<and> th = th')"
proof -
  show "cp_inv (CounterProvider_new mt mc memory)" by (rule cp_inv_new)
next
  assume inv: "cp_inv p"
  have "cp_inv (snd (GetCounterId p name))"
    using GetCounterId_registers [OF inv, of name "fst (GetCounterId p name)" "snd (GetCounterId p name)"] inv
    by (cases "name \<in> fst ` set (cp_counters p) \<or> length (cp_counters p) < cp_max_counters p")
      (auto simp: GetCounterId_def split: option.split)
  moreover have "cp_inv (snd (GetSlotId p th tid))"
    using GetSlotId_registers [OF inv, of th tid "fst (GetSlotId p th tid)" "snd (GetSlotId p th tid)"] inv
    by (cases "t_thread_slot p th \<noteq> 0 \<or> length (cp_slots p) < cp_max_threads p \<and> tid \<notin> fst ` set (cp_slots p)")
      (auto simp: GetSlotId_def map_of_eq_None_iff split: option.split)
  ultimately show "cp_inv (snd (GetCounterId p name)) \<and> cp_inv (snd (GetSlotId p th tid))" ..
next
  assume inv: "cp_inv p" and i: "map_of (cp_counters p) name = Some i" "map_of (cp_counters p) name' = Some i'"
    and s: "t_thread_slot p th \<noteq> 0" "t_thread_slot p th' \<noteq> 0"
  have own: "t_thread_slot p th = t_thread_slot p th' \<longleftrightarrow> th = th'" using inv s by (auto simp: cp_inv_def)
  have range: "1 \<le> t_thread_slot p x \<and> t_thread_slot p x \<le> int (cp_max_threads p)" if "t_thread_slot p x \<noteq> 0" for x
  proof -
    have "0 \<le> t_thread_slot p x" "t_thread_slot p x \<le> int (length (cp_slots p))" "length (cp_slots p) \<le> cp_max_threads p"
      using inv by (simp_all add: cp_inv_def)
    with that show ?thesis by simp
  qed
  note c = Counter_Add_cell [OF inv i(1) range [OF s(1), THEN conjunct1] range [OF s(1), THEN conjunct2]]
  note c' = Counter_Add_cell [OF inv i(2) range [OF s(2), THEN conjunct1] range [OF s(2), THEN conjunct2]]
  have ids: "i = i' \<longleftrightarrow> name = name'" using registered_id_inj [OF inv i(1), of name'] i by fastforce
  have "i = i' \<and> t_thread_slot p th = t_thread_slot p th'"
    if "GetLocation p i (t_thread_slot p th) = GetLocation p i' (t_thread_slot p th')"
  proof -
    have "nat i - 1 = nat i' - 1 \<and> nat (t_thread_slot p th) - 1 = nat (t_thread_slot p th') - 1"
      using c c' that by (intro row_cell_inj [of _ "cp_max_threads p"]) simp_all
    then show ?thesis
      using registered_id(1) [OF inv i(1)] registered_id(1) [OF inv i(2)] range [OF s(1)] range [OF s(2)]
      by linarith
  qed
  then have "GetLocation p i (t_thread_slot p th) = GetLocation p i' (t_thread_slot p th') \<longleftrightarrow> name = name' \<and> th = th'"
    using own ids by metis
  moreover have "\<exists>x. load (cp_data p) (GetLocation p i (t_thread_slot p th)) = Inr x" using c(1,5) by (simp add: load_def)
  ultimately show "(\<exists>x. load (cp_data p) (GetLocation p i (t_thread_slot p th)) = Inr x) \<and>
     (GetLocation p i (t_thread_slot p th) = GetLocation p i' (t_thread_slot p th') \<longleftrightarrow> name = name' \<and> th = th')"
    by (rule conjI [rotated])
qed

text \<open>
  Counters need no lock because cells are private: in a well-formed provider two registered threads, or two
  counters, never share a cell, and every cell is inside the array. A new provider is well formed
  and registering threads and counters keeps it so.
\<close>
theorem Counter_cells_private:
  "cp_inv (CounterProvider_new mt mc memory) \<and>
   (cp_inv p \<longrightarrow> cp_inv (snd (GetCounterId p name)) \<and> cp_inv (snd (GetSlotId p th tid)) \<and>
     (map_of (cp_counters p) name = Some i \<and> map_of (cp_counters p) name' = Some i' \<and>
      t_thread_slot p th \<noteq> 0 \<and> t_thread_slot p th' \<noteq> 0 \<longrightarrow>
        (\<exists>x. load (cp_data p) (GetLocation p i (t_thread_slot p th)) = Inr x) \<and>
        (GetLocation p i (t_thread_slot p th) = GetLocation p i' (t_thread_slot p th') \<longleftrightarrow> name = name' \<and> th = th')))"
  using private_cells by metis

lemma extra_thread:
  assumes "cp_inv p" "0 < cp_max_threads p" "length (cp_slots p) = cp_max_threads p" "t_thread_slot p th = 0"
    "map_of (cp_counters p) name = Some i"
  shows "i = 1 \<Longrightarrow> DEFINE_COUNTER p th tid name delta = Inl Out_Of_Bounds"
    "i \<noteq> 1 \<Longrightarrow> \<exists>p'. DEFINE_COUNTER p th tid name delta = Inr p' \<and>
       (\<forall>j. 1 \<le> j \<and> j \<le> int (cp_max_counters p) \<longrightarrow>
          Impl_GetCounterValue p' j = Inr (i32 (cp_value p j + (if j = i - 1 then delta else 0))))"
proof -
  note i = registered_id [OF assms(1,5)]
  have run: "DEFINE_COUNTER p th tid name delta =
      bindR (load (cp_data p) (GetLocation p i 0)) (\<lambda>x. bindR (store (cp_data p) (GetLocation p i 0) (i32 (x + delta))) (\<lambda>data. Inr (p\<lparr>cp_data := data\<rparr>)))"
    using i assms(3-5)
    by (simp add: DEFINE_COUNTER_def Counter_Add_def Counter_update_def Counter_GetPtr_def Counter_new_def
        GetCounterId_def GetSlotId_def Provider_GetLocation_def bindR_assoc)
  then show "i = 1 \<Longrightarrow> DEFINE_COUNTER p th tid name delta = Inl Out_Of_Bounds"
    by (simp add: GetLocation_def load_def)
  assume "i \<noteq> 1"
  define c where "c = nat i - 2"
  define k where "k = c * cp_max_threads p + (cp_max_threads p - 1)"
  have c: "c < cp_max_counters p" "cp_max_threads p - 1 < cp_max_threads p" using i \<open>i \<noteq> 1\<close> assms(2) by (auto simp: c_def)
  have len: "length (cp_data p) = cp_max_threads p * cp_max_counters p" using assms(1) by (simp add: cp_inv_def)
  have k: "k < length (cp_data p)" unfolding k_def len by (rule row_in_data [OF c])
  have "i = int c + 2" using i(1) \<open>i \<noteq> 1\<close> by (simp add: c_def)
  then have "GetLocation p i 0 = int k"
    using assms(2) by (simp add: GetLocation_def k_def of_nat_diff algebra_simps)
  define p' where "p' = p\<lparr>cp_data := (cp_data p)[k := i32 (cp_data p ! k + delta)]\<rparr>"
  have "DEFINE_COUNTER p th tid name delta = Inr p'"
    using k \<open>GetLocation p i 0 = int k\<close> by (simp add: run load_def store_def p'_def)
  moreover have "Impl_GetCounterValue p' j = Inr (i32 (cp_value p j + (if j = i - 1 then delta else 0)))"
    if j: "1 \<le> j" "j \<le> int (cp_max_counters p)" for j
  proof -
    have "cp_inv p'" using assms(1) by (simp add: cp_inv_def p'_def)
    moreover have "nat j - 1 = c \<longleftrightarrow> j = i - 1" using j \<open>i = int c + 2\<close> by auto
    ultimately show ?thesis
      using Impl_GetCounterValue_row [of p' j] j row_sum_store [OF c len k_def, of delta "nat j - 1"]
      by (simp add: p'_def cp_value_def i32_add_i32)
  qed
  ultimately show "\<exists>p'. DEFINE_COUNTER p th tid name delta = Inr p' \<and>
       (\<forall>j. 1 \<le> j \<and> j \<le> int (cp_max_counters p) \<longrightarrow>
          Impl_GetCounterValue p' j = Inr (i32 (cp_value p j + (if j = i - 1 then delta else 0))))" by blast
qed

text \<open>
  A thread beyond \<open>provider_max_threads\<close> gets slot 0, and then recording does not touch the counter it
  names: it changes the counter registered before it by the delta, and for the first counter it
  accesses the array out of bounds.
\<close>
theorem Counter_extra_thread:
  assumes "cp_inv p" "0 < cp_max_threads p" "length (cp_slots p) = cp_max_threads p" "t_thread_slot p th = 0"
    "map_of (cp_counters p) name = Some i"
  shows "if i = 1 then DEFINE_COUNTER p th tid name delta = Inl Out_Of_Bounds
    else \<exists>p'. DEFINE_COUNTER p th tid name delta = Inr p' \<and>
       (\<forall>j. 1 \<le> j \<and> j \<le> int (cp_max_counters p) \<longrightarrow>
          Impl_GetCounterValue p' j = Inr (i32 (cp_value p j + (if j = i - 1 then delta else 0))))"
  using extra_thread [OF assms] by simp

subsection \<open>Sampling\<close>

fun run_sampler :: "counter_sampler \<Rightarrow> (int \<times> (string \<times> int) list) list \<Rightarrow> counter_sampler" where
  "run_sampler cs [] = cs"
| "run_sampler cs ((now, snapshot) # rest) = run_sampler (DoSample cs snapshot now) rest"

definition sampled :: "counter_sampler \<Rightarrow> string \<Rightarrow> int" where
  "sampled cs name = (\<Sum>s\<leftarrow>cs_samples cs. case map_of (snd s) name of Some v \<Rightarrow> v | None \<Rightarrow> 0)"

text \<open>Consecutive snapshots in which the counters, once they exist, stay and only grow.\<close>

fun growing :: "(string \<times> int) list \<Rightarrow> (int \<times> (string \<times> int) list) list \<Rightarrow> bool" where
  "growing old [] = True"
| "growing old ((now, new) # rest) =
     (distinct (map fst new) \<and> new \<noteq> [] \<and> fst ` set old \<subseteq> fst ` set new \<and>
      (\<forall>(name, v) \<in> set new. 0 \<le> v \<and> v \<le> INT_MAX \<and> (case map_of old name of Some u \<Rightarrow> 0 \<le> u \<and> u \<le> v | None \<Rightarrow> True)) \<and>
      growing new rest)"

lemma DoSnapshotDiff_lookup:
  assumes "distinct (map fst lhs)"
  shows "map_of (DoSnapshotDiff lhs rhs) name =
    (case (map_of lhs name, map_of rhs name) of
       (Some v, Some old) \<Rightarrow> Some (if v < old then i32 (i32 (INT_MAX - old) - v) else i32 (v - old))
     | _ \<Rightarrow> None)"
  using assms
proof (induction lhs rhs rule: DoSnapshotDiff.induct)
  case (2 n v lhs rhs)
  then have "map_of lhs n = None" by (simp add: map_of_eq_None_iff)
  with 2 show ?case by (cases "map_of rhs n") (auto split: option.splits)
qed simp

lemma DoSample_adds:
  assumes "growing (cs_last_snapshot cs) ((now, new) # rest)" "cs_last_snapshot cs \<noteq> []" "length (cs_samples cs) < cs_capacity cs"
    "map_of (cs_last_snapshot cs) name = Some u" "map_of new name = Some v"
  shows "sampled (DoSample cs new now) name = sampled cs name + (v - u)"
    "length (cs_samples (DoSample cs new now)) = Suc (length (cs_samples cs))"
proof -
  define e where "e = DoSnapshotDiff new (cs_last_snapshot cs)"
  have "0 \<le> u \<and> u \<le> v \<and> v \<le> INT_MAX" using assms(1,4) map_of_SomeD [OF assms(5)] by force
  then have e: "map_of e name = Some (v - u)"
    using DoSnapshotDiff_lookup [of new "cs_last_snapshot cs" name] assms by (simp add: e_def i32_id)
  then have "e \<noteq> []" by auto
  then have "cs_samples (DoSample cs new now) = cs_samples cs @ [(now, e)]"
    using assms(2,3) by (simp add: DoSample_def e_def [symmetric] circular_push_back_def)
  then show "sampled (DoSample cs new now) name = sampled cs name + (v - u)"
    "length (cs_samples (DoSample cs new now)) = Suc (length (cs_samples cs))"
    using e by (simp_all add: sampled_def)
qed

lemma DoSample_last [simp]: "cs_last_snapshot (DoSample cs new now) = new" "cs_capacity (DoSample cs new now) = cs_capacity cs"
  by (simp_all add: DoSample_def Let_def)

lemma run_sampler_sum:
  assumes "growing (cs_last_snapshot cs) snaps" "cs_last_snapshot cs \<noteq> []" "length (cs_samples cs) + length snaps \<le> cs_capacity cs"
    "map_of (cs_last_snapshot cs) name = Some u"
  shows "\<exists>v. map_of (cs_last_snapshot (run_sampler cs snaps)) name = Some v \<and> sampled (run_sampler cs snaps) name = sampled cs name + (v - u)"
  using assms
proof (induction snaps arbitrary: cs u)
  case (Cons s snaps)
  obtain now new where s: "s = (now, new)" by fastforce
  have "name \<in> fst ` set new" using Cons.prems(1,4) map_of_SomeD [OF Cons.prems(4)] by (force simp: s)
  then obtain v where v: "map_of new name = Some v" by (metis map_of_eq_None_iff option.exhaust)
  note d = DoSample_adds [OF Cons.prems(1) [unfolded s] Cons.prems(2) _ Cons.prems(4) v]
  have "growing new snaps" "new \<noteq> []" using Cons.prems(1) by (auto simp: s)
  with Cons.IH [of "DoSample cs new now" v] v d Cons.prems(3) show ?case by (auto simp: s)
qed simp

text \<open>
  As long as the ring has not wrapped around and no counter decreases, the samples add up: for a counter of
  the first snapshot the recorded increments sum to its last value minus its first.
\<close>
theorem Sampler_increments:
  assumes "growing [] ((t, first) # snaps)" "length snaps \<le> duration * 60 div rate" "map_of first name = Some u"
  shows "\<exists>v. map_of (cs_last_snapshot (run_sampler (CounterSampler_new duration rate) ((t, first) # snaps))) name = Some v \<and>
    sampled (run_sampler (CounterSampler_new duration rate) ((t, first) # snaps)) name = v - u"
proof -
  let ?cs = "DoSample (CounterSampler_new duration rate) first t"
  have "cs_samples ?cs = []" "cs_capacity ?cs = duration * 60 div rate" by (simp_all add: DoSample_def CounterSampler_new_def)
  then show ?thesis using run_sampler_sum [of ?cs snaps name u] assms by (auto simp: sampled_def)
qed

text \<open>A counter that goes down by two is sampled as a jump of about \<open>INT_MAX\<close>.\<close>

lemma DoSnapshotDiff_decrease: "DoSnapshotDiff [(''a'', 3)] [(''a'', 5)] = [(''a'', INT_MAX - 8)]"
  by (simp add: i32_id)

end
