(* ===== verification/Printf.thy ===== *)
theory Printf
  imports Prelude
begin

text \<open>
  The printf wrappers, \<^verbatim>\<open>strings/StringPrintf.h,.cc\<close>.

  \<open>vs n\<close> is the call of \<open>vsnprintf\<close> with the format and the arguments at hand and an array of \<open>n\<close> characters: the value
  it returns, \<open>errno\<close> behind it, and the characters it stored. It is an argument, since its answers for texts that do
  not fit differ between C libraries. The loop that grows the buffer is a partial function: \<open>None\<close> would be a loop for ever.
  Warnings to the log are left out.
\<close>

type_synonym vsnprintf = "int \<Rightarrow> int \<times> int \<times> string"

definition kStackBuffer :: int where "kStackBuffer = 1024"
definition kMaxBuffer :: int where "kMaxBuffer = 32 * 1024 * 1024"
definition EOVERFLOW :: int where "EOVERFLOW = 75"

partial_function (option) grow_loop :: "vsnprintf \<Rightarrow> int \<Rightarrow> int \<Rightarrow> int \<Rightarrow> string \<Rightarrow> string result option" where
  "grow_loop vs mem_length result errno dst =
     (if result < 0 \<and> errno \<noteq> 0 \<and> errno \<noteq> EOVERFLOW then Some (Inr dst)
      else let mem_length = i32 (if result < 0 then mem_length * 2 else result + 1)
           in if kMaxBuffer < mem_length then Some (Inr dst)
              else if mem_length < 0 then Some (Inl Length_Error)
              else (case vs mem_length of (result, errno, mem_buf) \<Rightarrow>
                     if 0 \<le> result \<and> result < mem_length then Some (Inr (dst @ take (nat result) mem_buf))
                     else grow_loop vs mem_length result errno dst))"

declare grow_loop.simps [code]

definition StringAppendVT :: "vsnprintf \<Rightarrow> string \<Rightarrow> string result option" where
  "StringAppendVT vs dst =
     (case vs kStackBuffer of (result, errno, stack_buf) \<Rightarrow>
        if 0 \<le> result \<and> result < kStackBuffer then Some (Inr (dst @ take (nat result) stack_buf))
        else grow_loop vs kStackBuffer result errno dst)"

definition StringAppendV :: "vsnprintf \<Rightarrow> string \<Rightarrow> string result option" where
  "StringAppendV vs dst = StringAppendVT vs dst"

definition StringPrintf :: "vsnprintf \<Rightarrow> string result option" where "StringPrintf vs = StringAppendV vs ''''"

definition StringPrintV :: "vsnprintf \<Rightarrow> string result option" where "StringPrintV vs = StringAppendV vs ''''"

definition SStringPrintf :: "vsnprintf \<Rightarrow> string \<Rightarrow> string result option" where
  "SStringPrintf vs dst = StringAppendV vs ''''"

definition StringAppendF :: "vsnprintf \<Rightarrow> string \<Rightarrow> string result option" where
  "StringAppendF vs dst = StringAppendV vs dst"

subsection \<open>The loop ends\<close>

lemma grow_loop_ends:
  assumes "0 < mem_length" "mem_length \<le> kMaxBuffer" "result < 0 \<or> mem_length \<le> result" "result \<le> INT_MAX"
    "\<And>n. fst (vs n) \<le> INT_MAX"
  shows "\<exists>r. grow_loop vs mem_length result errno dst = Some r"
  using assms(1-4)
proof (induction "nat (kMaxBuffer - mem_length)" arbitrary: mem_length result errno rule: less_induct)
  case less
  let ?n = "i32 (if result < 0 then mem_length * 2 else result + 1)"
  obtain r e s where v: "vs ?n = (r, e, s)" using prod_cases3 by blast
  have r: "r \<le> INT_MAX" using assms(5) [of ?n] v by simp
  have k: "kMaxBuffer = 33554432" by (simp add: kMaxBuffer_def)
  consider "result < 0 \<and> errno \<noteq> 0 \<and> errno \<noteq> EOVERFLOW" | "kMaxBuffer < ?n" | "?n < 0" | "0 \<le> r \<and> r < ?n"
    | "\<not> (result < 0 \<and> errno \<noteq> 0 \<and> errno \<noteq> EOVERFLOW)" "0 \<le> ?n" "?n \<le> kMaxBuffer" "\<not> (0 \<le> r \<and> r < ?n)" by linarith
  then show ?case
  proof cases
    case 5
    have n: "mem_length < ?n"
    proof (cases "result < 0")
      case True
      then show ?thesis using less.prems k by (simp add: i32_id)
    next
      case False
      show ?thesis
      proof (cases "result = INT_MAX")
        case True
        then have "?n = INT_MIN" by (simp add: i32_def signed_take_bit_int_eq_self_iff)
        then show ?thesis using 5(2) by simp
      next
        case False
        then show ?thesis using less.prems \<open>\<not> result < 0\<close> by (simp add: i32_id)
      qed
    qed
    then have "nat (kMaxBuffer - ?n) < nat (kMaxBuffer - mem_length)" "0 < ?n" using 5(3) less.prems(1) by linarith+
    from less.hyps [OF this 5(3) _ r, of e] 5(4) obtain x where "grow_loop vs ?n r e dst = Some x" by force
    then show ?thesis using 5 v by (subst grow_loop.simps) (simp add: Let_def)
  qed (use v in \<open>subst grow_loop.simps, simp add: Let_def\<close>)+
qed

text \<open>
  C37: whatever \<open>vsnprintf\<close> answers, the loop that grows the buffer ends: each round asks for a larger buffer, and none
  above 32 megabytes.
\<close>
theorem StringAppendV_terminates:
  assumes "\<forall>n. fst (vs n) \<le> INT_MAX"
  shows "\<exists>r. StringAppendV vs dst = Some r"
proof -
  obtain r e s where v: "vs kStackBuffer = (r, e, s)" using prod_cases3 by blast
  have "r \<le> INT_MAX" using assms v by (metis fst_conv)
  moreover have "0 < kStackBuffer" "kStackBuffer \<le> kMaxBuffer" by (simp_all add: kStackBuffer_def kMaxBuffer_def)
  ultimately have "\<exists>x. grow_loop vs kStackBuffer r e dst = Some x" if "\<not> (0 \<le> r \<and> r < kStackBuffer)"
    using grow_loop_ends [of kStackBuffer r vs e dst] that assms by force
  then show ?thesis by (auto simp: StringAppendV_def StringAppendVT_def v)
qed

text \<open>The answers of C99: the length of the whole text, of which the array takes all but one.\<close>

definition c99 :: "string \<Rightarrow> vsnprintf" where
  "c99 text n = (int (length text), 0, take (nat n - 1) text)"

text \<open>
  With a \<open>vsnprintf\<close> of C99 the text is appended whole, at any length below 32 megabytes, and nothing is appended
  above.
\<close>
theorem StringAppendV_appends:
  assumes "int (length text) < INT_MAX"
  shows "StringAppendV (c99 text) dst = Some (Inr (if int (length text) < kMaxBuffer then dst @ text else dst))"
proof (cases "int (length text) < kStackBuffer")
  case True
  moreover from this have "length text \<le> 1023" "int (length text) < kMaxBuffer" by (simp_all add: kStackBuffer_def kMaxBuffer_def)
  ultimately show ?thesis by (simp add: StringAppendV_def StringAppendVT_def c99_def kStackBuffer_def)
next
  case False
  then have "StringAppendV (c99 text) dst = grow_loop (c99 text) kStackBuffer (int (length text)) 0 dst"
    by (simp add: StringAppendV_def StringAppendVT_def c99_def)
  also have "\<dots> = Some (Inr (if int (length text) < kMaxBuffer then dst @ text else dst))"
    using assms by (subst grow_loop.simps) (auto simp: Let_def i32_id c99_def nat_add_distrib)
  finally show ?thesis .
qed

lemma StringAppendV_terminates_witness: "\<exists>r. StringAppendV (\<lambda>n. (-1, 0, '''')) ''x'' = Some r"
  by (rule StringAppendV_terminates) simp

end
