(* ===== verification/Clock.thy ===== *)
theory Clock
  imports Times Strings
begin

text \<open>
  Calendar text: \<^verbatim>\<open>Timestamp::ToString\<close> and \<^verbatim>\<open>Timestamp::ToFormattedString\<close> of \<^verbatim>\<open>time/Timestamp.cc\<close>, and the thread
  identifiers of \<^verbatim>\<open>threading/ThisThread.h,.cc\<close>. Then the small helpers of the library: process information
  (\<^verbatim>\<open>system/ThisProcess.h,.cc\<close>), singletons (\<^verbatim>\<open>threading/Singleton.h\<close>), checked casts (\<^verbatim>\<open>base/Types.h\<close>) and callbacks
  that hold their object weakly (\<^verbatim>\<open>base/WeakCallback.h\<close>).

  \<open>gmtime\<close> is the C library's conversion: days of 86400 seconds in the proleptic Gregorian calendar, whose years repeat
  after 400 years of 146097 days; the year and the month are found by counting days off. \<open>snprintf\<close> into an array cuts
  the text to the array's size less one. The thread id is an input of \<open>CacheTid\<close>, and the thread-local variables are a record.
\<close>

subsection \<open>Conversions of the printf family\<close>

definition fmt_w :: "nat \<Rightarrow> int \<Rightarrow> string" where
  "fmt_w w x = (let s = fmt_d x in replicate (w - length s) (CHR '' '') @ s)"

definition fmt_0w :: "nat \<Rightarrow> int \<Rightarrow> string" where
  "fmt_0w w x = (if x < 0 then ''-'' @ pad_zero (w - 1) (dec_digits (nat (- x))) else pad_zero w (dec_digits (nat x)))"

lemma digit_chars:
  "char_of (48 :: nat) = CHR ''0''" "char_of (49 :: nat) = CHR ''1''" "char_of (50 :: nat) = CHR ''2''" "char_of (51 :: nat) = CHR ''3''"
  "char_of (52 :: nat) = CHR ''4''" "char_of (53 :: nat) = CHR ''5''" "char_of (54 :: nat) = CHR ''6''" "char_of (55 :: nat) = CHR ''7''"
  "char_of (56 :: nat) = CHR ''8''" "char_of (57 :: nat) = CHR ''9''"
  by code_simp+

text \<open>\<open>snprintf\<close> into an array of the given size: the text it stores.\<close>

definition snprintf_text :: "nat \<Rightarrow> string \<Rightarrow> string" where "snprintf_text n s = take (n - 1) s"

subsection \<open>The calendar\<close>

record tm =
  tm_year :: int
  tm_mon :: int
  tm_mday :: int
  tm_hour :: int
  tm_min :: int
  tm_sec :: int

definition leap :: "int \<Rightarrow> bool" where "leap y \<longleftrightarrow> y mod 4 = 0 \<and> (y mod 100 \<noteq> 0 \<or> y mod 400 = 0)"

definition year_days :: "int \<Rightarrow> nat" where "year_days y = (if leap y then 366 else 365)"

definition month_days :: "int \<Rightarrow> nat list" where
  "month_days y = [31, if leap y then 29 else 28, 31, 30, 31, 30, 31, 31, 30, 31, 30, 31]"

function count_years :: "int \<Rightarrow> nat \<Rightarrow> int \<times> nat" where
  "count_years y d = (if d < year_days y then (y, d) else count_years (y + 1) (d - year_days y))"
  by pat_completeness auto
termination
  by (relation "measure snd") (auto simp: year_days_def split: if_splits)

declare count_years.simps [simp del]

fun count_months :: "nat list \<Rightarrow> int \<Rightarrow> nat \<Rightarrow> int \<times> nat" where
  "count_months [] m d = (m, d)"
| "count_months (n # ns) m d = (if d < n then (m, d) else count_months ns (m + 1) (d - n))"

definition gmtime :: "int \<Rightarrow> tm" where
  "gmtime s =
     (let days = s div 86400; tod = s mod 86400;
          (y, yday) = count_years 1970 (nat (days mod 146097));
          (m, mday) = count_months (month_days y) 0 yday
      in \<lparr>tm_year = y + 400 * (days div 146097) - 1900, tm_mon = m, tm_mday = int mday + 1,
          tm_hour = tod div 3600, tm_min = tod mod 3600 div 60, tm_sec = tod mod 60\<rparr>)"

lemma count_years_bound: "count_years y d = (z, r) \<Longrightarrow> r < year_days z \<and> y \<le> z \<and> 365 * (z - y) \<le> int d"
proof (induction y d rule: count_years.induct)
  case (1 y d)
  show ?case
  proof (cases "d < year_days y")
    case True
    then show ?thesis using 1(2) by (simp add: count_years.simps [of y d])
  next
    case False
    then have c: "count_years (y + 1) (d - year_days y) = (z, r)" using 1(2) by (simp add: count_years.simps [of y d])
    have "365 \<le> int (year_days y)" by (simp add: year_days_def)
    then show ?thesis using 1(1) [OF False c] False by (auto simp: of_nat_diff)
  qed
qed

lemma count_months_bound:
  "count_months ns m d = (k, r) \<Longrightarrow> d < sum_list ns \<Longrightarrow> m \<le> k \<and> k < m + int (length ns) \<and> r < ns ! nat (k - m)"
proof (induction ns arbitrary: m d)
  case (Cons n ns)
  show ?case
  proof (cases "d < n")
    case True
    then show ?thesis using Cons.prems(1) by auto
  next
    case False
    then have "m + 1 \<le> k \<and> k < m + 1 + int (length ns) \<and> r < ns ! nat (k - (m + 1))"
      using Cons.IH [of "m + 1" "d - n"] Cons.prems by auto
    moreover from this have "nat (k - m) = Suc (nat (k - (m + 1)))" by linarith
    ultimately show ?thesis by auto
  qed
qed simp

lemma month_days_sum: "sum_list (month_days y) = year_days y"
  by (simp add: month_days_def year_days_def)

text \<open>The fields of a broken-down time that four digits for the year and two for the others can hold.\<close>

definition tm_ok :: "tm \<Rightarrow> bool" where
  "tm_ok t \<longleftrightarrow> 1000 \<le> tm_year t + 1900 \<and> tm_year t + 1900 < 10000 \<and> 0 \<le> tm_mon t \<and> tm_mon t < 12 \<and> 1 \<le> tm_mday t \<and> tm_mday t \<le> 31 \<and>
     0 \<le> tm_hour t \<and> tm_hour t < 24 \<and> 0 \<le> tm_min t \<and> tm_min t < 60 \<and> 0 \<le> tm_sec t \<and> tm_sec t < 60"

lemma month_days_le: "i < 12 \<Longrightarrow> month_days y ! i \<le> 31"
  by (auto simp: month_days_def less_Suc_eq numeral_eq_Suc)

text \<open>From 1970 to the end of the year 9169 (19 periods of 400 years).\<close>

definition kLastSecond :: int where "kLastSecond = 19 * 146097 * 86400"

lemma tm_okI:
  "1000 \<le> y + 1900 \<Longrightarrow> y + 1900 < 10000 \<Longrightarrow> 0 \<le> m \<Longrightarrow> m < 12 \<Longrightarrow> 0 \<le> d \<Longrightarrow> d < 31 \<Longrightarrow> 0 \<le> h \<Longrightarrow> h < 24 \<Longrightarrow>
     0 \<le> n \<Longrightarrow> n < 60 \<Longrightarrow> 0 \<le> s \<Longrightarrow> s < 60 \<Longrightarrow>
     tm_ok \<lparr>tm_year = y, tm_mon = m, tm_mday = d + 1, tm_hour = h, tm_min = n, tm_sec = s\<rparr>"
  by (simp add: tm_ok_def)

lemma day_fields:
  fixes t :: int
  assumes "0 \<le> t" "t < 86400"
  shows "0 \<le> t div 3600" "t div 3600 < 24" "0 \<le> t mod 3600 div 60" "t mod 3600 div 60 < 60" "0 \<le> t mod 60" "t mod 60 < 60"
  using assms by (simp_all add: div_less_iff_less_mult pos_imp_zdiv_nonneg_iff)

lemma year_fields:
  fixes y c :: int
  assumes "1970 \<le> y" "365 * (y - 1970) < 146097" "0 \<le> c" "c < 19"
  shows "1000 \<le> y + 400 * c - 1900 + 1900" "y + 400 * c - 1900 + 1900 < 10000"
proof -
  have "y \<le> 2370"
  proof (rule ccontr)
    assume "\<not> y \<le> 2370"
    then have "401 \<le> y - 1970" by linarith
    then have "365 * 401 \<le> 365 * (y - 1970)" by (rule mult_left_mono) simp
    with assms(2) show False by simp
  qed
  with assms show "1000 \<le> y + 400 * c - 1900 + 1900" "y + 400 * c - 1900 + 1900 < 10000" by linarith+
qed

lemma count_months_year:
  assumes "count_months (month_days y) 0 yday = (m, d)" "yday < year_days y"
  shows "0 \<le> m" "m < 12" "0 \<le> int d" "int d < 31"
proof -
  have "0 \<le> m \<and> m < int (length (month_days y)) \<and> d < month_days y ! nat (m - 0)"
    using count_months_bound [OF assms(1)] assms(2) by (simp add: month_days_sum)
  then have mb: "0 \<le> m" "m < 12" "d < month_days y ! nat m" by (simp_all add: month_days_def)
  with month_days_le [of "nat m" y] show "0 \<le> m" "m < 12" "0 \<le> int d" "int d < 31" by linarith+
qed

lemma gmtime_ok:
  assumes "0 \<le> s" "s < kLastSecond"
  shows "tm_ok (gmtime s)"
proof -
  define days t where "days = s div 86400" and "t = s mod 86400"
  define e c where "e = nat (days mod 146097)" and "c = days div 146097"
  have t: "0 \<le> t" "t < 86400" by (simp_all add: t_def)
  have e: "int e < 146097" by (simp add: e_def)
  have c: "0 \<le> c" "c < 19"
    using assms by (simp_all add: c_def days_def kLastSecond_def div_less_iff_less_mult pos_imp_zdiv_nonneg_iff)
  obtain y yday where y: "count_years 1970 e = (y, yday)" by force
  obtain m d where m: "count_months (month_days y) 0 yday = (m, d)" by force
  have yb: "yday < year_days y" "1970 \<le> y" "365 * (y - 1970) \<le> int e" using count_years_bound [OF y] by blast+
  have "gmtime s = \<lparr>tm_year = y + 400 * c - 1900, tm_mon = m, tm_mday = int d + 1,
      tm_hour = t div 3600, tm_min = t mod 3600 div 60, tm_sec = t mod 60\<rparr>"
    by (simp only: gmtime_def Let_def days_def [symmetric] t_def [symmetric] e_def [symmetric] c_def [symmetric] y m case_prod_conv)
  moreover have "tm_ok \<dots>"
    by (rule tm_okI) (rule year_fields [OF yb(2) le_less_trans [OF yb(3) e] c] count_months_year [OF m yb(1)] day_fields [OF t])+
  ultimately show ?thesis by (simp only:)
qed

subsection \<open>Timestamps as text\<close>

definition Timestamp_ToString :: "timestamp \<Rightarrow> string" where
  "Timestamp_ToString t =
     (let seconds = microseconds_since_epoch t sdiv kMicroSecondsPerSecond;
          microseconds = microseconds_since_epoch t smod kMicroSecondsPerSecond
      in snprintf_text 31 (fmt_d seconds @ ''.'' @ fmt_0w 6 microseconds))"

definition date_text :: "tm \<Rightarrow> string" where
  "date_text t = fmt_w 4 (tm_year t + 1900) @ fmt_0w 2 (tm_mon t + 1) @ fmt_0w 2 (tm_mday t) @ '' '' @
     fmt_0w 2 (tm_hour t) @ '':'' @ fmt_0w 2 (tm_min t) @ '':'' @ fmt_0w 2 (tm_sec t)"

definition Timestamp_ToFormattedString :: "timestamp \<Rightarrow> string" where
  "Timestamp_ToFormattedString t =
     (let seconds = microseconds_since_epoch t sdiv kMicroSecondsPerSecond;
          microseconds = i32 (microseconds_since_epoch t smod kMicroSecondsPerSecond)
      in snprintf_text 32 (date_text (gmtime seconds) @ ''.'' @ fmt_0w 6 microseconds))"

lemma length_dec_digits:
  assumes "10 ^ k \<le> n \<or> k = 0" "n < 10 ^ Suc k"
  shows "length (dec_digits n) = Suc k"
  using assms
proof (induction k arbitrary: n)
  case 0
  then show ?case by (simp add: dec_digits.simps [of n])
next
  case (Suc k)
  then have b: "10 * 10 ^ k \<le> n" "n < 10 * 10 ^ Suc k" by simp_all
  moreover have "(1 :: nat) \<le> 10 ^ k" by simp
  ultimately have "10 \<le> n" by linarith
  moreover have "10 ^ k \<le> n div 10" using div_le_mono [OF b(1), of 10] by simp
  moreover have "n div 10 < 10 ^ Suc k" using b(2) by (simp only: less_mult_imp_div_less mult.commute)
  ultimately show ?case using Suc.IH [of "n div 10"] by (simp add: dec_digits.simps [of n])
qed

lemma length_fmt_0w: "0 \<le> x \<Longrightarrow> x < 10 ^ Suc k \<Longrightarrow> length (fmt_0w (Suc k) x) = Suc k"
  using dec_digits_length [of "nat x" k] by (simp add: fmt_0w_def pad_zero_def nat_less_iff)

lemma length_fmt_w: "0 \<le> x \<Longrightarrow> x < 10 ^ Suc k \<Longrightarrow> length (fmt_w (Suc k) x) = Suc k"
  using dec_digits_length [of "nat x" k] by (simp add: fmt_w_def fmt_d_def Let_def nat_less_iff)

lemma length_date_text: "tm_ok t \<Longrightarrow> length (date_text t) = 17"
  using length_fmt_w [of "tm_year t + 1900" 3] length_fmt_0w [of "tm_mon t + 1" 1] length_fmt_0w [of "tm_mday t" 1]
    length_fmt_0w [of "tm_hour t" 1] length_fmt_0w [of "tm_min t" 1] length_fmt_0w [of "tm_sec t" 1]
  by (simp add: date_text_def tm_ok_def eval_nat_numeral)

subsection \<open>Thread identifiers\<close>

record thread_locals =
  t_cached_tid :: int
  t_tid_string :: string
  t_thread_name :: string
  t_time :: string
  t_last_second :: int

definition thread_locals_new :: thread_locals where
  "thread_locals_new = \<lparr>t_cached_tid = 0, t_tid_string = replicate 32 (CHR 0x00), t_thread_name = ''unknown'',
     t_time = replicate 32 (CHR 0x00), t_last_second = 0\<rparr>"

text \<open>\<open>snprintf\<close> overwrites the start of an array, terminating NUL included.\<close>

definition snprintf_into :: "string \<Rightarrow> string \<Rightarrow> string" where
  "snprintf_into buf s =
     (let text = snprintf_text (length buf) s in text @ CHR 0x00 # drop (length text + 1) buf)"

definition CacheTid :: "int \<Rightarrow> thread_locals \<Rightarrow> thread_locals result" where
  "CacheTid gettid loc =
     (if t_cached_tid loc = 0
      then let s = fmt_w 5 gettid @ '' ''
           in CHECK (length s = 6) (Inr (loc\<lparr>t_cached_tid := gettid, t_tid_string := snprintf_into (t_tid_string loc) s\<rparr>))
      else Inr loc)"

definition ThisThread_tid :: "int \<Rightarrow> thread_locals \<Rightarrow> (int \<times> thread_locals) result" where
  "ThisThread_tid gettid loc =
     bindR (if t_cached_tid loc = 0 then CacheTid gettid loc else Inr loc) (\<lambda>loc. Inr (t_cached_tid loc, loc))"

definition ThisThread_tid_string :: "thread_locals \<Rightarrow> string" where
  "ThisThread_tid_string loc = takeWhile (\<lambda>c. c \<noteq> CHR 0x00) (t_tid_string loc)"

definition thread_name :: "thread_locals \<Rightarrow> string" where "thread_name loc = t_thread_name loc"

definition set_thread_name :: "string \<Rightarrow> thread_locals \<Rightarrow> thread_locals" where
  "set_thread_name name loc = loc\<lparr>t_thread_name := name\<rparr>"

definition IsMainThread :: "int \<Rightarrow> int \<Rightarrow> thread_locals \<Rightarrow> (bool \<times> thread_locals) result" where
  "IsMainThread getpid gettid loc = bindR (ThisThread_tid gettid loc) (\<lambda>(t, loc). Inr (t = getpid, loc))"

text \<open>The child of a fork and the start of the process: both name the thread and cache its id.\<close>

definition after_fork :: "int \<Rightarrow> thread_locals \<Rightarrow> thread_locals result" where
  "after_fork gettid loc =
     bindR (ThisThread_tid gettid (loc\<lparr>t_cached_tid := 0, t_thread_name := ''main''\<rparr>)) (\<lambda>(_, loc). Inr loc)"

definition ThreadNameInitializer :: "int \<Rightarrow> thread_locals \<Rightarrow> thread_locals result" where
  "ThreadNameInitializer gettid loc =
     bindR (ThisThread_tid gettid (loc\<lparr>t_thread_name := ''main''\<rparr>)) (\<lambda>(_, loc). Inr loc)"

text \<open>The seconds and nanoseconds handed to \<open>nanosleep\<close>.\<close>

definition SleepForMicroSeconds :: "int \<Rightarrow> int \<times> int" where
  "SleepForMicroSeconds microseconds = (microseconds sdiv 10000000, i64 (microseconds smod 1000000 * 1000))"

lemma length_tid_text: "0 < x \<Longrightarrow> x < 100000 \<Longrightarrow> length (fmt_w 5 x) = 5"
  using length_fmt_w [of x 4] by (simp add: eval_nat_numeral)

lemma CacheTid_large:
  assumes "t_cached_tid loc = 0" "100000 \<le> gettid" "gettid < 1000000"
  shows "CacheTid gettid loc = Inl Check_Failed"
proof -
  have "length (dec_digits (nat gettid)) = 6" using length_dec_digits [of 5 "nat gettid"] assms(2,3) by simp
  then show ?thesis using assms by (simp add: CacheTid_def fmt_w_def fmt_d_def Let_def)
qed

lemma SleepForMicroSeconds_short: "SleepForMicroSeconds 5000000 = (0, 0)"
  by (simp add: SleepForMicroSeconds_def i64_def signed_divide_int_def signed_modulo_int_def)

subsection \<open>The process\<close>

text \<open>
  \<^verbatim>\<open>system/ThisProcess.cc\<close>. What \<open>getpid\<close> and \<open>getpwuid_r\<close> find and the bytes \<open>gethostname\<close> stores are inputs; the last
  byte of the host array is a NUL unless \<open>gethostname\<close> overwrites it.
\<close>

definition ThisProcess_pid :: "int \<Rightarrow> int" where "ThisProcess_pid getpid = getpid"

definition pid_string :: "int \<Rightarrow> string" where "pid_string getpid = snprintf_text 32 (fmt_d getpid)"

definition ThisProcess_User :: "string option \<Rightarrow> string" where
  "ThisProcess_User pw_name = (case pw_name of None \<Rightarrow> ''unknownuser'' | Some user \<Rightarrow> user)"

definition ThisProcess_Host :: "string \<Rightarrow> string result" where
  "ThisProcess_Host stored =
     (let start = ''unknownhost'' @ replicate 53 (CHR 0x00); host = take 64 stored @ drop (length (take 64 stored)) start;
          name = takeWhile (\<lambda>c. c \<noteq> CHR 0x00) host
      in if length name < 64 then Inr name else Inl Out_Of_Bounds)"

lemma ThisProcess_Host_short:
  "length name < 64 \<Longrightarrow> CHR 0x00 \<notin> set name \<Longrightarrow> ThisProcess_Host (name @ [CHR 0x00]) = Inr name"
  by (auto simp: ThisProcess_Host_def Let_def takeWhile_append)

lemma ThisProcess_Host_long:
  assumes "length stored = 64" "CHR 0x00 \<notin> set stored"
  shows "ThisProcess_Host stored = Inl Out_Of_Bounds"
proof -
  have "takeWhile (\<lambda>c. c \<noteq> CHR 0x00) stored = stored" using assms(2) by (auto simp: takeWhile_eq_all_conv)
  then show ?thesis using assms(1) by (simp add: ThisProcess_Host_def Let_def)
qed

subsection \<open>Singletons\<close>

text \<open>
  \<^verbatim>\<open>threading/Singleton.h\<close>: \<open>pthread_once\<close> runs \<open>Init\<close> in the first call, whichever thread makes it; \<open>sg_made\<close> lists the objects
  made and \<open>sg_alive\<close> those not deleted. \<open>Destroy\<close> runs at exit and leaves \<open>value_\<close> as it is.
\<close>

record singleton =
  sg_once :: bool
  sg_value :: "nat option"
  sg_made :: "nat list"
  sg_alive :: "nat set"
  sg_at_exit :: nat

definition Singleton_new :: singleton where
  "Singleton_new = \<lparr>sg_once = False, sg_value = None, sg_made = [], sg_alive = {}, sg_at_exit = 0\<rparr>"

definition Singleton_Init :: "nat \<Rightarrow> singleton \<Rightarrow> singleton" where
  "Singleton_Init p sg = sg\<lparr>sg_value := Some p, sg_made := sg_made sg @ [p], sg_alive := insert p (sg_alive sg), sg_at_exit := sg_at_exit sg + 1\<rparr>"

definition Singleton_instance :: "nat \<Rightarrow> singleton \<Rightarrow> nat option \<times> singleton" where
  "Singleton_instance p sg = (let sg = (if sg_once sg then sg else (Singleton_Init p sg)\<lparr>sg_once := True\<rparr>) in (sg_value sg, sg))"

definition Singleton_Destroy :: "singleton \<Rightarrow> singleton" where
  "Singleton_Destroy sg = (case sg_value sg of None \<Rightarrow> sg | Some p \<Rightarrow> sg\<lparr>sg_alive := sg_alive sg - {p}\<rparr>)"

lemma Singleton_one_object:
  "ps \<noteq> [] \<Longrightarrow> foldl (\<lambda>sg p. snd (Singleton_instance p sg)) Singleton_new ps =
     \<lparr>sg_once = True, sg_value = Some (hd ps), sg_made = [hd ps], sg_alive = {hd ps}, sg_at_exit = 1\<rparr>"
proof -
  assume "ps \<noteq> []"
  then obtain p qs where ps: "ps = p # qs" by (cases ps) auto
  have "sg_once sg \<Longrightarrow> foldl (\<lambda>sg p. snd (Singleton_instance p sg)) sg qs = sg" for sg
    by (induction qs) (simp_all add: Singleton_instance_def Let_def)
  then show ?thesis by (simp add: ps Singleton_instance_def Singleton_Init_def Singleton_new_def Let_def)
qed

lemma Singleton_after_exit:
  "fst (Singleton_instance q (Singleton_Destroy (snd (Singleton_instance p Singleton_new)))) = Some p \<and>
   p \<notin> sg_alive (Singleton_Destroy (snd (Singleton_instance p Singleton_new)))"
  by (simp add: Singleton_instance_def Singleton_Init_def Singleton_Destroy_def Singleton_new_def Let_def)

subsection \<open>Casts and weak callbacks\<close>

text \<open>
  \<^verbatim>\<open>base/Types.h\<close>: in the debug build a down cast asserts what \<open>dynamic_cast\<close> says of the object, \<open>instance_of\<close>.
  \<^verbatim>\<open>base/WeakCallback.h\<close>: the function is called when the object can still be locked.
\<close>

definition implicit_cast :: "'a \<Rightarrow> 'a" where "implicit_cast f = f"

definition down_cast :: "(nat \<Rightarrow> bool) \<Rightarrow> nat option \<Rightarrow> nat option result" where
  "down_cast instance_of f = CHECK (f = None \<or> (\<exists>p \<in> set_option f. instance_of p)) (Inr f)"

definition down_pointer_cast :: "(nat \<Rightarrow> bool) \<Rightarrow> nat option \<Rightarrow> nat option result" where
  "down_pointer_cast instance_of f = CHECK (f = None \<or> (\<exists>p \<in> set_option f. instance_of p)) (Inr f)"

record ('a, 's) weak_callback =
  wc_function :: "nat \<Rightarrow> 'a \<Rightarrow> 's \<Rightarrow> 's"
  wc_object :: nat

definition MakeWeakCallback :: "(nat \<Rightarrow> 'a \<Rightarrow> 's \<Rightarrow> 's) \<Rightarrow> nat \<Rightarrow> ('a, 's) weak_callback" where
  "MakeWeakCallback f p = \<lparr>wc_function = f, wc_object = p\<rparr>"

definition WeakCallback_call :: "('a, 's) weak_callback \<Rightarrow> nat set \<Rightarrow> 'a \<Rightarrow> 's \<Rightarrow> 's" where
  "WeakCallback_call wc alive args s = (if wc_object wc \<in> alive then wc_function wc (wc_object wc) args s else s)"

end
