(* ===== verification/Messages.thy ===== *)
theory Messages
  imports Clock Logs
begin

text \<open>
  Log messages, \<^verbatim>\<open>logging/LogMessage.h,.cc\<close>.

  A message is built on a fresh \<open>LogStream\<close>, streamed into, and written out by its destructor. The current time, the
  thread id, the terminal and the two flags are inputs; the thread-local cache of the formatted second is part of
  \<open>thread_locals\<close>. \<open>sinks\<close> holds what reached the standard error stream and the output function; that the process ends
  behind a fatal message is the Boolean the destructor returns. \<open>g_flush\<close> is set by \<open>SetFlush\<close> and called by nothing.
\<close>

subsection \<open>Severities and colours\<close>

datatype LogSeverity = TRACE | DEBUG | INFO | WARNING | ERROR | FATAL | NUM_LOG_SEVERITIES

fun severity_value :: "LogSeverity \<Rightarrow> nat" where
  "severity_value TRACE = 0"
| "severity_value DEBUG = 1"
| "severity_value INFO = 2"
| "severity_value WARNING = 3"
| "severity_value ERROR = 4"
| "severity_value FATAL = 5"
| "severity_value NUM_LOG_SEVERITIES = 6"

definition LogSeverityName :: "string list" where
  "LogSeverityName = [''TRACE '', ''DEBUG '', ''INFO '', ''WARNING '', ''ERROR '', ''FATAL '']"

datatype LogColor = COLOR_DEFAULT | COLOR_RED | COLOR_GREEN | COLOR_YELLOW

fun SeverityToColor :: "LogSeverity \<Rightarrow> LogColor result" where
  "SeverityToColor WARNING = Inr COLOR_YELLOW"
| "SeverityToColor ERROR = Inr COLOR_RED"
| "SeverityToColor FATAL = Inr COLOR_RED"
| "SeverityToColor NUM_LOG_SEVERITIES = Inl Check_Failed"
| "SeverityToColor _ = Inr COLOR_DEFAULT"

definition TerminalSupportsColor :: "string option \<Rightarrow> bool" where
  "TerminalSupportsColor term =
     (case term of None \<Rightarrow> False
      | Some t \<Rightarrow> t \<noteq> '''' \<and> t \<in> {''xterm'', ''xterm-color'', ''xterm-256color'', ''screen'', ''linux'', ''cygwin''})"

fun GetAnsiColorCode :: "LogColor \<Rightarrow> string" where
  "GetAnsiColorCode COLOR_RED = ''1''"
| "GetAnsiColorCode COLOR_GREEN = ''2''"
| "GetAnsiColorCode COLOR_YELLOW = ''3''"
| "GetAnsiColorCode COLOR_DEFAULT = ''''"

record log_flags =
  FLAGS_alsologtostderr :: bool
  FLAGS_colorlogtostderr :: bool
  env_TERM :: "string option"

record sinks =
  sk_stderr :: string
  sk_output :: string

definition ESC :: string where "ESC = [CHR 0x1B]"

definition ColoredWriteToStderr :: "log_flags \<Rightarrow> LogSeverity \<Rightarrow> string \<Rightarrow> sinks \<Rightarrow> sinks result" where
  "ColoredWriteToStderr fl severity message k =
     bindR (if TerminalSupportsColor (env_TERM fl) \<and> FLAGS_colorlogtostderr fl then SeverityToColor severity else Inr COLOR_DEFAULT) (\<lambda>color.
       Inr (k\<lparr>sk_stderr := sk_stderr k @
         (if color = COLOR_DEFAULT then message
          else ESC @ ''[0;3'' @ GetAnsiColorCode color @ ''m'' @ message @ ESC @ ''[m'')\<rparr>))"

subsection \<open>Source files\<close>

definition strrchr :: "string \<Rightarrow> char \<Rightarrow> nat option" where
  "strrchr s c = (if c \<in> set s then Some (length s - 1 - length (takeWhile (\<lambda>x. x \<noteq> c) (rev s))) else None)"

definition SourceFile_of_array :: "string \<Rightarrow> string" where
  "SourceFile_of_array arr =
     (let n = length arr
      in case strrchr arr (CHR ''/'') of None \<Rightarrow> take n arr | Some slash \<Rightarrow> take (n - (slash + 1)) (drop (slash + 1) arr))"

definition SourceFile_of :: "string \<Rightarrow> string" where
  "SourceFile_of f = (case strrchr f (CHR ''/'') of None \<Rightarrow> f | Some slash \<Rightarrow> drop (slash + 1) f)"

subsection \<open>Building a message\<close>

record log_message =
  lm_time :: timestamp
  lm_stream :: log_stream
  lm_severity :: LogSeverity
  lm_ctr :: int

definition LogMessage_puts :: "log_message \<Rightarrow> log_item list \<Rightarrow> log_message result" where
  "LogMessage_puts msg items = bindR (LogStream_puts (lm_stream msg) items) (\<lambda>s. Inr (msg\<lparr>lm_stream := s\<rparr>))"

definition FormatTime :: "log_message \<Rightarrow> thread_locals \<Rightarrow> (log_message \<times> thread_locals) result" where
  "FormatTime msg loc =
     (let seconds = Timestamp_SecondsSinceEpoch (lm_time msg);
          microseconds = i32 (microseconds_since_epoch (lm_time msg) smod 1000000)
      in bindR (if seconds \<noteq> t_last_second loc
                then let s = date_text (gmtime seconds)
                     in CHECK (length s = 17) (Inr (loc\<lparr>t_last_second := seconds, t_time := snprintf_into (t_time loc) s\<rparr>))
                else Inr loc) (\<lambda>loc.
         bindR (LogMessage_puts msg [Put_text (take 17 (t_time loc)), Put_text (snprintf_text 32 (''.'' @ fmt_0w 6 microseconds @ ''Z ''))])
           (\<lambda>msg. Inr (msg, loc))))"

definition Impl_new :: "string \<Rightarrow> int \<Rightarrow> LogSeverity \<Rightarrow> timestamp \<Rightarrow> int \<Rightarrow> thread_locals \<Rightarrow> (log_message \<times> thread_locals) result" where
  "Impl_new f line severity now gettid loc =
     bindR (FormatTime \<lparr>lm_time = now, lm_stream = LogStream_new, lm_severity = severity, lm_ctr = 0\<rparr> loc) (\<lambda>(msg, loc).
     bindR (ThisThread_tid gettid loc) (\<lambda>(_, loc).
     bindR (vec_get LogSeverityName (severity_value severity)) (\<lambda>name.
     bindR (LogMessage_puts msg [Put_text (take 6 (t_tid_string loc)), Put_text (take 5 name), Put_text ''- '', Put_text f,
              Put_char (CHR '':''), Put_int line, Put_text '' : '']) (\<lambda>msg. Inr (msg, loc)))))"

definition LogMessage_with_ctr ::
    "string \<Rightarrow> int \<Rightarrow> LogSeverity \<Rightarrow> int \<Rightarrow> timestamp \<Rightarrow> int \<Rightarrow> thread_locals \<Rightarrow> (log_message \<times> thread_locals) result" where
  "LogMessage_with_ctr f line severity ctr now gettid loc =
     bindR (Impl_new f line severity now gettid loc) (\<lambda>(msg, loc). Inr (msg\<lparr>lm_ctr := ctr\<rparr>, loc))"

definition LogMessage_with_func ::
    "string \<Rightarrow> int \<Rightarrow> LogSeverity \<Rightarrow> string \<Rightarrow> timestamp \<Rightarrow> int \<Rightarrow> thread_locals \<Rightarrow> (log_message \<times> thread_locals) result" where
  "LogMessage_with_func f line severity func now gettid loc =
     bindR (Impl_new f line severity now gettid loc) (\<lambda>(msg, loc).
     bindR (LogMessage_puts msg [Put_text func, Put_char (CHR '' '')]) (\<lambda>msg. Inr (msg, loc)))"

definition LogMessage_info :: "string \<Rightarrow> int \<Rightarrow> timestamp \<Rightarrow> int \<Rightarrow> thread_locals \<Rightarrow> (log_message \<times> thread_locals) result" where
  "LogMessage_info f line now gettid loc = Impl_new f line INFO now gettid loc"

definition LogMessage_severity ::
    "string \<Rightarrow> int \<Rightarrow> LogSeverity \<Rightarrow> timestamp \<Rightarrow> int \<Rightarrow> thread_locals \<Rightarrow> (log_message \<times> thread_locals) result" where
  "LogMessage_severity f line severity now gettid loc = Impl_new f line severity now gettid loc"

definition LogMessage_check ::
    "string \<Rightarrow> int \<Rightarrow> string \<Rightarrow> timestamp \<Rightarrow> int \<Rightarrow> thread_locals \<Rightarrow> (log_message \<times> thread_locals) result" where
  "LogMessage_check f line str now gettid loc =
     bindR (Impl_new f line FATAL now gettid loc) (\<lambda>(msg, loc).
     bindR (LogMessage_puts msg [Put_text ''Check failed: '', Put_text str, Put_text '' '']) (\<lambda>msg. Inr (msg, loc)))"

subsection \<open>Writing a message out\<close>

definition LogMessage_Finish :: "log_message \<Rightarrow> log_message result" where
  "LogMessage_Finish msg = LogMessage_puts msg [Put_char (CHR ''\<newline>'')]"

definition LogMessage_delete :: "log_flags \<Rightarrow> log_message \<Rightarrow> sinks \<Rightarrow> (bool \<times> sinks) result" where
  "LogMessage_delete fl msg k =
     bindR (LogMessage_Finish msg) (\<lambda>msg.
       let buf = lb_text (ls_buffer (lm_stream msg))
       in bindR (if FLAGS_alsologtostderr fl then ColoredWriteToStderr fl (lm_severity msg) buf k else Inr k) (\<lambda>k.
          Inr (lm_severity msg = FATAL, k\<lparr>sk_output := sk_output k @ buf\<rparr>)))"

text \<open>The fatal and the errno messages hold a message; \<open>errno\<close> is read behind its construction.\<close>

definition LogMessageFatal_new :: "string \<Rightarrow> int \<Rightarrow> timestamp \<Rightarrow> int \<Rightarrow> thread_locals \<Rightarrow> (log_message \<times> thread_locals) result" where
  "LogMessageFatal_new f line now gettid loc = LogMessage_severity (SourceFile_of f) line FATAL now gettid loc"

definition LogMessageFatal_check ::
    "string \<Rightarrow> int \<Rightarrow> string \<Rightarrow> timestamp \<Rightarrow> int \<Rightarrow> thread_locals \<Rightarrow> (log_message \<times> thread_locals) result" where
  "LogMessageFatal_check f line str now gettid loc = LogMessage_check (SourceFile_of f) line str now gettid loc"

record errno_message =
  em_message :: log_message
  em_preserved_errno :: int

definition ErrnoLogMessage_new ::
    "string \<Rightarrow> int \<Rightarrow> LogSeverity \<Rightarrow> int \<Rightarrow> int \<Rightarrow> timestamp \<Rightarrow> int \<Rightarrow> thread_locals \<Rightarrow> (errno_message \<times> thread_locals) result" where
  "ErrnoLogMessage_new f line severity ctr errno now gettid loc =
     bindR (LogMessage_with_ctr (SourceFile_of f) line severity ctr now gettid loc) (\<lambda>(msg, loc).
       Inr (\<lparr>em_message = msg, em_preserved_errno = errno\<rparr>, loc))"

definition ErrnoLogMessage_delete :: "(int \<Rightarrow> string) \<Rightarrow> log_flags \<Rightarrow> errno_message \<Rightarrow> sinks \<Rightarrow> (bool \<times> sinks) result" where
  "ErrnoLogMessage_delete strerror fl em k =
     bindR (LogMessage_puts (em_message em) [Put_text '' : '', Put_text (strerror (em_preserved_errno em)), Put_text '' ['',
              Put_int (em_preserved_errno em), Put_text ''] '']) (\<lambda>msg.
     LogMessage_delete fl msg k)"

subsection \<open>Names of source files\<close>

lemma drop_strrchr:
  "c \<in> set s \<Longrightarrow> drop (length s - 1 - length (takeWhile (\<lambda>x. x \<noteq> c) (rev s)) + 1) s = rev (takeWhile (\<lambda>x. x \<noteq> c) (rev s))"
proof -
  assume c: "c \<in> set s"
  let ?t = "takeWhile (\<lambda>x. x \<noteq> c) (rev s)" and ?d = "dropWhile (\<lambda>x. x \<noteq> c) (rev s)"
  have "rev s = ?t @ ?d" by simp
  then have s: "s = rev ?d @ rev ?t" by (metis rev_append rev_rev_ident)
  have "?d \<noteq> []" using c by (simp add: dropWhile_eq_Nil_conv)
  moreover have "length s = length ?d + length ?t" by (subst s) simp
  ultimately have "length s - 1 - length ?t + 1 = length (rev ?d)" by (cases ?d) simp_all
  then show ?thesis by (subst (2) s) simp
qed

text \<open>The part behind the last slash.\<close>

definition base_name_of :: "string \<Rightarrow> string" where
  "base_name_of s = rev (takeWhile (\<lambda>x. x \<noteq> CHR ''/'') (rev s))"

lemma SourceFile_array: "SourceFile_of_array s = SourceFile_of s"
proof -
  have "take (length s - n) (drop n s) = drop n s" for n :: nat by simp
  then show ?thesis by (simp only: SourceFile_of_array_def SourceFile_of_def Let_def take_all order.refl)
qed

lemma SourceFile_base: "SourceFile_of s = base_name_of s"
proof (cases "CHR ''/'' \<in> set s")
  case True
  then show ?thesis
    using drop_strrchr [OF True] by (simp add: SourceFile_of_def strrchr_def base_name_of_def)
next
  case False
  then have t: "takeWhile (\<lambda>x. x \<noteq> CHR ''/'') (rev s) = rev s" by (auto simp: takeWhile_eq_all_conv)
  show ?thesis using False unfolding base_name_of_def t by (simp add: SourceFile_of_def strrchr_def)
qed

subsection \<open>The text of a line\<close>

text \<open>What an item adds to a stream in the normal format, when there is room.\<close>

fun item_text :: "log_item \<Rightarrow> string" where
  "item_text (Put_bool v) = (if v then ''1'' else ''0'')"
| "item_text (Put_char v) = [v]"
| "item_text (Put_int v) = fmt_d v"
| "item_text (Put_pointer v) = ''0x'' @ HexToBuffer v"
| "item_text (Put_double text) = take 31 text"
| "item_text (Put_text msg) = msg"
| "item_text (Put_format f) = ''''"

fun plain_item :: "log_item \<Rightarrow> bool" where
  "plain_item (Put_format f) = False"
| "plain_item x = item_in_range x"

definition items_text :: "log_item list \<Rightarrow> string" where "items_text xs = concat (map item_text xs)"

text \<open>A stream that holds a text with room for more: a number asks for 32 free bytes.\<close>

definition stream_holds :: "log_stream \<Rightarrow> string \<Rightarrow> bool" where
  "stream_holds s text \<longleftrightarrow> ls_format s = kNormalFormat \<and> ls_buffer s = \<lparr>lb_size = kSmallBuffer, lb_text = text\<rparr>"

lemma stream_holds_new: "stream_holds LogStream_new ''''"
  by (simp add: stream_holds_def LogStream_new_def LogBuffer_new_def)

lemma IntToBuffer_fmt_d: "IntToBuffer v = fmt_d v"
  by (simp add: IntToBuffer_def IntToBuffer_loop_dec fmt_d_def)

lemma LogBuffer_Append_room:
  "length text + length d \<le> kSmallBuffer \<Longrightarrow>
     LogBuffer_Append \<lparr>lb_size = kSmallBuffer, lb_text = text\<rparr> d = \<lparr>lb_size = kSmallBuffer, lb_text = text @ d\<rparr>"
  by (cases d) (auto simp: LogBuffer_Append_def LogBuffer_avail_def)

lemma LogStream_put_plain:
  assumes "stream_holds s text" "plain_item x" "length text + length (item_text x) + 32 \<le> kSmallBuffer"
  shows "\<exists>s'. LogStream_put s x = Inr s' \<and> stream_holds s' (text @ item_text x)"
proof -
  have f: "ls_format s = kNormalFormat" and b: "ls_buffer s = \<lparr>lb_size = kSmallBuffer, lb_text = text\<rparr>"
    using assms(1) by (simp_all add: stream_holds_def)
  have r: "32 \<le> kSmallBuffer - length text" using assms(3) by linarith
  note room = LogBuffer_Append_room [of "text" "item_text x"]
  show ?thesis
  proof (cases x)
    case (Put_int v)
    then show ?thesis
      using assms int_text_short [of v] f b r
      by (simp add: LogStream_FormatInteger_def kMaxNumericSize_def LogBuffer_avail_def LogBuffer_write_Add_def stream_holds_def IntToBuffer_fmt_d)
  next
    case (Put_pointer v)
    then show ?thesis
      using assms hex_text_length [of v 15] f b r
      by (simp add: LogStream_pointer_def kMaxNumericSize_def LogBuffer_avail_def LogBuffer_write_Add_def stream_holds_def)
  next
    case (Put_double t)
    then show ?thesis
      using room assms(3) f b r
      by (simp add: LogStream_double_def LogStream_Append_def kMaxNumericSize_def LogBuffer_avail_def stream_holds_def)
  next
    case (Put_format fmt)
    then show ?thesis using assms(2) by simp
  qed (use room assms(3) f b in \<open>simp_all add: LogStream_bool_def LogStream_char_def LogStream_Append_def stream_holds_def\<close>)
qed

lemma LogStream_puts_plain:
  assumes "stream_holds s text" "\<forall>x \<in> set xs. plain_item x" "length text + length (items_text xs) + 32 \<le> kSmallBuffer"
  shows "\<exists>s'. LogStream_puts s xs = Inr s' \<and> stream_holds s' (text @ items_text xs)"
  using assms
proof (induction xs arbitrary: s "text")
  case Nil
  then show ?case by (simp add: items_text_def)
next
  case (Cons x xs)
  have l: "length text + length (item_text x) + 32 \<le> kSmallBuffer"
    "length (text @ item_text x) + length (items_text xs) + 32 \<le> kSmallBuffer"
    using Cons.prems(3) by (simp_all add: items_text_def)
  obtain s1 where s1: "LogStream_put s x = Inr s1" "stream_holds s1 (text @ item_text x)"
    using LogStream_put_plain [OF Cons.prems(1) _ l(1)] Cons.prems(2) by auto
  from Cons.IH [OF s1(2) _ l(2)] Cons.prems(2) s1(1) show ?case by (auto simp: items_text_def)
qed

text \<open>The message holds a text.\<close>

definition message_holds :: "log_message \<Rightarrow> string \<Rightarrow> bool" where
  "message_holds msg text \<longleftrightarrow> stream_holds (lm_stream msg) text"

lemma LogMessage_puts_plain:
  assumes "message_holds msg text" "\<forall>x \<in> set xs. plain_item x" "length text + length (items_text xs) + 32 \<le> kSmallBuffer"
  shows "\<exists>msg'. LogMessage_puts msg xs = Inr msg' \<and> message_holds msg' (text @ items_text xs) \<and>
    lm_severity msg' = lm_severity msg \<and> lm_time msg' = lm_time msg"
  using LogStream_puts_plain [OF assms(1) [unfolded message_holds_def] assms(2,3)]
  by (auto simp: LogMessage_puts_def message_holds_def)

subsection \<open>The cached second\<close>

text \<open>
  The thread's variables: the array holds the text of the cached second, and the thread id with its text once it is known.
  The first second of the epoch is the initial value of the cached second, whose text was never written.
\<close>

definition locals_ok :: "int \<Rightarrow> thread_locals \<Rightarrow> bool" where
  "locals_ok gettid loc \<longleftrightarrow> length (t_time loc) = 32 \<and> length (t_tid_string loc) = 32 \<and>
     (t_last_second loc \<noteq> 0 \<longrightarrow> take 17 (t_time loc) = date_text (gmtime (t_last_second loc))) \<and>
     (t_cached_tid loc = 0 \<or> t_cached_tid loc = gettid \<and> take 6 (t_tid_string loc) = fmt_w 5 gettid @ '' '')"

lemma locals_ok_new: "locals_ok gettid thread_locals_new"
  by (simp add: locals_ok_def thread_locals_new_def)

lemma snprintf_into_take: "length s < length buf \<Longrightarrow> take (length s) (snprintf_into buf s) = s \<and> length (snprintf_into buf s) = length buf"
  by (simp add: snprintf_into_def snprintf_text_def Let_def)

definition micro_text :: "timestamp \<Rightarrow> string" where
  "micro_text t = ''.'' @ fmt_0w 6 (microseconds_since_epoch t mod 1000000) @ ''Z ''"

lemma length_micro_text: "length (micro_text t) = 9"
  using length_fmt_0w [of "microseconds_since_epoch t mod 1000000" 5] by (simp add: micro_text_def eval_nat_numeral)

text \<open>A time the log can print: behind the first second of the epoch and before the year 9570.\<close>

definition printable :: "timestamp \<Rightarrow> bool" where
  "printable t \<longleftrightarrow> 1000000 \<le> microseconds_since_epoch t \<and> microseconds_since_epoch t < kLastSecond * 1000000"

lemma printable_seconds:
  assumes "printable t"
  shows "0 < Timestamp_SecondsSinceEpoch t" "Timestamp_SecondsSinceEpoch t < kLastSecond"
    "i32 (microseconds_since_epoch t smod 1000000) = microseconds_since_epoch t mod 1000000"
proof -
  have p: "0 \<le> microseconds_since_epoch t" using assms by (simp add: printable_def)
  then have d: "Timestamp_SecondsSinceEpoch t = microseconds_since_epoch t div 1000000"
    "microseconds_since_epoch t smod 1000000 = microseconds_since_epoch t mod 1000000"
    by (simp_all add: Timestamp_SecondsSinceEpoch_def kMicroSecondsPerSecond_def signed_divide_int_def signed_modulo_int_def sgn_if
        minus_div_mult_eq_mod)
  show "0 < Timestamp_SecondsSinceEpoch t" "Timestamp_SecondsSinceEpoch t < kLastSecond"
    using assms unfolding d(1) printable_def by linarith+
  have "0 \<le> microseconds_since_epoch t mod 1000000" "microseconds_since_epoch t mod 1000000 < 1000000" by simp_all
  then show "i32 (microseconds_since_epoch t smod 1000000) = microseconds_since_epoch t mod 1000000"
    unfolding d(2) by (intro i32_id) linarith+
qed

lemma FormatTime_cached:
  assumes "locals_ok gettid loc" "printable (lm_time msg)" "message_holds msg ''''"
  shows "\<exists>msg' loc'. FormatTime msg loc = Inr (msg', loc') \<and> locals_ok gettid loc' \<and> lm_severity msg' = lm_severity msg \<and>
    lm_time msg' = lm_time msg \<and>
    message_holds msg' (date_text (gmtime (Timestamp_SecondsSinceEpoch (lm_time msg))) @ micro_text (lm_time msg))"
proof -
  let ?s = "Timestamp_SecondsSinceEpoch (lm_time msg)"
  let ?d = "date_text (gmtime ?s)"
  note p = printable_seconds [OF assms(2)]
  have d: "length ?d = 17" using length_date_text [OF gmtime_ok [of ?s]] p(1,2) by simp
  define loc' where "loc' = (if ?s \<noteq> t_last_second loc then loc\<lparr>t_last_second := ?s, t_time := snprintf_into (t_time loc) ?d\<rparr> else loc)"
  have w: "length ?d < length (t_time loc)" using d assms(1) by (simp add: locals_ok_def)
  have l: "locals_ok gettid loc'" "take 17 (t_time loc') = ?d"
    using assms(1) snprintf_into_take [OF w] d p(1) by (auto simp: loc'_def locals_ok_def)
  have m: "snprintf_text 32 (''.'' @ fmt_0w 6 (i32 (microseconds_since_epoch (lm_time msg) smod 1000000)) @ ''Z '') = micro_text (lm_time msg)"
    using length_micro_text [of "lm_time msg"] by (simp add: snprintf_text_def p(3) micro_text_def)
  let ?items = "[Put_text ?d, Put_text (micro_text (lm_time msg))]"
  have "items_text ?items = ?d @ micro_text (lm_time msg)" by (simp add: items_text_def)
  moreover from this obtain msg' where "LogMessage_puts msg ?items = Inr msg'" "message_holds msg' ('''' @ items_text ?items)"
    "lm_severity msg' = lm_severity msg" "lm_time msg' = lm_time msg"
    using LogMessage_puts_plain [OF assms(3), of ?items] d length_micro_text [of "lm_time msg"] by (auto simp: kSmallBuffer_def)
  moreover have "FormatTime msg loc = bindR (LogMessage_puts msg ?items) (\<lambda>msg. Inr (msg, loc'))"
    using l(2) d by (cases "?s = t_last_second loc") (simp_all only: FormatTime_def m Let_def loc'_def CHECK_simps bindR_simps if_True if_False simp_thms)
  ultimately show ?thesis using l(1) by auto
qed

subsection \<open>Whole messages\<close>

definition severity_text :: "LogSeverity \<Rightarrow> string" where
  "severity_text sev = (if sev = WARNING then ''WARNI'' else take 5 (LogSeverityName ! severity_value sev))"

text \<open>The line a message is documented to be: date, microseconds, thread id, severity, file and line, text.\<close>

definition line_head :: "timestamp \<Rightarrow> int \<Rightarrow> LogSeverity \<Rightarrow> string \<Rightarrow> int \<Rightarrow> string" where
  "line_head now gettid sev f line = date_text (gmtime (Timestamp_SecondsSinceEpoch now)) @ micro_text now @ fmt_w 5 gettid @ '' '' @
     severity_text sev @ ''- '' @ f @ '':'' @ fmt_d line @ '' : ''"

lemma ThisThread_tid_cached:
  assumes "locals_ok gettid loc" "0 < gettid" "gettid < 100000"
  shows "\<exists>loc'. ThisThread_tid gettid loc = Inr (gettid, loc') \<and> locals_ok gettid loc' \<and> t_time loc' = t_time loc \<and>
    take 6 (t_tid_string loc') = fmt_w 5 gettid @ '' ''"
proof (cases "t_cached_tid loc = 0")
  case False
  then show ?thesis using assms(1) by (auto simp: ThisThread_tid_def locals_ok_def)
next
  case True
  let ?s = "fmt_w 5 gettid @ '' ''"
  have l: "length ?s = 6" using length_tid_text [OF assms(2,3)] by simp
  then have w: "length ?s < length (t_tid_string loc)" using assms(1) by (simp add: locals_ok_def)
  show ?thesis
    using snprintf_into_take [OF w] l True assms(1)
    by (simp add: ThisThread_tid_def CacheTid_def locals_ok_def)
qed

lemma Impl_new_line:
  assumes "locals_ok gettid loc" "0 < gettid" "gettid < 100000" "printable now" "sev \<noteq> NUM_LOG_SEVERITIES" "is_i32 line"
    "length f \<le> 1024"
  shows "\<exists>msg loc'. Impl_new f line sev now gettid loc = Inr (msg, loc') \<and> locals_ok gettid loc' \<and> lm_severity msg = sev \<and>
    message_holds msg (line_head now gettid sev f line)"
proof -
  let ?m = "\<lparr>lm_time = now, lm_stream = LogStream_new, lm_severity = sev, lm_ctr = 0\<rparr>"
  let ?d = "date_text (gmtime (Timestamp_SecondsSinceEpoch now)) @ micro_text now"
  have "message_holds ?m ''''" by (simp add: message_holds_def stream_holds_new)
  then obtain m1 l1 where t: "FormatTime ?m loc = Inr (m1, l1)" "locals_ok gettid l1" "lm_severity m1 = sev" "message_holds m1 ?d"
    using FormatTime_cached [OF assms(1), of ?m] assms(4) by auto
  obtain l2 where i: "ThisThread_tid gettid l1 = Inr (gettid, l2)" "locals_ok gettid l2" "take 6 (t_tid_string l2) = fmt_w 5 gettid @ '' ''"
    using ThisThread_tid_cached [OF t(2) assms(2,3)] by blast
  have v: "vec_get LogSeverityName (severity_value sev) = Inr (LogSeverityName ! severity_value sev)"
    "severity_text sev = take 5 (LogSeverityName ! severity_value sev)"
    using assms(5) by (cases sev; simp add: LogSeverityName_def severity_text_def)+
  let ?items = "[Put_text (take 6 (t_tid_string l2)), Put_text (take 5 (LogSeverityName ! severity_value sev)), Put_text ''- '',
    Put_text f, Put_char (CHR '':''), Put_int line, Put_text '' : '']"
  have r: "INT64_MIN \<le> line \<and> line < 2 ^ 64" using assms(6) by (simp add: is_i32_def)
  then have "length (fmt_d line) \<le> 20" using int_text_short [of line] by (simp add: IntToBuffer_fmt_d)
  moreover have "length ?d = 26"
    using length_date_text [OF gmtime_ok] printable_seconds [OF assms(4)] length_micro_text by simp
  moreover have e: "items_text ?items = fmt_w 5 gettid @ '' '' @ severity_text sev @ ''- '' @ f @ '':'' @ fmt_d line @ '' : ''"
    by (simp add: items_text_def i(3) v(2))
  moreover have "length (severity_text sev) \<le> 5" by (simp add: v(2))
  ultimately have "length ?d + length (items_text ?items) + 32 \<le> kSmallBuffer"
    using assms(7) length_tid_text [OF assms(2,3)] by (simp add: kSmallBuffer_def)
  from LogMessage_puts_plain [OF t(4) _ this] r obtain m2 where p: "LogMessage_puts m1 ?items = Inr m2"
    "message_holds m2 (?d @ items_text ?items)" "lm_severity m2 = lm_severity m1" by auto
  have "Impl_new f line sev now gettid loc = Inr (m2, l2)" by (simp add: Impl_new_def t(1) i(1) v(1) p(1))
  with p i(2) t(3) show ?thesis by (auto simp: line_head_def e)
qed

lemma LogMessage_delete_writes:
  assumes "message_holds msg text" "length text + 33 \<le> kSmallBuffer"
  shows "\<exists>k'. LogMessage_delete \<lparr>FLAGS_alsologtostderr = False, FLAGS_colorlogtostderr = c, env_TERM = t\<rparr> msg k =
    Inr (lm_severity msg = FATAL, k') \<and> sk_output k' = sk_output k @ text @ ''\<newline>'' \<and> sk_stderr k' = sk_stderr k"
proof -
  have l: "length text + length (items_text [Put_char (CHR ''\<newline>'')]) + 32 \<le> kSmallBuffer"
    using assms(2) by (simp add: items_text_def)
  obtain m where "LogMessage_puts msg [Put_char (CHR ''\<newline>'')] = Inr m" "message_holds m (text @ ''\<newline>'')" "lm_severity m = lm_severity msg"
    using LogMessage_puts_plain [OF assms(1) _ l] by (auto simp: items_text_def)
  then show ?thesis by (simp add: LogMessage_delete_def LogMessage_Finish_def message_holds_def stream_holds_def Let_def)
qed

text \<open>A whole message: constructed, streamed into, destroyed.\<close>

definition log_one ::
    "log_flags \<Rightarrow> int \<Rightarrow> string \<times> int \<times> LogSeverity \<times> timestamp \<times> log_item list \<Rightarrow> thread_locals \<times> sinks \<Rightarrow>
      (bool \<times> thread_locals \<times> sinks) result" where
  "log_one fl gettid m st =
     (case m of (f, line, sev, now, items) \<Rightarrow> case st of (loc, k) \<Rightarrow>
        bindR (LogMessage_severity (SourceFile_of_array f) line sev now gettid loc) (\<lambda>(msg, loc).
        bindR (LogMessage_puts msg items) (\<lambda>msg.
        bindR (LogMessage_delete fl msg k) (\<lambda>(dead, k). Inr (dead, loc, k)))))"

fun log_all ::
    "log_flags \<Rightarrow> int \<Rightarrow> (string \<times> int \<times> LogSeverity \<times> timestamp \<times> log_item list) list \<Rightarrow> thread_locals \<times> sinks \<Rightarrow>
      (bool \<times> thread_locals \<times> sinks) result" where
  "log_all fl gettid [] (loc, k) = Inr (False, loc, k)"
| "log_all fl gettid (m # ms) (loc, k) =
     bindR (log_one fl gettid m (loc, k)) (\<lambda>(dead, loc, k). if dead then Inr (True, loc, k) else log_all fl gettid ms (loc, k))"

definition message_ok :: "string \<times> int \<times> LogSeverity \<times> timestamp \<times> log_item list \<Rightarrow> bool" where
  "message_ok m \<longleftrightarrow>
     (case m of (f, line, sev, now, items) \<Rightarrow>
        printable now \<and> sev \<noteq> NUM_LOG_SEVERITIES \<and> sev \<noteq> FATAL \<and> is_i32 line \<and> length (base_name_of f) \<le> 1024 \<and>
        (\<forall>x \<in> set items. plain_item x) \<and> length (items_text items) \<le> 2048)"

definition log_line :: "int \<Rightarrow> string \<times> int \<times> LogSeverity \<times> timestamp \<times> log_item list \<Rightarrow> string" where
  "log_line gettid m =
     (case m of (f, line, sev, now, items) \<Rightarrow> line_head now gettid sev (base_name_of f) line @ items_text items @ ''\<newline>'')"

lemma length_line_head:
  assumes "printable now" "is_i32 line" "length f \<le> 1024" "0 < gettid" "gettid < 100000"
  shows "length (line_head now gettid sev f line) \<le> 1096"
proof -
  have "length (fmt_d line) \<le> 20" using assms(2) int_text_short [of line] by (simp add: IntToBuffer_fmt_d is_i32_def)
  moreover have "length (severity_text sev) \<le> 5" by (simp add: severity_text_def)
  moreover have "length (date_text (gmtime (Timestamp_SecondsSinceEpoch now))) = 17"
    using length_date_text [OF gmtime_ok] printable_seconds [OF assms(1)] by simp
  ultimately show ?thesis
    using length_micro_text [of now] length_tid_text [OF assms(4,5)] assms(3) by (simp add: line_head_def)
qed

lemma log_one_line:
  assumes "locals_ok gettid loc" "0 < gettid" "gettid < 100000" "message_ok m" "\<not> FLAGS_alsologtostderr fl"
  shows "\<exists>loc' k'. log_one fl gettid m (loc, k) = Inr (False, loc', k') \<and> locals_ok gettid loc' \<and>
    sk_output k' = sk_output k @ log_line gettid m"
proof -
  obtain f line sev now items where m: "m = (f, line, sev, now, items)" by (cases m)
  have ok: "printable now" "sev \<noteq> NUM_LOG_SEVERITIES" "sev \<noteq> FATAL" "is_i32 line" "length (base_name_of f) \<le> 1024"
    "\<forall>x \<in> set items. plain_item x" "length (items_text items) \<le> 2048" using assms(4) by (simp_all add: message_ok_def m)
  let ?h = "line_head now gettid sev (base_name_of f) line"
  obtain m1 l1 where i: "Impl_new (base_name_of f) line sev now gettid loc = Inr (m1, l1)" "locals_ok gettid l1"
    "lm_severity m1 = sev" "message_holds m1 ?h" using Impl_new_line [OF assms(1-3) ok(1,2,4,5)] by blast
  have h: "length ?h \<le> 1096" by (rule length_line_head [OF ok(1,4,5) assms(2,3)])
  then have "length ?h + length (items_text items) + 32 \<le> kSmallBuffer" using ok(7) by (simp add: kSmallBuffer_def)
  then obtain m2 where p: "LogMessage_puts m1 items = Inr m2" "message_holds m2 (?h @ items_text items)" "lm_severity m2 = sev"
    using LogMessage_puts_plain [OF i(4) ok(6)] i(3) by auto
  have "length (?h @ items_text items) + 33 \<le> kSmallBuffer" using h ok(7) by (simp add: kSmallBuffer_def)
  moreover obtain c t where fl: "fl = \<lparr>FLAGS_alsologtostderr = False, FLAGS_colorlogtostderr = c, env_TERM = t\<rparr>"
    using assms(5) by (cases fl) auto
  ultimately obtain k' where d: "LogMessage_delete fl m2 k = Inr (lm_severity m2 = FATAL, k')"
    "sk_output k' = sk_output k @ (?h @ items_text items) @ ''\<newline>''"
    using LogMessage_delete_writes [OF p(2), of c t k] by blast
  have "log_one fl gettid m (loc, k) = Inr (False, l1, k')"
    using ok(3) p(3) by (simp add: log_one_def m LogMessage_severity_def SourceFile_array SourceFile_base i(1) p(1) d(1))
  with i(2) d(2) show ?thesis by (simp add: log_line_def m)
qed



end
