(* ===== verification/Rolling.thy ===== *)
theory Rolling
  imports Files Clock
begin

text \<open>
  Rolling log files, \<^verbatim>\<open>logging/LogFile.h,.cc\<close>, over the file utilities.

  The flags, the program name, the host, the process id and the user are a record; each reading of the clock is an
  argument. The mutex of a thread-safe log file makes the operations atomic and is left out. \<open>file_\<close> is \<open>None\<close> while the
  scoped pointer is null, and a use of it is then \<open>Dangling_Pointer\<close>; replacing it closes the file before.
  \<open>DropFileMemory\<close> returns the number of bytes it advises the kernel to drop, \<open>0\<close> for none.
\<close>

definition kCheckTimeRoll :: int where "kCheckTimeRoll = 1024"
definition kSecondsPerDay :: int where "kSecondsPerDay = 60 * 60 * 24"

record log_config =
  FLAGS_max_log_size :: int
  FLAGS_logbufsecs :: int
  FLAGS_drop_log_memory :: bool
  FLAGS_log_dir :: string
  cfg_program :: string
  cfg_host :: string
  cfg_pid :: int
  cfg_user :: string
  cfg_pagesize :: int

record log_file =
  lf_base_name :: string
  lf_count :: int
  lf_file :: "writable_file option"
  lf_last_period :: int
  lf_last_roll :: int
  lf_last_flush :: int

definition with_slash :: "string \<Rightarrow> string" where
  "with_slash dir = (if dir \<noteq> '''' \<and> last dir \<noteq> CHR ''/'' then dir @ ''/'' else dir)"

definition GetLogFileName :: "log_config \<Rightarrow> log_file \<Rightarrow> timestamp \<Rightarrow> string" where
  "GetLogFileName cfg lf now =
     with_slash (FLAGS_log_dir cfg) @ lf_base_name lf @ ''.'' @ Timestamp_ToFormattedString now @ ''.'' @ cfg_host cfg @ ''.'' @
     pid_string (cfg_pid cfg) @ ''.'' @ cfg_user cfg @ ''.log''"

definition GetLinkLogFileName :: "log_config \<Rightarrow> log_file \<Rightarrow> string" where
  "GetLinkLogFileName cfg lf = with_slash (FLAGS_log_dir cfg) @ lf_base_name lf @ ''.log''"

text \<open>The scoped pointer takes the new file and deletes the one it held.\<close>

definition reset_file :: "libc \<Rightarrow> writable_file \<Rightarrow> log_file \<Rightarrow> world \<Rightarrow> (log_file \<times> world) result" where
  "reset_file E f lf w =
     bindR (case lf_file lf of None \<Rightarrow> Inr w | Some old \<Rightarrow> WritableFile_delete E old w) (\<lambda>w. Inr (lf\<lparr>lf_file := Some f\<rparr>, w))"

text \<open>The part of \<open>RollFile\<close> that moves the link to the new file: an empty file it pointed to is deleted.\<close>

definition relink :: "libc \<Rightarrow> string \<Rightarrow> string \<Rightarrow> world \<Rightarrow> world result" where
  "relink E name link_name w =
     (let (ex, w) = FileExists E link_name w
      in bindR (if ex
                then bindR (ReadLink E link_name w) (\<lambda>(s, fname, w).
                       let w = (if s = kOk
                                then let (s, n, w) = GetFileSize E fname w
                                     in if s = kOk \<and> n = 0 then snd (DeleteFile E fname w) else w
                                else w)
                       in Inr (snd (DeleteFile E link_name w)))
                else Inr w) (\<lambda>w. Inr (snd (SymLink E name link_name w))))"

definition day_start :: "int \<Rightarrow> int" where "day_start now = now sdiv kSecondsPerDay * kSecondsPerDay"

definition RollFile :: "libc \<Rightarrow> log_config \<Rightarrow> timestamp \<Rightarrow> timestamp \<Rightarrow> log_file \<Rightarrow> world \<Rightarrow> (log_file \<times> world) result" where
  "RollFile E cfg now1 now2 lf w =
     (let now = Timestamp_SecondsSinceEpoch now1; name = GetLogFileName cfg lf now2
      in if lf_last_roll lf < now
         then bindR (AppendableFile_open E name w) (\<lambda>(f, w).
              bindR (reset_file E f (lf\<lparr>lf_last_roll := now, lf_last_flush := now, lf_last_period := day_start now\<rparr>) w) (\<lambda>(lf, w).
              bindR (relink E name (GetLinkLogFileName cfg lf) w) (\<lambda>w. Inr (lf, w))))
         else Inr (lf, w))"

definition LogFile_blank :: "log_config \<Rightarrow> log_file" where
  "LogFile_blank cfg =
     \<lparr>lf_base_name = cfg_program cfg, lf_count = 0, lf_file = None, lf_last_period = 0, lf_last_roll = 0, lf_last_flush = 0\<rparr>"

definition LogFile_new :: "libc \<Rightarrow> log_config \<Rightarrow> timestamp \<Rightarrow> timestamp \<Rightarrow> world \<Rightarrow> (log_file \<times> world) result" where
  "LogFile_new E cfg now1 now2 w =
     CHECK (CHR ''/'' \<notin> set (cfg_program cfg)) (RollFile E cfg now1 now2 (LogFile_blank cfg) w)"

definition LogFile_delete :: "libc \<Rightarrow> log_file \<Rightarrow> world \<Rightarrow> world result" where
  "LogFile_delete E lf w = (case lf_file lf of None \<Rightarrow> Inr w | Some f \<Rightarrow> WritableFile_delete E f w)"

text \<open>\<open>static_cast<uint32_t>(FLAGS_max_log_size)*1024*1024\<close> is a product of 32-bit unsigned integers.\<close>

definition max_log_bytes :: "log_config \<Rightarrow> int" where
  "max_log_bytes cfg = (FLAGS_max_log_size cfg mod 2 ^ 32) * 1024 * 1024 mod 2 ^ 32"

definition AppendUnLocked ::
    "libc \<Rightarrow> log_config \<Rightarrow> timestamp \<times> timestamp \<times> timestamp \<Rightarrow> log_file \<Rightarrow> string \<Rightarrow> world \<Rightarrow> (log_file \<times> world) result" where
  "AppendUnLocked E cfg clock lf data w =
     (case clock of (now1, now2, now3) \<Rightarrow>
      case lf_file lf of None \<Rightarrow> Inl Dangling_Pointer
      | Some f \<Rightarrow>
          bindR (WritableFile_Append E f data w) (\<lambda>(_, f, w).
            let lf = lf\<lparr>lf_file := Some f\<rparr>
            in if max_log_bytes cfg < int (WrittenBytes f) then RollFile E cfg now2 now3 lf w
               else if kCheckTimeRoll < lf_count lf
               then let lf = lf\<lparr>lf_count := 0\<rparr>; now = Timestamp_SecondsSinceEpoch now1; this_period = day_start now
                    in if this_period \<noteq> lf_last_period lf then RollFile E cfg now2 now3 lf w
                       else if FLAGS_logbufsecs cfg < now - lf_last_flush lf
                       then bindR (WritableFile_Flush E f w) (\<lambda>(_, w). Inr (lf\<lparr>lf_last_flush := now\<rparr>, w))
                       else Inr (lf, w)
               else Inr (lf\<lparr>lf_count := lf_count lf + 1\<rparr>, w)))"

text \<open>Both branches of \<open>Append\<close>, with and without the mutex, run the same code.\<close>

definition LogFile_Append ::
    "libc \<Rightarrow> log_config \<Rightarrow> timestamp \<times> timestamp \<times> timestamp \<Rightarrow> log_file \<Rightarrow> string \<Rightarrow> world \<Rightarrow> (log_file \<times> world) result" where
  "LogFile_Append E cfg clock lf data w = AppendUnLocked E cfg clock lf data w"

definition DropFileMemory :: "log_config \<Rightarrow> writable_file \<Rightarrow> nat" where
  "DropFileMemory cfg f =
     (let n = int (WrittenBytes f)
      in if FLAGS_drop_log_memory cfg \<and> cfg_pagesize cfg \<le> i32 n then nat (n - n mod cfg_pagesize cfg) else 0)"

definition LogFile_Flush :: "libc \<Rightarrow> log_config \<Rightarrow> log_file \<Rightarrow> world \<Rightarrow> (nat \<times> world) result" where
  "LogFile_Flush E cfg lf w =
     (case lf_file lf of None \<Rightarrow> Inl Dangling_Pointer
      | Some f \<Rightarrow> bindR (WritableFile_Flush E f w) (\<lambda>(_, w). Inr (DropFileMemory cfg f, w)))"

subsection \<open>What the calls on names leave alone\<close>

definition same_files :: "world \<Rightarrow> world \<Rightarrow> bool" where
  "same_files w w' \<longleftrightarrow> w_data w' = w_data w \<and> w_streams w' = w_streams w \<and> w_fresh w' = w_fresh w"

lemma same_files_refl [simp]: "same_files w w" "same_files w (tick w)"
  by (simp_all add: same_files_def)

lemma same_files_trans: "same_files w w' \<Longrightarrow> same_files w' w'' \<Longrightarrow> same_files w w''"
  by (simp add: same_files_def)

lemma DeleteFile_frame:
  "same_files w (snd (DeleteFile E p w))"
  "w_nodes (snd (DeleteFile E p w)) q = Some n \<Longrightarrow> w_nodes w q = Some n"
  by (auto simp: DeleteFile_def from_call_def c_unlink_def change_nodes_def same_files_def split: if_splits)

lemma SymLink_frame:
  "same_files w (snd (SymLink E target p w))"
  "w_nodes (snd (SymLink E target p w)) q = Some n \<Longrightarrow> q = p \<and> n = Symlink target \<or> w_nodes w q = Some n"
  by (auto simp: SymLink_def from_call_def c_symlink_def change_nodes_def same_files_def split: if_splits)

text \<open>The link is one that \<open>ReadLink\<close> can read.\<close>

definition link_short :: "string \<Rightarrow> world \<Rightarrow> bool" where
  "link_short p w \<longleftrightarrow> (\<forall>t. w_nodes w p = Some (Symlink t) \<longrightarrow> length t < 1024)"

lemma ReadLink_short:
  assumes "link_short p w"
  shows "\<exists>s t. ReadLink E p w = Inr (s, t, tick w)"
  using assms by (cases "w_nodes w p") (auto simp: ReadLink_def c_readlink_def link_short_def DCHECK_def Let_def split: node.splits)

lemma GetFileSize_frame: "\<exists>s n. GetFileSize E p w = (s, n, tick w)"
  by (auto simp: GetFileSize_def c_stat_def split: option.splits node.splits)

lemma relink_run:
  assumes "link_short link w" "length name < 1024"
  shows "\<exists>w'. relink E name link w = Inr w' \<and> same_files w w' \<and> link_short link w'"
proof -
  obtain ex where ex: "FileExists E link w = (ex, tick w)" by (simp add: FileExists_def c_access_def)
  have s: "link_short link (tick w)" using assms(1) by (simp add: link_short_def)
  obtain st t where r: "ReadLink E link (tick w) = Inr (st, t, tick (tick w))" using ReadLink_short [OF s] by blast
  obtain st2 n where g: "GetFileSize E t (tick (tick w)) = (st2, n, tick (tick (tick w)))" using GetFileSize_frame by blast
  define w1 where "w1 = (if st = kOk then if st2 = kOk \<and> n = 0 then snd (DeleteFile E t (tick (tick (tick w)))) else tick (tick (tick w)) else tick (tick w))"
  define w2 where "w2 = (if ex then snd (DeleteFile E link w1) else tick w)"
  have e: "relink E name link w = Inr (snd (SymLink E name link w2))"
    by (simp add: relink_def ex r g Let_def w1_def w2_def)
  have "same_files w w1 \<and> (\<forall>q m. w_nodes w1 q = Some m \<longrightarrow> w_nodes w q = Some m)"
    using DeleteFile_frame [where w = "tick (tick (tick w))" and E = E and p = t] by (simp add: w1_def same_files_def)
  then have "same_files w w2 \<and> (\<forall>q m. w_nodes w2 q = Some m \<longrightarrow> w_nodes w q = Some m)"
    using DeleteFile_frame [where w = w1 and E = E and p = link] by (cases ex) (auto simp: w2_def same_files_def)
  then have f2: "same_files w w2" "w_nodes w2 q = Some m \<Longrightarrow> w_nodes w q = Some m" for q m by blast+
  have "same_files w (snd (SymLink E name link w2))" using same_files_trans [OF f2(1) SymLink_frame(1)] .
  moreover have "link_short link (snd (SymLink E name link w2))"
    unfolding link_short_def
  proof (intro allI impI)
    fix u assume "w_nodes (snd (SymLink E name link w2)) link = Some (Symlink u)"
    from SymLink_frame(2) [OF this] show "length u < 1024"
      using assms f2(2) [of link "Symlink u"] by (auto simp: link_short_def)
  qed
  ultimately show ?thesis using e by blast
qed

text \<open>A link to a file that somebody removed is neither followed nor replaced.\<close>

lemma relink_dangling:
  assumes "w_nodes w link = Some (Symlink t)" "w_nodes w t = None"
  shows "\<exists>w'. relink E name link w = Inr w' \<and> w_nodes w' link = Some (Symlink t)"
  using assms
  by (simp add: relink_def FileExists_def c_access_def lookup_node_def eval_nat_numeral SymLink_def from_call_def c_symlink_def
      change_nodes_def)

subsection \<open>Nothing is lost across files\<close>

text \<open>
  The states of a log file in use: besides the object and the world, the inodes of the files rolled away and the text
  appended so far. A new file has a name of its own.
\<close>

definition name_free :: "log_config \<Rightarrow> log_file \<Rightarrow> timestamp \<Rightarrow> world \<Rightarrow> bool" where
  "name_free cfg lf now w \<longleftrightarrow> w_nodes w (GetLogFileName cfg lf now) = None \<and> length (GetLogFileName cfg lf now) < 1024"

definition current_inode :: "log_file \<Rightarrow> world \<Rightarrow> nat option" where
  "current_inode lf w =
     (case lf_file lf of None \<Rightarrow> None | Some f \<Rightarrow> (case wf_fp f of None \<Rightarrow> None
      | Some h \<Rightarrow> (case w_streams w h of None \<Rightarrow> None | Some s \<Rightarrow> fs_inode s)))"

definition inode_list :: "nat option \<Rightarrow> nat list" where
  "inode_list i = (case i of None \<Rightarrow> [] | Some n \<Rightarrow> [n])"

type_synonym log_state = "log_file \<times> world \<times> nat list \<times> string"

inductive log_step :: "libc \<Rightarrow> log_config \<Rightarrow> log_state \<Rightarrow> log_state \<Rightarrow> bool" for E cfg where
  log_append: "name_free cfg lf now3 w \<Longrightarrow> AppendUnLocked E cfg (now1, now2, now3) lf data w = Inr (lf', w') \<Longrightarrow>
     old = (if current_inode lf' w' = current_inode lf w then [] else inode_list (current_inode lf w)) \<Longrightarrow>
     log_step E cfg (lf, w, hist, sent) (lf', w', hist @ old, sent @ data)"
| log_flush: "LogFile_Flush E cfg lf w = Inr (n, w') \<Longrightarrow> log_step E cfg (lf, w, hist, sent) (lf, w', hist, sent)"

inductive log_reachable :: "libc \<Rightarrow> log_config \<Rightarrow> log_state \<Rightarrow> bool" for E cfg where
  log_init: "0 < Timestamp_SecondsSinceEpoch now1 \<Longrightarrow> link_short (GetLinkLogFileName cfg (LogFile_blank cfg)) w \<Longrightarrow>
     name_free cfg (LogFile_blank cfg) now2 w \<Longrightarrow> LogFile_new E cfg now1 now2 w = Inr (lf, w') \<Longrightarrow>
     log_reachable E cfg (lf, w', [], '''')"
| log_next: "log_reachable E cfg c \<Longrightarrow> log_step E cfg c c' \<Longrightarrow> log_reachable E cfg c'"

text \<open>
  The invariant: the file is open on an inode of its own, the files rolled away and what is written or still buffered make
  up the text appended, the byte count is that of the current file, and the last roll lies in the period noted.
\<close>

definition log_at :: "log_file \<Rightarrow> world \<Rightarrow> nat \<Rightarrow> nat \<Rightarrow> string \<Rightarrow> bool" where
  "log_at lf w h i p \<longleftrightarrow> (\<exists>f. lf_file lf = Some f \<and> wf_fp f = Some h \<and> holds w h i p \<and> h < w_fresh w \<and> i < w_fresh w \<and>
     wf_written f = length (w_data w i @ p))"

definition log_frame :: "log_config \<Rightarrow> log_file \<Rightarrow> world \<Rightarrow> bool" where
  "log_frame cfg lf w \<longleftrightarrow> link_short (GetLinkLogFileName cfg (LogFile_blank cfg)) w \<and> lf_base_name lf = cfg_program cfg \<and>
     lf_last_period lf = day_start (lf_last_roll lf)"

definition history :: "world \<Rightarrow> nat list \<Rightarrow> nat \<Rightarrow> string \<Rightarrow> string \<Rightarrow> bool" where
  "history w hist i p sent \<longleftrightarrow> i \<notin> set hist \<and> (\<forall>j \<in> set hist. j < w_fresh w) \<and> concat (map (w_data w) hist) @ w_data w i @ p = sent"

definition log_inv :: "log_config \<Rightarrow> log_state \<Rightarrow> bool" where
  "log_inv cfg c \<longleftrightarrow> (case c of (lf, w, hist, sent) \<Rightarrow> log_frame cfg lf w \<and> (\<exists>h i p. log_at lf w h i p \<and> history w hist i p sent))"

lemma log_at_inode: "log_at lf w h i p \<Longrightarrow> current_inode lf w = Some i"
  by (auto simp: log_at_def current_inode_def holds_def)

lemma AppendableFile_open_fresh:
  assumes "calm E" "w_nodes w name = None"
  shows "\<exists>w'. AppendableFile_open E name w = Inr (\<lparr>wf_filename = name, wf_fp = Some (w_fresh w + 1), wf_written = 0\<rparr>, w') \<and>
    w_data w' = (w_data w)(w_fresh w := '''') \<and> w_fresh w' = w_fresh w + 2 \<and> holds w' (w_fresh w + 1) (w_fresh w) '''' \<and>
    (\<forall>h i p. h \<noteq> w_fresh w + 1 \<longrightarrow> holds w' h i p = holds w h i p) \<and> (\<forall>link. link_short link w \<longrightarrow> link_short link w')"
  using assms
  by (simp add: AppendableFile_open_def c_fopen_def open_node_def lookup_node_def create_node_def new_stream_def
      WritableFile_of_def c_setbuffer_def holds_def link_short_def eval_nat_numeral)

lemma WritableFile_delete_calm:
  assumes "calm E" "wf_fp f = Some h" "holds w h i p"
  shows "\<exists>w'. WritableFile_delete E f w = Inr w' \<and> w_data w' = (w_data w)(i := w_data w i @ p) \<and> w_fresh w' = w_fresh w \<and>
    (\<forall>k j q. k \<noteq> h \<longrightarrow> holds w' k j q = holds w k j q) \<and> w_nodes w' = w_nodes w"
  using assms by (auto simp: WritableFile_delete_def c_fclose_def holds_def sync_def Let_def)

lemma link_short_nodes: "w_nodes w' = w_nodes w \<Longrightarrow> link_short p w' = link_short p w"
  by (simp add: link_short_def)

lemma holds_same_files: "same_files w w' \<Longrightarrow> holds w' h i p = holds w h i p"
  by (simp add: holds_def same_files_def)

text \<open>Rolling, with a file open and at the construction of the log file.\<close>

lemma RollFile_first:
  assumes "calm E" "name_free cfg lf now2 w" "lf_file lf = None" "lf_last_roll lf < Timestamp_SecondsSinceEpoch now1" "log_frame cfg lf w"
  shows "\<exists>lf' w'. RollFile E cfg now1 now2 lf w = Inr (lf', w') \<and> log_inv cfg (lf', w', [], '''')"
proof -
  let ?name = "GetLogFileName cfg lf now2" and ?link = "GetLinkLogFileName cfg (LogFile_blank cfg)"
  let ?now = "Timestamp_SecondsSinceEpoch now1"
  have link: "GetLinkLogFileName cfg (lf'\<lparr>lf_file := x\<rparr>) = ?link" if "lf_base_name lf' = cfg_program cfg" for lf' x
    using that by (simp add: GetLinkLogFileName_def LogFile_blank_def)
  obtain w1 where o: "AppendableFile_open E ?name w = Inr (\<lparr>wf_filename = ?name, wf_fp = Some (w_fresh w + 1), wf_written = 0\<rparr>, w1)"
    "w_data w1 = (w_data w)(w_fresh w := '''')" "w_fresh w1 = w_fresh w + 2" "holds w1 (w_fresh w + 1) (w_fresh w) ''''"
    "\<forall>link. link_short link w \<longrightarrow> link_short link w1"
    using AppendableFile_open_fresh [OF assms(1), of w ?name] assms(2) by (auto simp: name_free_def)
  let ?f = "\<lparr>wf_filename = ?name, wf_fp = Some (w_fresh w + 1), wf_written = 0\<rparr>"
  let ?lf = "lf\<lparr>lf_last_roll := ?now, lf_last_flush := ?now, lf_last_period := day_start ?now, lf_file := Some ?f\<rparr>"
  have "link_short ?link w1" using o(5) assms(5) by (simp add: log_frame_def)
  then obtain w2 where r: "relink E ?name ?link w1 = Inr w2" "same_files w1 w2" "link_short ?link w2"
    using relink_run [of ?link w1 ?name E] assms(2) by (auto simp: name_free_def)
  have "RollFile E cfg now1 now2 lf w = Inr (?lf, w2)"
    using assms(3-5) r(1) o(1) by (simp add: RollFile_def reset_file_def link log_frame_def Let_def)
  moreover have "log_at ?lf w2 (w_fresh w + 1) (w_fresh w) ''''" "history w2 [] (w_fresh w) '''' ''''"
    using o(2-4) r(2) by (simp_all add: log_at_def holds_same_files history_def) (simp_all add: same_files_def)
  moreover have "log_frame cfg ?lf w2" using r(3) assms(5) by (simp add: log_frame_def)
  ultimately show ?thesis unfolding log_inv_def by blast
qed

lemma RollFile_run:
  assumes "calm E" "name_free cfg lf now2 w" "log_frame cfg lf w" "log_at lf w h i p" "history w hist i p sent"
  shows "\<exists>lf' w'. RollFile E cfg now1 now2 lf w = Inr (lf', w') \<and>
    log_inv cfg (lf', w', hist @ (if current_inode lf' w' = Some i then [] else [i]), sent)"
proof (cases "lf_last_roll lf < Timestamp_SecondsSinceEpoch now1")
  case False
  then have "RollFile E cfg now1 now2 lf w = Inr (lf, w)" by (simp add: RollFile_def)
  moreover have "log_inv cfg (lf, w, hist, sent)" using assms(3-5) by (auto simp: log_inv_def)
  ultimately show ?thesis using log_at_inode [OF assms(4)] by simp
next
  case True
  let ?name = "GetLogFileName cfg lf now2" and ?link = "GetLinkLogFileName cfg (LogFile_blank cfg)"
  let ?now = "Timestamp_SecondsSinceEpoch now1"
  obtain f where f: "lf_file lf = Some f" "wf_fp f = Some h" "holds w h i p" "h < w_fresh w" "i < w_fresh w"
    using assms(4) by (auto simp: log_at_def)
  have link: "GetLinkLogFileName cfg (lf'\<lparr>lf_file := x\<rparr>) = ?link" if "lf_base_name lf' = cfg_program cfg" for lf' x
    using that by (simp add: GetLinkLogFileName_def LogFile_blank_def)
  obtain w1 where o: "AppendableFile_open E ?name w = Inr (\<lparr>wf_filename = ?name, wf_fp = Some (w_fresh w + 1), wf_written = 0\<rparr>, w1)"
    "w_data w1 = (w_data w)(w_fresh w := '''')" "w_fresh w1 = w_fresh w + 2" "holds w1 (w_fresh w + 1) (w_fresh w) ''''"
    "\<forall>h i p. h \<noteq> w_fresh w + 1 \<longrightarrow> holds w1 h i p = holds w h i p" "\<forall>link. link_short link w \<longrightarrow> link_short link w1"
    using AppendableFile_open_fresh [OF assms(1), of w ?name] assms(2) by (auto simp: name_free_def)
  let ?f = "\<lparr>wf_filename = ?name, wf_fp = Some (w_fresh w + 1), wf_written = 0\<rparr>"
  let ?lf = "lf\<lparr>lf_last_roll := ?now, lf_last_flush := ?now, lf_last_period := day_start ?now, lf_file := Some ?f\<rparr>"
  have "holds w1 h i p" using f(3,4) o(5) by auto
  from WritableFile_delete_calm [OF assms(1) f(2) this]
  obtain w2 where d: "WritableFile_delete E f w1 = Inr w2" "w_data w2 = (w_data w1)(i := w_data w1 i @ p)" "w_fresh w2 = w_fresh w1"
    "\<forall>k j q. k \<noteq> h \<longrightarrow> holds w2 k j q = holds w1 k j q" "w_nodes w2 = w_nodes w1" by (elim exE conjE)
  have "link_short ?link w2" unfolding link_short_nodes [OF d(5)] using o(6) assms(3) by (simp add: log_frame_def)
  from relink_run [OF this name_free_def [THEN iffD1, OF assms(2), THEN conjunct2], of E]
  obtain w3 where r: "relink E ?name ?link w2 = Inr w3" "same_files w2 w3" "link_short ?link w3" by (elim exE conjE)
  have roll: "RollFile E cfg now1 now2 lf w = Inr (?lf, w3)"
    using assms(3) True r(1) o(1) d(1) f(1) by (simp add: RollFile_def reset_file_def link log_frame_def Let_def)
  have s: "w_data w3 = w_data w2" "w_fresh w3 = w_fresh w2" using r(2) by (simp_all add: same_files_def)
  have "w_data w1 i = w_data w i" using f(5) by (simp add: o(2))
  then have data: "w_data w3 = (w_data w)(w_fresh w := '''', i := w_data w i @ p)" "w_fresh w3 = w_fresh w + 2"
    unfolding s d(2,3) o(2,3) by simp_all
  have at: "log_at ?lf w3 (w_fresh w + 1) (w_fresh w) ''''"
    using o(4) d(4) r(2) f(4,5) by (simp add: log_at_def holds_same_files data)
  have "map (w_data w3) hist = map (w_data w) hist" using assms(5) by (auto simp: history_def data)
  then have "history w3 (hist @ [i]) (w_fresh w) '''' sent"
    using assms(5) f(5) by (auto simp: history_def data)
  moreover have "log_frame cfg ?lf w3" using r(3) assms(3) by (simp add: log_frame_def)
  ultimately have "log_inv cfg (?lf, w3, hist @ [i], sent)" using at unfolding log_inv_def by blast
  then show ?thesis using roll log_at_inode [OF at] f(5) by auto
qed

lemma holds_unique: "holds w h i p \<Longrightarrow> holds w h j q \<Longrightarrow> i = j \<and> p = q"
  by (auto simp: holds_def)

lemma WritableFile_Flush_calm:
  assumes "calm E" "wf_fp f = Some h" "holds w h i p"
  shows "\<exists>w'. WritableFile_Flush E f w = Inr (kOk, w') \<and> w_data w' = (w_data w)(i := w_data w i @ p) \<and> w_fresh w' = w_fresh w \<and>
    holds w' h i '''' \<and> w_nodes w' = w_nodes w"
proof -
  obtain s where "w_streams w h = Some s" "fs_inode s = Some i" "fs_pending s = p" using assms(3) by (auto simp: holds_def)
  with assms(1,2) show ?thesis by (simp add: WritableFile_Flush_def c_fflush_def holds_def sync_def status_of_def)
qed

lemma Flush_keeps:
  assumes "calm E" "log_at lf w h i p" "history w hist i p sent" "log_frame cfg lf w" "lf_file lf = Some f"
  shows "\<exists>w'. WritableFile_Flush E f w = Inr (kOk, w') \<and> log_at lf w' h i '''' \<and> history w' hist i '''' sent \<and> log_frame cfg lf w'"
proof -
  have f: "wf_fp f = Some h" "holds w h i p" "h < w_fresh w" "i < w_fresh w" "wf_written f = length (w_data w i @ p)"
    using assms(2,5) by (auto simp: log_at_def)
  from WritableFile_Flush_calm [OF assms(1) f(1,2)]
  obtain w' where w: "WritableFile_Flush E f w = Inr (kOk, w')" "w_data w' = (w_data w)(i := w_data w i @ p)" "w_fresh w' = w_fresh w"
    "holds w' h i ''''" "w_nodes w' = w_nodes w" by (elim exE conjE)
  have "map (w_data w') hist = map (w_data w) hist" using assms(3) by (auto simp: history_def w(2))
  then have "history w' hist i '''' sent" using assms(3) by (simp add: history_def w(2,3))
  moreover have "log_at lf w' h i ''''" using f w(2-4) assms(5) by (simp add: log_at_def)
  moreover have "log_frame cfg lf w'" using assms(4) link_short_nodes [OF w(5)] by (simp add: log_frame_def)
  ultimately show ?thesis using w(1) by blast
qed

lemma same_but_link_short: "same_but h w w' \<Longrightarrow> link_short p w' = link_short p w"
  by (simp add: same_but_def link_short_def)

lemma AppendUnLocked_run:
  assumes "calm E" "log_inv cfg (lf, w, hist, sent)" "name_free cfg lf now3 w"
  shows "\<exists>lf' w'. AppendUnLocked E cfg (now1, now2, now3) lf data w = Inr (lf', w') \<and>
    log_inv cfg (lf', w', hist @ (if current_inode lf' w' = current_inode lf w then [] else inode_list (current_inode lf w)), sent @ data)"
proof -
  obtain h i p where c: "log_frame cfg lf w" "log_at lf w h i p" "history w hist i p sent" using assms(2) by (auto simp: log_inv_def)
  obtain f where f: "lf_file lf = Some f" "wf_fp f = Some h" "holds w h i p" "h < w_fresh w" "i < w_fresh w"
    "wf_written f = length (w_data w i @ p)" using c(2) by (auto simp: log_at_def)
  let ?f = "f\<lparr>wf_written := wf_written f + length data\<rparr>"
  obtain w1 where a: "WritableFile_Append E f data w = Inr (kOk, ?f, w1)" "same_but h w w1" "holds w1 h i (p @ data)"
    using WritableFile_Append_run [OF f(2,3), of E data] calm_progress [OF assms(1)] by (auto simp: status_of_def)
  have s: "w_data w1 = w_data w" "w_fresh w1 = w_fresh w" "w_nodes w1 = w_nodes w" using a(2) by (simp_all add: same_but_def)
  define G where "G r \<longleftrightarrow> (\<exists>lf' w'. r = Inr (lf', w') \<and>
    log_inv cfg (lf', w', hist @ (if current_inode lf' w' = Some i then [] else [i]), sent @ data))" for r :: "(log_file \<times> world) result"
  have pick: "G x \<Longrightarrow> G y \<Longrightarrow> G (if b then x else y)" for b x y by simp
  have k: "log_at lf1 w1 h i (p @ data)" "history w1 hist i (p @ data) (sent @ data)" "log_frame cfg lf1 w1" "name_free cfg lf1 now3 w1"
    if "lf_file lf1 = Some ?f" "lf_base_name lf1 = lf_base_name lf" "lf_last_period lf1 = lf_last_period lf"
      "lf_last_roll lf1 = lf_last_roll lf" for lf1
  proof -
    show "log_at lf1 w1 h i (p @ data)" using that(1) f a(3) s by (simp add: log_at_def)
    show "history w1 hist i (p @ data) (sent @ data)" using c(3) by (auto simp: history_def s)
    show "log_frame cfg lf1 w1" using c(1) that same_but_link_short [OF a(2)] by (simp add: log_frame_def)
    show "name_free cfg lf1 now3 w1" using assms(3) that(2) by (simp add: name_free_def GetLogFileName_def s(3))
  qed
  have roll: "G (RollFile E cfg now2 now3 lf1 w1)"
    if "lf_file lf1 = Some ?f" "lf_base_name lf1 = lf_base_name lf" "lf_last_period lf1 = lf_last_period lf"
      "lf_last_roll lf1 = lf_last_roll lf" for lf1
    using RollFile_run [OF assms(1) k(4,3,1,2) [OF that]] unfolding G_def .
  have keep: "G (Inr (lf1, w1))"
    if "lf_file lf1 = Some ?f" "lf_base_name lf1 = lf_base_name lf" "lf_last_period lf1 = lf_last_period lf"
      "lf_last_roll lf1 = lf_last_roll lf" for lf1
    using k [OF that] log_at_inode [OF k(1) [OF that]] by (auto simp: log_inv_def G_def)
  have flush: "G (bindR (WritableFile_Flush E ?f w1) (\<lambda>(_, w). Inr (lf1\<lparr>lf_last_flush := n\<rparr>, w)))"
    if "lf_file lf1 = Some ?f" "lf_base_name lf1 = lf_base_name lf" "lf_last_period lf1 = lf_last_period lf"
      "lf_last_roll lf1 = lf_last_roll lf" for lf1 n
  proof -
    have m: "lf_file (lf1\<lparr>lf_last_flush := n\<rparr>) = Some ?f" "lf_base_name (lf1\<lparr>lf_last_flush := n\<rparr>) = lf_base_name lf"
      "lf_last_period (lf1\<lparr>lf_last_flush := n\<rparr>) = lf_last_period lf" "lf_last_roll (lf1\<lparr>lf_last_flush := n\<rparr>) = lf_last_roll lf"
      using that by simp_all
    from Flush_keeps [OF assms(1) k(1-3) [OF m] m(1)]
    obtain w2 where w: "WritableFile_Flush E ?f w1 = Inr (kOk, w2)" "log_at (lf1\<lparr>lf_last_flush := n\<rparr>) w2 h i ''''"
      "history w2 hist i '''' (sent @ data)" "log_frame cfg (lf1\<lparr>lf_last_flush := n\<rparr>) w2" by (elim exE conjE)
    have "log_inv cfg (lf1\<lparr>lf_last_flush := n\<rparr>, w2, hist @ (if current_inode (lf1\<lparr>lf_last_flush := n\<rparr>) w2 = Some i then [] else [i]), sent @ data)"
      using w(2-4) by (auto simp: log_inv_def log_at_inode [OF w(2)])
    with w(1) show ?thesis by (simp add: G_def)
  qed
  have "G (AppendUnLocked E cfg (now1, now2, now3) lf data w)"
    unfolding AppendUnLocked_def case_prod_conv f(1) option.case a(1) bindR_simps Let_def
    by (intro pick; rule roll keep flush; simp)
  then show ?thesis unfolding G_def log_at_inode [OF c(2)] inode_list_def option.case .
qed

lemma log_reachable_inv: "log_reachable E cfg c \<Longrightarrow> calm E \<Longrightarrow> log_inv cfg c"
proof (induction rule: log_reachable.induct)
  case (log_init now1 w now2 lf w')
  have "log_frame cfg (LogFile_blank cfg) w"
    using log_init.hyps(2) by (simp add: log_frame_def LogFile_blank_def day_start_def)
  moreover have "lf_file (LogFile_blank cfg) = None" "lf_last_roll (LogFile_blank cfg) < Timestamp_SecondsSinceEpoch now1"
    using log_init.hyps(1) by (simp_all add: LogFile_blank_def)
  ultimately obtain lf1 w1 where "RollFile E cfg now1 now2 (LogFile_blank cfg) w = Inr (lf1, w1)" "log_inv cfg (lf1, w1, [], '''')"
    using RollFile_first [OF log_init.prems log_init.hyps(3)] by blast
  then show ?case using log_init.hyps(4) by (auto simp: LogFile_new_def)
next
  case (log_next c c')
  from log_next.hyps(2) log_next.IH [OF log_next.prems] show ?case
  proof (induction rule: log_step.induct)
    case (log_append lf now3 w now1 now2 data lf' w' old hist sent)
    then show ?case using AppendUnLocked_run [OF log_next.prems log_append.prems log_append.hyps(1), of now1 now2 data] by auto
  next
    case (log_flush lf w n w' hist sent)
    then obtain h i p f where c: "log_frame cfg lf w" "log_at lf w h i p" "history w hist i p sent" "lf_file lf = Some f"
      by (auto simp: log_inv_def log_at_def)
    from Flush_keeps [OF log_next.prems c(2,3,1,4)] log_flush.hyps c(4)
    have "log_at lf w' h i ''''" "history w' hist i '''' sent" "log_frame cfg lf w'" by (auto simp: LogFile_Flush_def)
    then show ?case unfolding log_inv_def by blast
  qed
qed


definition demo_config :: log_config where
  "demo_config = \<lparr>FLAGS_max_log_size = 64, FLAGS_logbufsecs = 3, FLAGS_drop_log_memory = True, FLAGS_log_dir = ''/tmp'',
     cfg_program = ''demo'', cfg_host = ''host'', cfg_pid = 42, cfg_user = ''me'', cfg_pagesize = 4096\<rparr>"


end
