(* ===== verification/Monitors.thy ===== *)
theory Monitors
  imports Prelude
begin

text \<open>
  Mutexes and condition variables (\<^verbatim>\<open>threading/Mutex.h,.cc\<close>, \<^verbatim>\<open>threading/Condition.h\<close>) and two monitors
  built on them: \<^verbatim>\<open>threading/CountDownLatch.h\<close> and \<^verbatim>\<open>base/BlockingQueue.h\<close>.

  \<^item> The mutex is modelled at the granularity of its two writes: taking the \<^verbatim>\<open>pthread_mutex_t\<close> and storing
    \<open>holder_\<close> are separate steps, as are clearing \<open>holder_\<close> and releasing.
  \<^item> Above it every critical section is one step, which the mutex justifies; \<open>Wait\<close> ends a section and the
    re-test of the loop around it is the next one. A call in progress is an element of a list of program
    counters; calls arrive at any time, wake-ups may be spurious, and \<open>Notify\<close> wakes any one waiting call.
    Of \<open>WaitForSeconds\<close> the deadline and the result are given; otherwise it is a \<open>Wait\<close> that may wake up by itself.
  \<^item> The locale \<open>signalled\<close> is the counting argument all the monitors share: if every step accounts for
    the items available, the calls waiting and the calls about to test, then no wake-up is lost.
\<close>

named_theorems tally_simps "how a step changes the numbers of calls in a state"

subsection \<open>Mutex\<close>

record mutex =
  mx_owner :: "nat option"
  mx_holder :: nat

definition Mutex_new :: mutex where "Mutex_new = \<lparr>mx_owner = None, mx_holder = 0\<rparr>"

definition EPERM :: int where [simp]: "EPERM = 1"
definition EDEADLK :: int where [simp]: "EDEADLK = 35"

text \<open>The error-checking mutex of POSIX: \<open>None\<close> when the caller blocks, else the return code.\<close>

definition pthread_mutex_lock :: "nat \<Rightarrow> mutex \<Rightarrow> (int \<times> mutex) option" where
  "pthread_mutex_lock tid m =
     (case mx_owner m of
        None \<Rightarrow> Some (0, m\<lparr>mx_owner := Some tid\<rparr>)
      | Some t \<Rightarrow> if t = tid then Some (EDEADLK, m) else None)"

definition pthread_mutex_unlock :: "nat \<Rightarrow> mutex \<Rightarrow> int \<times> mutex" where
  "pthread_mutex_unlock tid m =
     (if mx_owner m = Some tid then (0, m\<lparr>mx_owner := None\<rparr>) else (EPERM, m))"

text \<open>\<open>DCHECK_ERR\<close> is the \<open>CHECK_ERR\<close> of glog, which is fatal for the value -1.\<close>

definition DCHECK_ERR :: "int \<Rightarrow> 'a result \<Rightarrow> 'a result" where
  "DCHECK_ERR ret m = (if ret = -1 then Inl Check_Failed else m)"

definition AssignHolder :: "nat \<Rightarrow> mutex \<Rightarrow> mutex" where "AssignHolder tid m = m\<lparr>mx_holder := tid\<rparr>"
definition UnAssignHolder :: "mutex \<Rightarrow> mutex" where "UnAssignHolder m = m\<lparr>mx_holder := 0\<rparr>"

definition Mutex_Lock :: "nat \<Rightarrow> mutex \<Rightarrow> mutex option result" where
  "Mutex_Lock tid m =
     (case pthread_mutex_lock tid m of None \<Rightarrow> Inr None
      | Some (ret, m') \<Rightarrow> DCHECK_ERR ret (Inr (Some (AssignHolder tid m'))))"

definition Mutex_Unlock :: "nat \<Rightarrow> mutex \<Rightarrow> mutex result" where
  "Mutex_Unlock tid m =
     (let (ret, m') = pthread_mutex_unlock tid (UnAssignHolder m) in DCHECK_ERR ret (Inr m'))"

definition IsLockedByThisThread :: "nat \<Rightarrow> mutex \<Rightarrow> bool" where
  "IsLockedByThisThread tid m \<longleftrightarrow> mx_holder m = tid"

definition AssertLocked :: "nat \<Rightarrow> mutex \<Rightarrow> unit result" where
  "AssertLocked tid m = CHECK (IsLockedByThisThread tid m) (Inr ())"

text \<open>
  The checks do not see a misuse: taking the mutex twice and releasing a free one pass, and after the first
  release the thread that still believes to hold the mutex does not own it.
\<close>

lemma Mutex_Lock_twice_unnoticed:
  assumes "tid \<noteq> 0"
  shows "\<exists>m1 m2. Mutex_Lock tid Mutex_new = Inr (Some m1) \<and> Mutex_Lock tid m1 = Inr (Some m1) \<and>
    Mutex_Unlock tid m1 = Inr m2 \<and> mx_owner m2 = None \<and> Mutex_Unlock tid m2 = Inr m2"
  by (simp add: Mutex_Lock_def Mutex_Unlock_def Mutex_new_def pthread_mutex_lock_def pthread_mutex_unlock_def
      DCHECK_ERR_def AssignHolder_def UnAssignHolder_def)

text \<open>
  Threads that pair their calls. \<open>M_Locked\<close> and \<open>M_Reacquired\<close> own the mutex and have not stored \<open>holder_\<close>
  yet; \<open>M_Unassigned\<close> and \<open>M_Releasing\<close> (inside \<open>Condition::Wait\<close>) have cleared it and still own the mutex.
\<close>

text \<open>
  \<open>WaitForSeconds\<close> gives the mutex back and takes it again as \<open>Wait\<close> does; what it adds is the deadline on the wall clock and the
  test of the code \<open>pthread_cond_timedwait\<close> returns for it.
\<close>

definition ETIMEDOUT :: int where "ETIMEDOUT = 110"

definition wait_deadline :: "int \<times> int \<Rightarrow> int \<Rightarrow> int \<times> int" where
  "wait_deadline now seconds = (i64 (fst now + seconds), snd now)"

definition WaitForSeconds :: "int \<times> int \<Rightarrow> (int \<times> int \<Rightarrow> int) \<Rightarrow> int \<Rightarrow> bool" where
  "WaitForSeconds now timedwait seconds \<longleftrightarrow> ETIMEDOUT = timedwait (wait_deadline now seconds)"

datatype mutex_pc = M_Out | M_Locked | M_In | M_Unassigned | M_Releasing | M_Waiting | M_Reacquired

type_synonym mutex_state = "mutex \<times> (nat \<Rightarrow> mutex_pc)"

inductive mutex_step :: "mutex_state \<Rightarrow> mutex_state \<Rightarrow> bool" where
  m_lock: "pcs t = M_Out \<Longrightarrow> t \<noteq> 0 \<Longrightarrow> pthread_mutex_lock t m = Some (ret, m') \<Longrightarrow> mutex_step (m, pcs) (m', pcs(t := M_Locked))"
| m_assign: "pcs t = M_Locked \<Longrightarrow> mutex_step (m, pcs) (AssignHolder t m, pcs(t := M_In))"
| m_unassign: "pcs t = M_In \<Longrightarrow> mutex_step (m, pcs) (UnAssignHolder m, pcs(t := M_Unassigned))"
| m_unlock: "pcs t = M_Unassigned \<Longrightarrow> mutex_step (m, pcs) (snd (pthread_mutex_unlock t m), pcs(t := M_Out))"
| c_unassign: "pcs t = M_In \<Longrightarrow> mutex_step (m, pcs) (UnAssignHolder m, pcs(t := M_Releasing))"
| c_wait: "pcs t = M_Releasing \<Longrightarrow> mutex_step (m, pcs) (snd (pthread_mutex_unlock t m), pcs(t := M_Waiting))"
| c_return: "pcs t = M_Waiting \<Longrightarrow> pthread_mutex_lock t m = Some (ret, m') \<Longrightarrow> mutex_step (m, pcs) (m', pcs(t := M_Reacquired))"
| c_assign: "pcs t = M_Reacquired \<Longrightarrow> mutex_step (m, pcs) (AssignHolder t m, pcs(t := M_In))"

definition owns :: "mutex_pc \<Rightarrow> bool" where
  "owns pc \<longleftrightarrow> pc \<in> {M_Locked, M_In, M_Unassigned, M_Releasing, M_Reacquired}"

definition mutex_inv :: "mutex_state \<Rightarrow> bool" where
  "mutex_inv s = (case s of (m, pcs) \<Rightarrow>
     pcs 0 = M_Out \<and> (\<forall>t. owns (pcs t) \<longleftrightarrow> mx_owner m = Some t) \<and>
     (\<forall>t. t \<noteq> 0 \<longrightarrow> (mx_holder m = t \<longleftrightarrow> pcs t = M_In)))"

lemma owns_simps [simp]:
  "owns M_Locked" "owns M_In" "owns M_Unassigned" "owns M_Releasing" "owns M_Reacquired" "\<not> owns M_Out" "\<not> owns M_Waiting"
  by (simp_all add: owns_def)

lemma mutex_inv_init: "mutex_inv (Mutex_new, \<lambda>_. M_Out)"
  by (simp add: mutex_inv_def Mutex_new_def)

lemma mutex_lock_inv:
  assumes inv: "mutex_inv (m, pcs)" and t: "t \<noteq> 0" "\<not> owns (pcs t)" and l: "pthread_mutex_lock t m = Some (ret, m')"
    and pc: "owns pc" "pc \<noteq> M_In"
  shows "mutex_inv (m', pcs(t := pc))"
proof -
  have free: "mx_owner m = None" "m' = m\<lparr>mx_owner := Some t\<rparr>"
    using inv t l by (auto simp: mutex_inv_def pthread_mutex_lock_def split: option.splits if_splits)
  have none: "\<not> owns (pcs u)" for u using inv free(1) by (simp add: mutex_inv_def)
  have "pcs t \<noteq> M_In" using t(2) by auto
  with inv none t pc show ?thesis by (auto simp: mutex_inv_def free(2))
qed

lemma mutex_unlock_inv:
  assumes inv: "mutex_inv (m, pcs)" and t: "owns (pcs t)" "pcs t \<noteq> M_In" and pc: "\<not> owns pc"
  shows "mutex_inv (snd (pthread_mutex_unlock t m), pcs(t := pc))"
proof -
  have own: "mx_owner m = Some t" using inv t(1) by (simp add: mutex_inv_def)
  have t0: "t \<noteq> 0" by (rule notI) (use inv t(1) in \<open>simp add: mutex_inv_def\<close>)
  have "\<not> owns (pcs u)" if "u \<noteq> t" for u using inv own that by (simp add: mutex_inv_def)
  moreover have "pc \<noteq> M_In" using pc by auto
  ultimately show ?thesis using inv t pc own t0 by (auto simp: mutex_inv_def pthread_mutex_unlock_def)
qed

lemma mutex_holder_inv:
  assumes inv: "mutex_inv (m, pcs)" and t: "owns (pcs t)" and pc: "owns pc" and h: "h = (if pc = M_In then t else 0)"
  shows "mutex_inv (m\<lparr>mx_holder := h\<rparr>, pcs(t := pc))"
proof -
  have own: "mx_owner m = Some t" using inv t by (simp add: mutex_inv_def)
  have t0: "t \<noteq> 0" by (rule notI) (use inv t in \<open>simp add: mutex_inv_def\<close>)
  have "pcs u \<noteq> M_In" if "u \<noteq> t" for u
  proof
    assume "pcs u = M_In"
    then have "owns (pcs u)" by simp
    then show False using inv own that by (simp add: mutex_inv_def)
  qed
  with inv t pc own t0 show ?thesis by (auto simp: mutex_inv_def h)
qed

lemma mutex_step_inv: "mutex_step s s' \<Longrightarrow> mutex_inv s \<Longrightarrow> mutex_inv s'"
proof (induction rule: mutex_step.induct)
  case (m_lock pcs t m ret m') then show ?case using mutex_lock_inv by simp
next
  case (m_assign pcs t m) then show ?case using mutex_holder_inv [of m pcs t M_In t] by (simp add: AssignHolder_def)
next
  case (m_unassign pcs t m) then show ?case using mutex_holder_inv [of m pcs t M_Unassigned 0] by (simp add: UnAssignHolder_def)
next
  case (m_unlock pcs t m) then show ?case using mutex_unlock_inv by simp
next
  case (c_unassign pcs t m) then show ?case using mutex_holder_inv [of m pcs t M_Releasing 0] by (simp add: UnAssignHolder_def)
next
  case (c_wait pcs t m) then show ?case using mutex_unlock_inv by simp
next
  case (c_return pcs t m ret m')
  then have "t \<noteq> 0" by (intro notI) (simp add: mutex_inv_def)
  with c_return show ?case using mutex_lock_inv by simp
next
  case (c_assign pcs t m) then show ?case using mutex_holder_inv [of m pcs t M_In t] by (simp add: AssignHolder_def)
qed

lemma mutex_reach_inv: "mutex_step\<^sup>*\<^sup>* (Mutex_new, \<lambda>_. M_Out) s \<Longrightarrow> mutex_inv s"
  by (induction rule: rtranclp_induct) (auto intro: mutex_inv_init mutex_step_inv)

text \<open>
  C24: whatever the interleaving of \<open>Lock\<close>, \<open>Unlock\<close> and \<open>Condition::Wait\<close>, at most one thread is between
  taking and releasing the mutex, and \<open>AssertLocked\<close> passes exactly for the thread inside the critical section.
\<close>
theorem Mutex_holder_exact:
  assumes "mutex_step\<^sup>*\<^sup>* (Mutex_new, \<lambda>_. M_Out) (m, pcs)" "t \<noteq> 0"
  shows "(\<forall>u. owns (pcs t) \<and> owns (pcs u) \<longrightarrow> t = u) \<and> (AssertLocked t m = Inr () \<longleftrightarrow> pcs t = M_In)"
proof -
  have inv: "\<And>u. owns (pcs u) \<longleftrightarrow> mx_owner m = Some u" "mx_holder m = t \<longleftrightarrow> pcs t = M_In"
    using mutex_reach_inv [OF assms(1)] assms(2) by (simp_all add: mutex_inv_def)
  then show ?thesis by (auto simp: AssertLocked_def IsLockedByThisThread_def)
qed

lemma Mutex_holder_exact_witness: "\<exists>m pcs. pcs 7 = M_In \<and> AssertLocked 7 m = Inr () \<and> AssertLocked 8 m \<noteq> Inr ()"
proof -
  let ?m = "\<lparr>mx_owner = Some 7, mx_holder = 0\<rparr>" and ?pcs = "(\<lambda>_. M_Out)(7 := M_Locked)"
  have "mutex_step (Mutex_new, \<lambda>_. M_Out) (?m, ?pcs)"
    by (rule m_lock [where ret = 0]) (simp_all add: Mutex_new_def pthread_mutex_lock_def)
  moreover have "mutex_step (?m, ?pcs) (AssignHolder 7 ?m, ?pcs(7 := M_In))" by (rule m_assign) simp
  ultimately have "mutex_step\<^sup>*\<^sup>* (Mutex_new, \<lambda>_. M_Out) (AssignHolder 7 ?m, ?pcs(7 := M_In))"
    by (rule converse_rtranclp_into_rtranclp [OF _ r_into_rtranclp])
  from conjunct2 [OF Mutex_holder_exact [OF this, of 7]] conjunct2 [OF Mutex_holder_exact [OF this, of 8]] show ?thesis
    by (intro exI [of _ "AssignHolder 7 ?m"] exI [of _ "?pcs(7 := M_In)"]) simp
qed

subsection \<open>Calls in progress and condition variables\<close>

definition calls :: "('pc \<Rightarrow> bool) \<Rightarrow> 'pc list \<Rightarrow> nat" where
  "calls P pcs = length (filter P pcs)"

lemma calls_append [tally_simps]: "calls P (xs @ ys) = calls P xs + calls P ys"
  by (simp add: calls_def)

lemma calls_single [tally_simps]: "calls P [x] = (if P x then 1 else 0)"
  by (simp add: calls_def)

lemma calls_zero_iff: "calls P xs = 0 \<longleftrightarrow> (\<forall>x \<in> set xs. \<not> P x)"
  by (simp add: calls_def filter_empty_conv)

lemma calls_pos: "i < length xs \<Longrightarrow> P (xs ! i) \<Longrightarrow> 0 < calls P xs"
  using calls_zero_iff [of P xs] nth_mem by blast

lemma calls_update: "i < length xs \<Longrightarrow> calls P (xs[i := v]) + (if P (xs ! i) then 1 else 0) = calls P xs + (if P v then 1 else 0)"
proof (induction xs arbitrary: i)
  case (Cons x xs)
  then show ?case by (cases i) (auto simp: calls_def)
qed simp

text \<open>\<open>wake\<close> says which calls wait on the condition and where they continue, the re-test of their loop.\<close>

inductive notify_one :: "('pc \<Rightarrow> 'pc option) \<Rightarrow> 'pc list \<Rightarrow> 'pc list \<Rightarrow> bool" for wake where
  notify_none: "\<forall>p \<in> set pcs. wake p = None \<Longrightarrow> notify_one wake pcs pcs"
| notify_some: "i < length pcs \<Longrightarrow> wake (pcs ! i) = Some p \<Longrightarrow> notify_one wake pcs (pcs[i := p])"

definition notify_all :: "('pc \<Rightarrow> 'pc option) \<Rightarrow> 'pc list \<Rightarrow> 'pc list" where
  "notify_all wake pcs = map (\<lambda>p. case wake p of None \<Rightarrow> p | Some q \<Rightarrow> q) pcs"

lemma notify_one_length: "notify_one wake pcs pcs' \<Longrightarrow> length pcs' = length pcs"
  by (induction rule: notify_one.induct) auto

lemma notify_one_nth:
  assumes "notify_one wake pcs pcs'"
  shows "pcs' ! i = pcs ! i \<or> wake (pcs ! i) = Some (pcs' ! i)"
  using assms by (induction rule: notify_one.induct) (metis nth_list_update)+

lemma notify_one_calls:
  assumes "notify_one wake pcs pcs'" "\<And>p q. wake p = Some q \<Longrightarrow> P p = P q"
  shows "calls P pcs' = calls P pcs"
  using assms(1)
proof (induction rule: notify_one.induct)
  case (notify_some i pcs p)
  then show ?case using calls_update [of i pcs P p] assms(2) by (auto split: if_splits)
qed simp

lemma notify_one_tally:
  assumes "notify_one wake pcs pcs'" "\<And>p. waits p \<longleftrightarrow> wake p \<noteq> None"
    "\<And>p q. wake p = Some q \<Longrightarrow> \<not> waits q \<and> tests q \<and> \<not> tests p"
  shows "calls waits pcs = 0 \<and> pcs' = pcs \<or>
    calls waits pcs = Suc (calls waits pcs') \<and> calls tests pcs' = Suc (calls tests pcs)"
  using assms(1)
proof (induction rule: notify_one.induct)
  case (notify_none pcs)
  then show ?case using assms(2) by (simp add: calls_zero_iff)
next
  case (notify_some i pcs p)
  have "waits (pcs ! i)" "\<not> waits p" "tests p" "\<not> tests (pcs ! i)"
    using assms(2) [of "pcs ! i"] assms(3) [OF notify_some(2)] notify_some(2) by simp_all
  then show ?case
    using calls_update [of i pcs waits p] calls_update [of i pcs tests p] notify_some(1) by simp
qed

lemma notify_all_none: "(\<And>p q. wake p = Some q \<Longrightarrow> \<not> waits q) \<Longrightarrow> (\<And>p. waits p \<Longrightarrow> wake p \<noteq> None) \<Longrightarrow> calls waits (notify_all wake pcs) = 0"
  by (fastforce simp: calls_zero_iff notify_all_def split: option.splits)

text \<open>
  A tally is the number of items available, of calls waiting for one and of calls about to test. A step
  accounts for its items if it leaves nobody waiting or nothing available, or takes at most as many
  tests away as items, or wakes a call for the item it adds.
\<close>

type_synonym tally = "nat \<times> nat \<times> nat"

inductive accounts :: "tally \<Rightarrow> tally \<Rightarrow> bool" where
  acc_nobody: "accounts (a, w, c) (a', 0, c')"
| acc_nothing: "accounts (a, w, c) (0, w', c')"
| acc_idle: "a' \<le> a \<Longrightarrow> w' \<le> w \<Longrightarrow> c \<le> c' \<Longrightarrow> accounts (a, w, c) (a', w', c')"
| acc_consume: "a' < a \<Longrightarrow> w' \<le> w \<Longrightarrow> c \<le> Suc c' \<Longrightarrow> accounts (a, w, c) (a', w', c')"
| acc_supply: "a' \<le> Suc a \<Longrightarrow> 0 < w \<Longrightarrow> Suc c \<le> c' \<Longrightarrow> accounts (a, w, c) (a', w', c')"

definition none_lost :: "tally \<Rightarrow> bool" where
  "none_lost y \<longleftrightarrow> (case y of (a, w, c) \<Rightarrow> 0 < w \<longrightarrow> a \<le> c)"

lemma accounts_none_lost: "accounts y y' \<Longrightarrow> none_lost y \<Longrightarrow> none_lost y'"
  by (induction rule: accounts.induct) (auto simp: none_lost_def)

locale signalled =
  fixes step :: "'s \<Rightarrow> 's \<Rightarrow> bool" and inv :: "'s \<Rightarrow> bool" and tally :: "'s \<Rightarrow> tally"
  assumes step_inv: "inv s \<Longrightarrow> step s s' \<Longrightarrow> inv s'"
    and step_accounts: "inv s \<Longrightarrow> step s s' \<Longrightarrow> accounts (tally s) (tally s')"
begin

lemma reach_inv: "step\<^sup>*\<^sup>* s s' \<Longrightarrow> inv s \<Longrightarrow> inv s'"
  by (induction rule: rtranclp_induct) (auto intro: step_inv)

lemma no_lost_wakeup: "step\<^sup>*\<^sup>* s s' \<Longrightarrow> inv s \<Longrightarrow> none_lost (tally s) \<Longrightarrow> none_lost (tally s')"
proof (induction rule: rtranclp_induct)
  case (step s' s'')
  then show ?case using reach_inv step_accounts accounts_none_lost by blast
qed simp

end

subsection \<open>CountDownLatch\<close>

text \<open>The calls on a latch: \<open>Latch_Wait\<close> is about to test \<open>count_ > 0\<close>, \<open>Latch_Down\<close> about to count down.\<close>

datatype latch_pc = Latch_Wait | Latch_Blocked | Latch_Passed | Latch_Down | Latch_Done

type_synonym latch = "int \<times> latch_pc list"

definition latch_wake :: "latch_pc \<Rightarrow> latch_pc option" where
  "latch_wake pc = (if pc = Latch_Blocked then Some Latch_Wait else None)"

definition Latch_test :: "latch \<Rightarrow> nat \<Rightarrow> latch" where
  "Latch_test l i = (case l of (count, pcs) \<Rightarrow> (count, pcs[i := if 0 < count then Latch_Blocked else Latch_Passed]))"

definition CountDown :: "latch \<Rightarrow> nat \<Rightarrow> latch" where
  "CountDown l i =
     (case l of (count, pcs) \<Rightarrow>
        let count' = i32 (count - 1); pcs' = pcs[i := Latch_Done]
        in (count', if count' = 0 then notify_all latch_wake pcs' else pcs'))"

inductive latch_step :: "latch \<Rightarrow> latch \<Rightarrow> bool" where
  lt_test: "i < length (snd l) \<Longrightarrow> snd l ! i = Latch_Wait \<Longrightarrow> latch_step l (Latch_test l i)"
| lt_down: "i < length (snd l) \<Longrightarrow> snd l ! i = Latch_Down \<Longrightarrow> latch_step l (CountDown l i)"
| lt_spurious: "i < length (snd l) \<Longrightarrow> snd l ! i = Latch_Blocked \<Longrightarrow> latch_step l (fst l, (snd l)[i := Latch_Wait])"

definition latch_inv :: "int \<Rightarrow> nat \<Rightarrow> latch \<Rightarrow> bool" where
  "latch_inv n k l = (case l of (count, pcs) \<Rightarrow>
     length pcs = k \<and> count = n - int (calls (\<lambda>p. p = Latch_Done) pcs) \<and>
     (Latch_Passed \<in> set pcs \<longrightarrow> count \<le> 0) \<and> (Latch_Blocked \<in> set pcs \<longrightarrow> 0 < count))"

lemma calls_le_length: "calls P xs \<le> length xs"
  by (simp add: calls_def)

lemma mem_update: "i < length xs \<Longrightarrow> x \<in> set (xs[i := v]) \<Longrightarrow> x = v \<or> x \<in> set xs"
  using set_update_subset_insert by fastforce

lemma calls_latch_notify: "calls (\<lambda>p. p = Latch_Done) (notify_all latch_wake pcs) = calls (\<lambda>p. p = Latch_Done) pcs"
  by (induction pcs) (auto simp: calls_def notify_all_def latch_wake_def)

lemma latch_step_inv:
  assumes "latch_step l l'" "latch_inv n k l" "0 \<le> n" "n \<le> INT_MAX" "k < 2 ^ 31"
  shows "latch_inv n k l'"
  using assms(1,2)
proof (induction rule: latch_step.induct)
  case (lt_test i l)
  obtain count pcs where l: "l = (count, pcs)" by fastforce
  have "calls (\<lambda>p. p = Latch_Done) (pcs[i := v]) = calls (\<lambda>p. p = Latch_Done) pcs" if "v \<noteq> Latch_Done" for v
    using calls_update [of i pcs "\<lambda>p. p = Latch_Done" v] lt_test that by (simp add: l)
  with lt_test show ?case by (auto simp: l latch_inv_def Latch_test_def dest: mem_update)
next
  case (lt_down i l)
  obtain count pcs where l: "l = (count, pcs)" by fastforce
  let ?done = "\<lambda>p. p = Latch_Done" and ?pcs = "pcs[i := Latch_Done]"
  have d: "calls ?done ?pcs = Suc (calls ?done pcs)"
    using calls_update [of i pcs ?done Latch_Done] lt_down by (simp add: l)
  have "calls ?done ?pcs \<le> k" using calls_le_length [of ?done ?pcs] lt_down by (simp add: l latch_inv_def)
  then have w: "i32 (count - 1) = count - 1"
    using lt_down assms(3-5) d by (intro i32_id) (auto simp: l latch_inv_def)
  have c: "count - 1 = n - int (calls ?done ?pcs)" using lt_down d by (simp add: l latch_inv_def)
  show ?case
  proof (cases "count - 1 = 0")
    case True
    have "Latch_Blocked \<notin> set (notify_all latch_wake ?pcs)"
      by (auto simp: notify_all_def latch_wake_def split: option.splits if_splits)
    moreover have "length (notify_all latch_wake ?pcs) = length pcs" by (simp add: notify_all_def)
    ultimately show ?thesis using True lt_down c w
      by (simp add: l latch_inv_def CountDown_def Let_def calls_latch_notify)
  next
    case False
    have m: "Latch_Passed \<in> set ?pcs \<Longrightarrow> Latch_Passed \<in> set pcs" "Latch_Blocked \<in> set ?pcs \<Longrightarrow> Latch_Blocked \<in> set pcs"
      using mem_update [of i pcs _ Latch_Done] lt_down(1) by (auto simp: l)
    have inv: "length pcs = k" "Latch_Passed \<in> set pcs \<Longrightarrow> count \<le> 0" "Latch_Blocked \<in> set pcs \<Longrightarrow> 0 < count"
      using lt_down(3) by (simp_all add: l latch_inv_def)
    have "count - 1 \<le> 0" if "Latch_Passed \<in> set ?pcs" using m(1) inv(2) that by fastforce
    moreover have "0 < count - 1" if "Latch_Blocked \<in> set ?pcs" using m(2) inv(3) that False by fastforce
    ultimately show ?thesis using False c w inv(1) by (simp add: l latch_inv_def CountDown_def Let_def)
  qed
next
  case (lt_spurious i l)
  obtain count pcs where l: "l = (count, pcs)" by fastforce
  have "calls (\<lambda>p. p = Latch_Done) (pcs[i := Latch_Wait]) = calls (\<lambda>p. p = Latch_Done) pcs"
    using calls_update [of i pcs "\<lambda>p. p = Latch_Done" Latch_Wait] lt_spurious by (simp add: l)
  with lt_spurious show ?case by (auto simp: l latch_inv_def dest: mem_update)
qed

text \<open>
  C25: for any calls to \<open>Wait\<close> and \<open>CountDown\<close> on a latch of \<open>n\<close>, no \<open>Wait\<close> has returned before \<open>n\<close> calls of
  \<open>CountDown\<close> are done, and once they are done no call is left blocked.
\<close>
theorem Latch_releases:
  assumes "latch_step\<^sup>*\<^sup>* (int n, pcs) (count, pcs')" "set pcs \<subseteq> {Latch_Wait, Latch_Down}" "int n \<le> INT_MAX" "length pcs < 2 ^ 31"
  shows "if n \<le> calls (\<lambda>p. p = Latch_Done) pcs' then Latch_Blocked \<notin> set pcs' else Latch_Passed \<notin> set pcs'"
proof -
  have "calls (\<lambda>p. p = Latch_Done) pcs = 0" using assms(2) by (auto simp: calls_zero_iff)
  then have "latch_inv (int n) (length pcs) (int n, pcs)" using assms(2) by (auto simp: latch_inv_def)
  with assms(1) have "latch_inv (int n) (length pcs) (count, pcs')"
    by (induction rule: rtranclp_induct) (use latch_step_inv assms(3,4) in auto)
  then show ?thesis by (auto simp: latch_inv_def)
qed

lemma Latch_releases_witness: "Latch_Blocked \<notin> set (snd (CountDown (Latch_test (int 1, [Latch_Wait, Latch_Down]) 0) 1))"
proof -
  let ?l = "(int 1, [Latch_Wait, Latch_Down])"
  have "latch_step ?l (Latch_test ?l 0)" by (rule lt_test) simp_all
  moreover have "latch_step (Latch_test ?l 0) (CountDown (Latch_test ?l 0) 1)" by (rule lt_down) (simp_all add: Latch_test_def)
  ultimately have r: "latch_step\<^sup>*\<^sup>* ?l (CountDown (Latch_test ?l 0) 1)" by (rule converse_rtranclp_into_rtranclp [OF _ r_into_rtranclp])
  have e: "CountDown (Latch_test ?l 0) 1 = (0, [Latch_Wait, Latch_Done])"
    by (simp add: CountDown_def Latch_test_def i32_def notify_all_def latch_wake_def)
  from r have "latch_step\<^sup>*\<^sup>* ?l (0, [Latch_Wait, Latch_Done])" by (simp only: e)
  from Latch_releases [OF this] show ?thesis by (simp only: e) (simp add: calls_def)
qed

subsection \<open>BlockingQueue\<close>

datatype 'a queue_pc = Put_Call 'a | Put_Done | Take_Call | Take_Wait | Take_Done 'a

text \<open>The two histories record what \<open>Put\<close> was given and what \<open>Take\<close> returned.\<close>

record 'a blocking_queue =
  bq_queue :: "'a list"
  bq_calls :: "'a queue_pc list"
  bq_put :: "'a list"
  bq_taken :: "'a list"

definition BlockingQueue_new :: "'a blocking_queue" where
  "BlockingQueue_new = \<lparr>bq_queue = [], bq_calls = [], bq_put = [], bq_taken = []\<rparr>"

fun bq_wake :: "'a queue_pc \<Rightarrow> 'a queue_pc option" where
  "bq_wake Take_Wait = Some Take_Call"
| "bq_wake _ = None"

text \<open>The critical sections: \<open>Put\<close> up to its \<open>Notify\<close>, and one round of the loop of \<open>Take\<close>.\<close>

definition BlockingQueue_Put :: "'a blocking_queue \<Rightarrow> nat \<Rightarrow> 'a \<Rightarrow> 'a blocking_queue" where
  "BlockingQueue_Put q i x =
     q\<lparr>bq_queue := bq_queue q @ [x], bq_put := bq_put q @ [x], bq_calls := (bq_calls q)[i := Put_Done]\<rparr>"

definition BlockingQueue_Take :: "'a blocking_queue \<Rightarrow> nat \<Rightarrow> 'a blocking_queue" where
  "BlockingQueue_Take q i =
     (case bq_queue q of
        [] \<Rightarrow> q\<lparr>bq_calls := (bq_calls q)[i := Take_Wait]\<rparr>
      | x # xs \<Rightarrow> q\<lparr>bq_queue := xs, bq_taken := bq_taken q @ [x], bq_calls := (bq_calls q)[i := Take_Done x]\<rparr>)"

definition BlockingQueue_size :: "'a blocking_queue \<Rightarrow> nat" where "BlockingQueue_size q = length (bq_queue q)"

inductive bq_step :: "'a blocking_queue \<Rightarrow> 'a blocking_queue \<Rightarrow> bool" where
  q_put_call: "bq_step q (q\<lparr>bq_calls := bq_calls q @ [Put_Call x]\<rparr>)"
| q_take_call: "bq_step q (q\<lparr>bq_calls := bq_calls q @ [Take_Call]\<rparr>)"
| q_put: "i < length (bq_calls q) \<Longrightarrow> bq_calls q ! i = Put_Call x \<Longrightarrow>
     notify_one bq_wake (bq_calls (BlockingQueue_Put q i x)) cs \<Longrightarrow>
     bq_step q ((BlockingQueue_Put q i x)\<lparr>bq_calls := cs\<rparr>)"
| q_take: "i < length (bq_calls q) \<Longrightarrow> bq_calls q ! i = Take_Call \<Longrightarrow> bq_step q (BlockingQueue_Take q i)"
| q_spurious: "i < length (bq_calls q) \<Longrightarrow> bq_calls q ! i = Take_Wait \<Longrightarrow>
     bq_step q (q\<lparr>bq_calls := (bq_calls q)[i := Take_Call]\<rparr>)"

definition bq_tally :: "'a blocking_queue \<Rightarrow> tally" where
  "bq_tally q = (length (bq_queue q), calls (\<lambda>p. p = Take_Wait) (bq_calls q), calls (\<lambda>p. p = Take_Call) (bq_calls q))"

definition bq_inv :: "'a blocking_queue \<Rightarrow> bool" where
  "bq_inv q \<longleftrightarrow> bq_taken q @ bq_queue q = bq_put q"

lemma bq_wake_Some: "bq_wake p = Some q \<longleftrightarrow> p = Take_Wait \<and> q = Take_Call"
  by (cases p) auto

lemma bq_step_inv: "bq_inv q \<Longrightarrow> bq_step q q' \<Longrightarrow> bq_inv q'"
  by (cases rule: bq_step.cases)
    (auto simp: bq_inv_def BlockingQueue_Put_def BlockingQueue_Take_def split: list.splits)

lemma bq_step_accounts: "bq_step q q' \<Longrightarrow> accounts (bq_tally q) (bq_tally q')"
proof (induction rule: bq_step.induct)
  case (q_put_call q x)
  then show ?case by (auto simp: bq_tally_def tally_simps intro: acc_idle)
next
  case (q_take_call q)
  then show ?case by (auto simp: bq_tally_def tally_simps intro: acc_idle)
next
  case (q_put i q x cs)
  let ?waits = "\<lambda>p. p = Take_Wait" and ?tests = "\<lambda>p. p = Take_Call"
  have "calls ?waits ((bq_calls q)[i := Put_Done]) = calls ?waits (bq_calls q)"
    "calls ?tests ((bq_calls q)[i := Put_Done]) = calls ?tests (bq_calls q)"
    using calls_update [of i "bq_calls q" ?waits Put_Done] calls_update [of i "bq_calls q" ?tests Put_Done] q_put(1,2) by simp_all
  moreover have "calls ?waits ((bq_calls q)[i := Put_Done]) = 0 \<and> cs = (bq_calls q)[i := Put_Done] \<or>
      calls ?waits ((bq_calls q)[i := Put_Done]) = Suc (calls ?waits cs) \<and> calls ?tests cs = Suc (calls ?tests ((bq_calls q)[i := Put_Done]))"
    by (rule notify_one_tally [of bq_wake]) (use q_put(3) in \<open>auto simp: BlockingQueue_Put_def bq_wake_Some\<close>)
  ultimately show ?case
    by (auto simp: bq_tally_def BlockingQueue_Put_def intro: acc_nobody acc_supply)
next
  case (q_take i q)
  show ?case
  proof (cases "bq_queue q")
    case Nil
    then show ?thesis by (simp add: bq_tally_def BlockingQueue_Take_def acc_nothing)
  next
    case (Cons x xs)
    have "calls (\<lambda>p. p = Take_Wait) ((bq_calls q)[i := Take_Done x]) = calls (\<lambda>p. p = Take_Wait) (bq_calls q)"
      "Suc (calls (\<lambda>p. p = Take_Call) ((bq_calls q)[i := Take_Done x])) = calls (\<lambda>p. p = Take_Call) (bq_calls q)"
      using calls_update [of i "bq_calls q" "\<lambda>p. p = Take_Wait" "Take_Done x"]
        calls_update [of i "bq_calls q" "\<lambda>p. p = Take_Call" "Take_Done x"] q_take by simp_all
    with Cons show ?thesis by (simp add: bq_tally_def BlockingQueue_Take_def acc_consume)
  qed
next
  case (q_spurious i q)
  have "Suc (calls (\<lambda>p. p = Take_Wait) ((bq_calls q)[i := Take_Call])) = calls (\<lambda>p. p = Take_Wait) (bq_calls q)"
    "calls (\<lambda>p. p = Take_Call) ((bq_calls q)[i := Take_Call]) = Suc (calls (\<lambda>p. p = Take_Call) (bq_calls q))"
    using calls_update [of i "bq_calls q" "\<lambda>p. p = Take_Wait" Take_Call]
      calls_update [of i "bq_calls q" "\<lambda>p. p = Take_Call" Take_Call] q_spurious by simp_all
  then show ?case by (simp add: bq_tally_def acc_idle)
qed

interpretation bq: signalled bq_step bq_inv bq_tally
  by unfold_locales (auto intro: bq_step_inv bq_step_accounts)

text \<open>
  C26: under every interleaving of \<open>Put\<close> and \<open>Take\<close>, with spurious wake-ups, the queue hands out every element
  once and in the order it was put, and while a \<open>Take\<close> waits there are at least as many other calls about
  to take as elements: none waits while an element is left for it.
\<close>
theorem BlockingQueue_correct:
  assumes "bq_step\<^sup>*\<^sup>* BlockingQueue_new q"
  shows "bq_taken q @ bq_queue q = bq_put q \<and>
    (Take_Wait \<in> set (bq_calls q) \<longrightarrow> BlockingQueue_size q \<le> calls (\<lambda>p. p = Take_Call) (bq_calls q))"
proof -
  have 0: "bq_inv BlockingQueue_new" "none_lost (bq_tally BlockingQueue_new)"
    by (simp_all add: bq_inv_def BlockingQueue_new_def none_lost_def bq_tally_def calls_def)
  have "none_lost (bq_tally q)" by (rule bq.no_lost_wakeup [OF assms 0])
  moreover have "0 < calls (\<lambda>p. p = Take_Wait) (bq_calls q)" if "Take_Wait \<in> set (bq_calls q)"
    using that calls_zero_iff [of "\<lambda>p. p = Take_Wait" "bq_calls q"] by blast
  ultimately show ?thesis using bq.reach_inv [OF assms 0(1)]
    by (auto simp: bq_inv_def none_lost_def bq_tally_def BlockingQueue_size_def)
qed

lemma BlockingQueue_correct_witness:
  "\<exists>q :: int blocking_queue. bq_calls q = [Take_Call, Put_Done] \<and> bq_queue q = [5] \<and> bq_taken q @ bq_queue q = bq_put q"
proof -
  let ?q1 = "BlockingQueue_new\<lparr>bq_calls := [Take_Call]\<rparr> :: int blocking_queue"
  let ?q2 = "?q1\<lparr>bq_calls := [Take_Wait]\<rparr>" and ?q3 = "?q1\<lparr>bq_calls := [Take_Wait, Put_Call 5]\<rparr>"
  let ?q4 = "?q3\<lparr>bq_queue := [5], bq_put := [5], bq_calls := [Take_Call, Put_Done]\<rparr>"
  have "bq_step BlockingQueue_new ?q1" using q_take_call [of BlockingQueue_new] by (simp add: BlockingQueue_new_def)
  moreover have "bq_step ?q1 ?q2"
    using q_take [of 0 ?q1] by (simp add: BlockingQueue_Take_def BlockingQueue_new_def)
  moreover have "bq_step ?q2 ?q3" using q_put_call [of ?q2 5] by (simp add: BlockingQueue_new_def)
  moreover have "bq_step ?q3 ?q4"
  proof -
    have "notify_one bq_wake [Take_Wait, Put_Done :: int queue_pc] [Take_Call, Put_Done]"
      using notify_some [of 0 "[Take_Wait, Put_Done :: int queue_pc]" bq_wake Take_Call] by simp
    then show ?thesis using q_put [of 1 ?q3 5 "[Take_Call, Put_Done]"]
      by (simp add: BlockingQueue_Put_def BlockingQueue_new_def)
  qed
  ultimately have "bq_step\<^sup>*\<^sup>* BlockingQueue_new ?q4" by (meson rtranclp.rtrancl_into_rtrancl rtranclp.rtrancl_refl)
  from BlockingQueue_correct [OF this] show ?thesis by (intro exI [of _ ?q4]) simp
qed

end
