(* ===== verification/Pools.thy ===== *)
theory Pools
  imports Loops Monitors
begin

text \<open>
  The thread pool, \<^verbatim>\<open>threading/ThreadPool.h,.cc\<close>; what holds behind \<open>Stop\<close> is in \<open>Shutdown\<close>.

  The pool is a transition system over the calls in progress: its workers, the first \<open>tp_workers\<close> elements of
  \<open>tp_pcs\<close>, then the calls of \<open>Run\<close> by other threads, which may arrive at any time. A task is a tag and the
  tasks it posts to the pool itself. The critical sections of \<open>Run\<close>, \<open>Take\<close> and \<open>Stop\<close> are single steps; the
  unlocked reads of \<open>running_\<close> in \<open>RunInThread\<close> and its store in \<open>Stop\<close> are steps of their own. \<open>tp_accepted\<close>
  and \<open>tp_started\<close> are histories. A task that throws ends the process and is left out.
\<close>

subsection \<open>The pool\<close>

datatype pool_task = Pool_Task nat "pool_task list"

fun posts :: "pool_task \<Rightarrow> pool_task list" where "posts (Pool_Task _ ts) = ts"

type_synonym pool_entry = "trace_context \<times> pool_task"

text \<open>
  \<open>P_Body ctx ts\<close> runs code under the trace context \<open>ctx\<close> that still has to \<open>Run\<close> the tasks \<open>ts\<close>; \<open>P_Run ctx t ts\<close> is
  inside \<open>Run\<close> with \<open>t\<close>, about to test \<open>IsFull\<close>, and \<open>P_Wait ctx t ts\<close> waits on \<open>not_full_\<close>.
\<close>

datatype pool_pc =
    W_Test
  | W_Take
  | W_Wait
  | W_Exited
  | P_Body trace_context "pool_task list"
  | P_Run trace_context pool_task "pool_task list"
  | P_Wait trace_context pool_task "pool_task list"
  | P_Done

datatype stop_pc = Not_Stopped | Stop_Flagged | Stop_Notified

record pool =
  tp_name :: string
  tp_workers :: nat
  tp_pcs :: "pool_pc list"
  tp_queue :: "pool_entry list"
  tp_max :: nat
  tp_running :: bool
  tp_stop :: stop_pc
  tp_accepted :: "pool_entry list"
  tp_started :: "pool_entry list"

definition ThreadPool_new :: "string \<Rightarrow> pool" where
  "ThreadPool_new name =
     \<lparr>tp_name = name, tp_workers = 0, tp_pcs = [], tp_queue = [], tp_max = 0, tp_running = False,
      tp_stop = Not_Stopped, tp_accepted = [], tp_started = []\<rparr>"

definition set_max_queue_size :: "pool \<Rightarrow> nat \<Rightarrow> pool" where
  "set_max_queue_size p n = p\<lparr>tp_max := n\<rparr>"

definition ThreadPool_Start :: "pool \<Rightarrow> nat \<Rightarrow> pool" where
  "ThreadPool_Start p n =
     (if tp_running p then p
      else p\<lparr>tp_running := True, tp_workers := n, tp_pcs := replicate n W_Test @ tp_pcs p\<rparr>)"

definition IsFull :: "pool \<Rightarrow> bool" where
  "IsFull p \<longleftrightarrow> 0 < tp_max p \<and> tp_max p \<le> length (tp_queue p)"

fun not_empty_wake :: "pool_pc \<Rightarrow> pool_pc option" where
  "not_empty_wake W_Wait = Some W_Take"
| "not_empty_wake _ = None"

fun not_full_wake :: "pool_pc \<Rightarrow> pool_pc option" where
  "not_full_wake (P_Wait ctx t ts) = Some (P_Run ctx t ts)"
| "not_full_wake _ = None"

definition goto :: "pool \<Rightarrow> nat \<Rightarrow> pool_pc \<Rightarrow> pool" where
  "goto p i pc = p\<lparr>tp_pcs := (tp_pcs p)[i := pc]\<rparr>"

text \<open>\<open>Run\<close>: without threads the task runs in the caller; else one round of its loop, up to the \<open>Notify\<close>.\<close>

definition ThreadPool_Run :: "pool \<Rightarrow> nat \<Rightarrow> trace_context \<Rightarrow> pool_task \<Rightarrow> pool_task list \<Rightarrow> pool \<times> bool" where
  "ThreadPool_Run p i ctx t ts =
     (if tp_workers p = 0
      then ((goto p i (P_Body ctx (posts t @ ts)))\<lparr>tp_accepted := tp_accepted p @ [(ctx, t)], tp_started := tp_started p @ [(ctx, t)]\<rparr>, False)
      else if IsFull p then (goto p i (P_Wait ctx t ts), False)
      else ((goto p i (P_Body ctx ts))\<lparr>tp_queue := tp_queue p @ [(ctx, t)], tp_accepted := tp_accepted p @ [(ctx, t)]\<rparr>, True))"

text \<open>One round of the loop of \<open>Take\<close> and what \<open>RunInThread\<close> does with the entry; the flag asks for \<open>not_full_.Notify\<close>.\<close>

definition ThreadPool_Take :: "pool \<Rightarrow> nat \<Rightarrow> pool \<times> bool" where
  "ThreadPool_Take p i =
     (case tp_queue p of
        [] \<Rightarrow> (goto p i (if tp_running p then W_Wait else W_Test), False)
      | e # q \<Rightarrow> ((goto p i (P_Body (fst e) (posts (snd e))))\<lparr>tp_queue := q, tp_started := tp_started p @ [e]\<rparr>, 0 < tp_max p))"

definition body_end :: "pool \<Rightarrow> nat \<Rightarrow> pool_pc" where
  "body_end p i = (if i < tp_workers p then W_Test else P_Done)"

definition Stop_flag :: "pool \<Rightarrow> pool" where
  "Stop_flag p = (if tp_running p then p\<lparr>tp_running := False, tp_stop := Stop_Flagged\<rparr> else p)"

definition Stop_notify :: "pool \<Rightarrow> pool" where
  "Stop_notify p = p\<lparr>tp_pcs := notify_all not_empty_wake (tp_pcs p), tp_stop := Stop_Notified\<rparr>"

inductive notified_if :: "('pc \<Rightarrow> 'pc option) \<Rightarrow> bool \<Rightarrow> 'pc list \<Rightarrow> 'pc list \<Rightarrow> bool" for wake where
  notified_no: "notified_if wake False pcs pcs"
| notified_yes: "notify_one wake pcs pcs' \<Longrightarrow> notified_if wake True pcs pcs'"

text \<open>The label is the call that moves; \<open>None\<close> is for arrivals, spurious wake-ups and \<open>Stop\<close>.\<close>

inductive pool_step :: "nat option \<Rightarrow> pool \<Rightarrow> pool \<Rightarrow> bool" where
  p_call: "pool_step None p (p\<lparr>tp_pcs := tp_pcs p @ [P_Run ctx t []]\<rparr>)"
| p_run: "i < length (tp_pcs p) \<Longrightarrow> tp_pcs p ! i = P_Run ctx t ts \<Longrightarrow> ThreadPool_Run p i ctx t ts = (p', b) \<Longrightarrow>
     notified_if not_empty_wake b (tp_pcs p') pcs \<Longrightarrow> pool_step (Some i) p (p'\<lparr>tp_pcs := pcs\<rparr>)"
| p_next: "i < length (tp_pcs p) \<Longrightarrow> tp_pcs p ! i = P_Body ctx (t # ts) \<Longrightarrow> pool_step (Some i) p (goto p i (P_Run ctx t ts))"
| p_end: "i < length (tp_pcs p) \<Longrightarrow> tp_pcs p ! i = P_Body ctx [] \<Longrightarrow> pool_step (Some i) p (goto p i (body_end p i))"
| w_test: "i < length (tp_pcs p) \<Longrightarrow> tp_pcs p ! i = W_Test \<Longrightarrow>
     pool_step (Some i) p (goto p i (if tp_running p then W_Take else W_Exited))"
| w_take: "i < length (tp_pcs p) \<Longrightarrow> tp_pcs p ! i = W_Take \<Longrightarrow> ThreadPool_Take p i = (p', b) \<Longrightarrow>
     notified_if not_full_wake b (tp_pcs p') pcs \<Longrightarrow> pool_step (Some i) p (p'\<lparr>tp_pcs := pcs\<rparr>)"
| p_spurious: "i < length (tp_pcs p) \<Longrightarrow> not_empty_wake (tp_pcs p ! i) = Some pc \<or> not_full_wake (tp_pcs p ! i) = Some pc \<Longrightarrow>
     pool_step None p (goto p i pc)"
| s_flag: "tp_stop p = Not_Stopped \<Longrightarrow> pool_step None p (Stop_flag p)"
| s_notify: "tp_stop p = Stop_Flagged \<Longrightarrow> pool_step None p (Stop_notify p)"

definition any_step :: "pool \<Rightarrow> pool \<Rightarrow> bool" where
  "any_step p p' \<longleftrightarrow> (\<exists>who. pool_step who p p')"

subsection \<open>The invariant\<close>

fun is_P_Wait :: "pool_pc \<Rightarrow> bool" where
  "is_P_Wait (P_Wait _ _ _) = True"
| "is_P_Wait _ = False"

fun is_P_Run :: "pool_pc \<Rightarrow> bool" where
  "is_P_Run (P_Run _ _ _) = True"
| "is_P_Run _ = False"

lemma any_stepI: "pool_step who p p' \<Longrightarrow> any_step p p'"
  by (auto simp: any_step_def)

definition pc_ok :: "pool \<Rightarrow> nat \<Rightarrow> pool_pc \<Rightarrow> bool" where
  "pc_ok p i pc \<longleftrightarrow>
     (pc \<in> {W_Test, W_Take, W_Wait, W_Exited} \<longrightarrow> i < tp_workers p) \<and> (pc = P_Done \<longrightarrow> tp_workers p \<le> i) \<and>
     (pc = W_Wait \<longrightarrow> tp_stop p \<noteq> Stop_Notified) \<and> (pc = W_Exited \<longrightarrow> \<not> tp_running p) \<and>
     (is_P_Wait pc \<longrightarrow> 0 < tp_workers p \<and> 0 < tp_max p)"

definition pool_inv :: "pool \<Rightarrow> bool" where
  "pool_inv p \<longleftrightarrow>
     (\<forall>i < length (tp_pcs p). pc_ok p i (tp_pcs p ! i)) \<and> tp_workers p \<le> length (tp_pcs p) \<and>
     tp_accepted p = tp_started p @ tp_queue p \<and> (tp_workers p = 0 \<longrightarrow> tp_queue p = []) \<and>
     (0 < tp_max p \<longrightarrow> length (tp_queue p) \<le> tp_max p) \<and> (tp_running p \<longleftrightarrow> tp_stop p = Not_Stopped)"

lemma not_empty_wake_Some: "not_empty_wake pc = Some q \<longleftrightarrow> pc = W_Wait \<and> q = W_Take"
  by (cases pc) auto

lemma not_full_wake_Some: "not_full_wake pc = Some q \<longleftrightarrow> (\<exists>ctx t ts. pc = P_Wait ctx t ts \<and> q = P_Run ctx t ts)"
  by (cases pc) auto

lemma pc_ok_wake:
  "pc_ok p i pc \<Longrightarrow> not_empty_wake pc = Some q \<or> not_full_wake pc = Some q \<Longrightarrow> pc_ok p i q"
  by (auto simp: pc_ok_def not_empty_wake_Some not_full_wake_Some)

lemma pc_ok_cong:
  "tp_workers p' = tp_workers p \<Longrightarrow> tp_stop p' = tp_stop p \<Longrightarrow> tp_max p' = tp_max p \<Longrightarrow> tp_running p' = tp_running p \<Longrightarrow>
     pc_ok p' i pc = pc_ok p i pc"
  by (simp add: pc_ok_def)

lemma notified_if_length: "notified_if wake b pcs pcs' \<Longrightarrow> length pcs' = length pcs"
  by (induction rule: notified_if.induct) (auto dest: notify_one_length)

lemma notified_if_nth: "notified_if wake b pcs pcs' \<Longrightarrow> pcs' ! i = pcs ! i \<or> wake (pcs ! i) = Some (pcs' ! i)"
  by (induction rule: notified_if.induct) (auto dest: notify_one_nth)

definition pcs_ok :: "pool \<Rightarrow> pool_pc list \<Rightarrow> bool" where
  "pcs_ok p pcs \<longleftrightarrow> (\<forall>i < length pcs. pc_ok p i (pcs ! i))"

lemma pcs_ok_update: "pcs_ok p pcs \<Longrightarrow> pc_ok p i pc \<Longrightarrow> pcs_ok p (pcs[i := pc])"
  by (cases "i < length pcs") (auto simp: pcs_ok_def nth_list_update)

lemma pcs_ok_notified:
  assumes "pcs_ok p pcs" "notified_if wake b pcs pcs'" "wake = not_empty_wake \<or> wake = not_full_wake"
  shows "pcs_ok p pcs'"
  unfolding pcs_ok_def
proof (intro allI impI)
  fix i assume i: "i < length pcs'"
  then have "pc_ok p i (pcs ! i)" using assms(1) notified_if_length [OF assms(2)] by (simp add: pcs_ok_def)
  then show "pc_ok p i (pcs' ! i)" using notified_if_nth [OF assms(2), of i] assms(3) pc_ok_wake by metis
qed

lemma pool_inv_pcs:
  "pool_inv p \<longleftrightarrow> pcs_ok p (tp_pcs p) \<and> tp_workers p \<le> length (tp_pcs p) \<and>
     tp_accepted p = tp_started p @ tp_queue p \<and> (tp_workers p = 0 \<longrightarrow> tp_queue p = []) \<and>
     (0 < tp_max p \<longrightarrow> length (tp_queue p) \<le> tp_max p) \<and> (tp_running p \<longleftrightarrow> tp_stop p = Not_Stopped)"
  by (simp add: pool_inv_def pcs_ok_def)

lemma pcs_ok_cong:
  "tp_workers p' = tp_workers p \<Longrightarrow> tp_stop p' = tp_stop p \<Longrightarrow> tp_max p' = tp_max p \<Longrightarrow> tp_running p' = tp_running p \<Longrightarrow>
     pcs_ok p' pcs = pcs_ok p pcs"
  by (simp add: pcs_ok_def pc_ok_def)

lemma goto_fields [simp]:
  "tp_workers (goto p i pc) = tp_workers p" "tp_stop (goto p i pc) = tp_stop p" "tp_max (goto p i pc) = tp_max p"
  "tp_running (goto p i pc) = tp_running p" "tp_queue (goto p i pc) = tp_queue p" "tp_accepted (goto p i pc) = tp_accepted p"
  "tp_started (goto p i pc) = tp_started p" "tp_pcs (goto p i pc) = (tp_pcs p)[i := pc]"
  by (simp_all add: goto_def)

lemma pool_inv_goto: "pool_inv p \<Longrightarrow> pc_ok p i pc \<Longrightarrow> pool_inv (goto p i pc)"
  using pcs_ok_update [of p "tp_pcs p" i pc] pcs_ok_cong [of "goto p i pc" p] by (simp add: pool_inv_pcs)

lemma pool_inv_notified:
  assumes "pool_inv p" "notified_if wake b (tp_pcs p) pcs" "wake = not_empty_wake \<or> wake = not_full_wake"
  shows "pool_inv (p\<lparr>tp_pcs := pcs\<rparr>)"
  using assms pcs_ok_notified [OF _ assms(2,3), of p] notified_if_length [OF assms(2)] pcs_ok_cong [of "p\<lparr>tp_pcs := pcs\<rparr>" p pcs]
  by (simp add: pool_inv_pcs)

lemma pc_okD: "pool_inv p \<Longrightarrow> i < length (tp_pcs p) \<Longrightarrow> pc_ok p i (tp_pcs p ! i)"
  by (simp add: pool_inv_def)

lemma ThreadPool_Run_inv:
  assumes inv: "pool_inv p" and i: "i < length (tp_pcs p)" "tp_pcs p ! i = P_Run ctx t ts" and r: "ThreadPool_Run p i ctx t ts = (p', b)"
  shows "pool_inv p'"
proof -
  have ok: "pc_ok p i (P_Body c us)" for c us by (simp add: pc_ok_def)
  consider (inline) "tp_workers p = 0" | (full) "tp_workers p \<noteq> 0" "IsFull p" | (push) "tp_workers p \<noteq> 0" "\<not> IsFull p" by blast
  then show ?thesis
  proof cases
    case inline
    have "p' = (goto p i (P_Body ctx (posts t @ ts)))\<lparr>tp_accepted := tp_accepted p @ [(ctx, t)], tp_started := tp_started p @ [(ctx, t)]\<rparr>"
      using r inline by (simp add: ThreadPool_Run_def)
    moreover have "pool_inv (goto p i (P_Body ctx (posts t @ ts)))" using inv ok by (rule pool_inv_goto)
    ultimately show ?thesis using inline pcs_ok_cong [of p' "goto p i (P_Body ctx (posts t @ ts))"] by (simp add: pool_inv_pcs)
  next
    case full
    then have "pc_ok p i (P_Wait ctx t ts)" by (simp add: pc_ok_def IsFull_def)
    moreover have "p' = goto p i (P_Wait ctx t ts)" using full r by (simp add: ThreadPool_Run_def)
    ultimately show ?thesis using pool_inv_goto [OF inv] by simp
  next
    case push
    then have "p' = (goto p i (P_Body ctx ts))\<lparr>tp_queue := tp_queue p @ [(ctx, t)], tp_accepted := tp_accepted p @ [(ctx, t)]\<rparr>"
      using r by (simp add: ThreadPool_Run_def)
    moreover have "pool_inv (goto p i (P_Body ctx ts))" using inv ok by (rule pool_inv_goto)
    ultimately show ?thesis using push pcs_ok_cong [of p' "goto p i (P_Body ctx ts)"] by (auto simp: pool_inv_pcs IsFull_def)
  qed
qed

lemma ThreadPool_Take_inv:
  assumes inv: "pool_inv p" and i: "i < length (tp_pcs p)" "tp_pcs p ! i = W_Take" and r: "ThreadPool_Take p i = (p', b)"
  shows "pool_inv p'"
proof (cases "tp_queue p")
  case Nil
  have "pc_ok p i (if tp_running p then W_Wait else W_Test)"
    using pc_okD [OF inv i(1)] inv i(2) by (auto simp: pc_ok_def pool_inv_def)
  moreover have "p' = goto p i (if tp_running p then W_Wait else W_Test)" using r Nil by (simp add: ThreadPool_Take_def)
  ultimately show ?thesis using pool_inv_goto [OF inv] by simp
next
  case (Cons e q)
  then have "p' = (goto p i (P_Body (fst e) (posts (snd e))))\<lparr>tp_queue := q, tp_started := tp_started p @ [e]\<rparr>"
    using r by (simp add: ThreadPool_Take_def)
  moreover have "pool_inv (goto p i (P_Body (fst e) (posts (snd e))))" using inv by (rule pool_inv_goto) (simp add: pc_ok_def)
  ultimately show ?thesis using Cons pcs_ok_cong [of p' "goto p i (P_Body (fst e) (posts (snd e)))"] by (auto simp: pool_inv_pcs)
qed

lemma pool_step_inv: "pool_step who p p' \<Longrightarrow> pool_inv p \<Longrightarrow> pool_inv p'"
proof (induction rule: pool_step.induct)
  case (p_call p ctx t)
  have "pcs_ok p (tp_pcs p @ [P_Run ctx t []])"
    using p_call by (auto simp: pool_inv_pcs pcs_ok_def nth_append pc_ok_def)
  with p_call show ?case using pcs_ok_cong [of "p\<lparr>tp_pcs := tp_pcs p @ [P_Run ctx t []]\<rparr>" p] by (simp add: pool_inv_pcs)
next
  case (p_run i p ctx t ts p' b pcs)
  then show ?case using pool_inv_notified [OF ThreadPool_Run_inv] by blast
next
  case (p_next i p ctx t ts)
  then show ?case by (intro pool_inv_goto) (simp_all add: pc_ok_def)
next
  case (p_end i p ctx)
  then show ?case by (intro pool_inv_goto) (auto simp: pc_ok_def body_end_def)
next
  case (w_test i p)
  then have "i < tp_workers p" using pc_okD by (simp add: pc_ok_def)
  with w_test show ?case by (intro pool_inv_goto) (auto simp: pc_ok_def)
next
  case (w_take i p p' b pcs)
  then show ?case using pool_inv_notified [OF ThreadPool_Take_inv] by blast
next
  case (p_spurious i p pc)
  then show ?case using pc_ok_wake pc_okD pool_inv_goto by blast
next
  case (s_flag p)
  have "pcs_ok (Stop_flag p) (tp_pcs p)" using s_flag by (auto simp: pool_inv_pcs pcs_ok_def pc_ok_def Stop_flag_def)
  with s_flag show ?case by (simp add: pool_inv_pcs Stop_flag_def)
next
  case (s_notify p)
  have "pcs_ok (Stop_notify p) (notify_all not_empty_wake (tp_pcs p))"
    unfolding pcs_ok_def
  proof (intro allI impI)
    fix i assume i: "i < length (notify_all not_empty_wake (tp_pcs p))"
    then have "pc_ok p i (tp_pcs p ! i)" using s_notify(2) by (simp add: notify_all_def pool_inv_def)
    moreover have "notify_all not_empty_wake (tp_pcs p) ! i = (if tp_pcs p ! i = W_Wait then W_Take else tp_pcs p ! i)"
      using i by (auto simp: notify_all_def not_empty_wake_Some split: option.splits)
    ultimately show "pc_ok (Stop_notify p) i (notify_all not_empty_wake (tp_pcs p) ! i)"
      by (auto simp: pc_ok_def Stop_notify_def)
  qed
  with s_notify show ?case by (simp add: pool_inv_pcs Stop_notify_def notify_all_def)
qed

lemma pool_inv_step: "pool_inv p \<Longrightarrow> any_step p p' \<Longrightarrow> pool_inv p'"
  by (auto simp: any_step_def intro: pool_step_inv)

lemma ThreadPool_Start_inv: "pool_inv (ThreadPool_Start (set_max_queue_size (ThreadPool_new name) m) n)"
  by (simp add: pool_inv_def ThreadPool_Start_def set_max_queue_size_def ThreadPool_new_def pc_ok_def)

subsection \<open>No wake-up is lost\<close>

abbreviation is_W_Wait :: "pool_pc \<Rightarrow> bool" where "is_W_Wait pc \<equiv> pc = W_Wait"
abbreviation is_W_Take :: "pool_pc \<Rightarrow> bool" where "is_W_Take pc \<equiv> pc = W_Take"

definition not_empty_tally :: "pool \<Rightarrow> tally" where
  "not_empty_tally p = (length (tp_queue p), calls is_W_Wait (tp_pcs p), calls is_W_Take (tp_pcs p))"

definition not_full_tally :: "pool \<Rightarrow> tally" where
  "not_full_tally p = (tp_max p - length (tp_queue p), calls is_P_Wait (tp_pcs p), calls is_P_Run (tp_pcs p))"

lemma calls_goto:
  "i < length pcs \<Longrightarrow> P (pcs ! i) = P pc \<Longrightarrow> calls P (pcs[i := pc]) = calls P pcs"
  "i < length pcs \<Longrightarrow> \<not> P (pcs ! i) \<Longrightarrow> P pc \<Longrightarrow> calls P (pcs[i := pc]) = Suc (calls P pcs)"
  "i < length pcs \<Longrightarrow> P (pcs ! i) \<Longrightarrow> \<not> P pc \<Longrightarrow> Suc (calls P (pcs[i := pc])) = calls P pcs"
  using calls_update [of i pcs P pc] by auto

lemma notified_if_calls:
  "notified_if wake b pcs pcs' \<Longrightarrow> (\<And>p q. wake p = Some q \<Longrightarrow> P p = P q) \<Longrightarrow> calls P pcs' = calls P pcs"
  by (induction rule: notified_if.induct) (auto intro: notify_one_calls)

lemma notified_not_empty:
  assumes "notified_if not_empty_wake b pcs pcs'"
  shows "calls is_P_Wait pcs' = calls is_P_Wait pcs" "calls is_P_Run pcs' = calls is_P_Run pcs"
    "\<not> b \<or> calls is_W_Wait pcs = 0 \<Longrightarrow> pcs' = pcs"
    "b \<Longrightarrow> calls is_W_Wait pcs = 0 \<or> calls is_W_Wait pcs = Suc (calls is_W_Wait pcs') \<and> calls is_W_Take pcs' = Suc (calls is_W_Take pcs)"
proof -
  show "calls is_P_Wait pcs' = calls is_P_Wait pcs" "calls is_P_Run pcs' = calls is_P_Run pcs"
    by (rule notified_if_calls [OF assms]; auto simp: not_empty_wake_Some)+
  have y: "calls is_W_Wait pcs = 0 \<and> pcs' = pcs \<or>
      calls is_W_Wait pcs = Suc (calls is_W_Wait pcs') \<and> calls is_W_Take pcs' = Suc (calls is_W_Take pcs)"
    if "notify_one not_empty_wake pcs pcs'"
    by (rule notify_one_tally [OF that]) (auto simp: not_empty_wake_Some)
  from assms show "pcs' = pcs" if "\<not> b \<or> calls is_W_Wait pcs = 0"
    by (cases rule: notified_if.cases) (use y that in auto)
  from assms show "calls is_W_Wait pcs = 0 \<or> calls is_W_Wait pcs = Suc (calls is_W_Wait pcs') \<and> calls is_W_Take pcs' = Suc (calls is_W_Take pcs)"
    if b by (cases rule: notified_if.cases) (use y that in auto)
qed

lemma notified_not_full:
  assumes "notified_if not_full_wake b pcs pcs'"
  shows "calls is_W_Wait pcs' = calls is_W_Wait pcs" "calls is_W_Take pcs' = calls is_W_Take pcs"
    "\<not> b \<or> calls is_P_Wait pcs = 0 \<Longrightarrow> pcs' = pcs"
    "b \<Longrightarrow> calls is_P_Wait pcs = 0 \<or> calls is_P_Wait pcs = Suc (calls is_P_Wait pcs') \<and> calls is_P_Run pcs' = Suc (calls is_P_Run pcs)"
proof -
  show "calls is_W_Wait pcs' = calls is_W_Wait pcs" "calls is_W_Take pcs' = calls is_W_Take pcs"
    by (rule notified_if_calls [OF assms]; auto simp: not_full_wake_Some)+
  have y: "calls is_P_Wait pcs = 0 \<and> pcs' = pcs \<or>
      calls is_P_Wait pcs = Suc (calls is_P_Wait pcs') \<and> calls is_P_Run pcs' = Suc (calls is_P_Run pcs)"
    if "notify_one not_full_wake pcs pcs'"
  proof (rule notify_one_tally [OF that])
    show "is_P_Wait p \<longleftrightarrow> not_full_wake p \<noteq> None" for p by (cases p) auto
  qed (auto simp: not_full_wake_Some)
  from assms show "pcs' = pcs" if "\<not> b \<or> calls is_P_Wait pcs = 0"
    by (cases rule: notified_if.cases) (use y that in auto)
  from assms show "calls is_P_Wait pcs = 0 \<or> calls is_P_Wait pcs = Suc (calls is_P_Wait pcs') \<and> calls is_P_Run pcs' = Suc (calls is_P_Run pcs)"
    if b by (cases rule: notified_if.cases) (use y that in auto)
qed

text \<open>Steps that leave the queue alone only move one call.\<close>

lemma tally_goto:
  assumes "i < length (tp_pcs p)"
  shows "(is_W_Wait pc \<longrightarrow> is_W_Wait (tp_pcs p ! i)) \<and> (is_W_Take (tp_pcs p ! i) \<longrightarrow> is_W_Take pc \<or> tp_queue p = []) \<Longrightarrow>
      accounts (not_empty_tally p) (not_empty_tally (goto p i pc))"
    "(is_P_Wait pc \<longrightarrow> is_P_Wait (tp_pcs p ! i)) \<and> (is_P_Run (tp_pcs p ! i) \<longrightarrow> is_P_Run pc) \<Longrightarrow>
      accounts (not_full_tally p) (not_full_tally (goto p i pc))"
proof -
  assume a: "(is_W_Wait pc \<longrightarrow> is_W_Wait (tp_pcs p ! i)) \<and> (is_W_Take (tp_pcs p ! i) \<longrightarrow> is_W_Take pc \<or> tp_queue p = [])"
  show "accounts (not_empty_tally p) (not_empty_tally (goto p i pc))"
  proof (cases "tp_queue p")
    case Nil
    then show ?thesis by (simp add: not_empty_tally_def acc_nothing)
  next
    case Cons
    then show ?thesis
      using calls_update [OF assms, of is_W_Wait pc] calls_update [OF assms, of is_W_Take pc] a
      by (auto simp: not_empty_tally_def split: if_splits intro!: acc_idle)
  qed
next
  assume "(is_P_Wait pc \<longrightarrow> is_P_Wait (tp_pcs p ! i)) \<and> (is_P_Run (tp_pcs p ! i) \<longrightarrow> is_P_Run pc)"
  then show "accounts (not_full_tally p) (not_full_tally (goto p i pc))"
    using calls_update [OF assms, of is_P_Wait pc] calls_update [OF assms, of is_P_Run pc]
    by (auto simp: not_full_tally_def split: if_splits intro!: acc_idle)
qed

lemma calls_zero_nth: "(\<And>i. i < length pcs \<Longrightarrow> \<not> P (pcs ! i)) \<Longrightarrow> calls P pcs = 0"
  by (auto simp: calls_zero_iff in_set_conv_nth)

lemma no_threads_no_wait: "pool_inv p \<Longrightarrow> tp_workers p = 0 \<Longrightarrow> calls is_P_Wait (tp_pcs p) = 0"
  by (rule calls_zero_nth) (auto simp: pool_inv_def pc_ok_def)

lemma tally_tp_pcs:
  "tp_queue p' = tp_queue p \<Longrightarrow> tp_pcs p' = tp_pcs p \<Longrightarrow> not_empty_tally p' = not_empty_tally p"
  "tp_max p' = tp_max p \<Longrightarrow> tp_queue p' = tp_queue p \<Longrightarrow> tp_pcs p' = tp_pcs p \<Longrightarrow> not_full_tally p' = not_full_tally p"
  by (simp_all add: not_empty_tally_def not_full_tally_def)

lemma Run_accounts:
  assumes inv: "pool_inv p" and i: "i < length (tp_pcs p)" "tp_pcs p ! i = P_Run ctx t ts"
    and r: "ThreadPool_Run p i ctx t ts = (p', b)" and n: "notified_if not_empty_wake b (tp_pcs p') pcs"
  shows "accounts (not_empty_tally p) (not_empty_tally (p'\<lparr>tp_pcs := pcs\<rparr>))"
    "accounts (not_full_tally p) (not_full_tally (p'\<lparr>tp_pcs := pcs\<rparr>))"
proof -
  note nn = notified_not_empty [OF n]
  consider (inline) "tp_workers p = 0" | (full) "tp_workers p \<noteq> 0" "IsFull p" | (push) "tp_workers p \<noteq> 0" "\<not> IsFull p" by blast
  then have "accounts (not_empty_tally p) (not_empty_tally (p'\<lparr>tp_pcs := pcs\<rparr>)) \<and>
    accounts (not_full_tally p) (not_full_tally (p'\<lparr>tp_pcs := pcs\<rparr>))"
  proof cases
    case inline
    have inv': "pool_inv p'" by (rule ThreadPool_Run_inv [OF inv i r])
    have "tp_workers p' = 0" "\<not> b" "tp_queue p' = tp_queue p" "tp_pcs p' = (tp_pcs p)[i := P_Body ctx (posts t @ ts)]"
      using r inline by (auto simp: ThreadPool_Run_def)
    then have "tp_queue p' = []" "pcs = tp_pcs p'" "calls is_P_Wait (tp_pcs p') = 0"
      using inline inv nn(3) no_threads_no_wait [OF inv'] by (simp_all add: pool_inv_def)
    then show ?thesis by (simp add: not_empty_tally_def not_full_tally_def acc_nothing acc_nobody)
  next
    case full
    then have p': "p' = goto p i (P_Wait ctx t ts)" "\<not> b" using r by (auto simp: ThreadPool_Run_def)
    then have pcs: "p'\<lparr>tp_pcs := pcs\<rparr> = goto p i (P_Wait ctx t ts)" using nn(3) by simp
    have "tp_max p - length (tp_queue p) = 0" using full by (simp add: IsFull_def)
    then show ?thesis unfolding pcs using tally_goto(1) [OF i(1), of "P_Wait ctx t ts"] i(2)
      by (simp add: not_full_tally_def acc_nothing)
  next
    case push
    then have p': "tp_pcs p' = (tp_pcs p)[i := P_Body ctx ts]" "tp_queue p' = tp_queue p @ [(ctx, t)]" "tp_max p' = tp_max p" b
      using r by (auto simp: ThreadPool_Run_def)
    have w: "calls is_W_Wait (tp_pcs p') = calls is_W_Wait (tp_pcs p)" "calls is_W_Take (tp_pcs p') = calls is_W_Take (tp_pcs p)"
      "calls is_P_Wait (tp_pcs p') = calls is_P_Wait (tp_pcs p)" "Suc (calls is_P_Run (tp_pcs p')) = calls is_P_Run (tp_pcs p)"
      unfolding p'(1) using i by (simp_all add: calls_goto)
    have "accounts (not_empty_tally p) (not_empty_tally (p'\<lparr>tp_pcs := pcs\<rparr>))"
    proof (cases "calls is_W_Wait (tp_pcs p') = 0")
      case True
      then have "pcs = tp_pcs p'" by (simp add: nn(3))
      then show ?thesis using True by (simp add: not_empty_tally_def acc_nobody)
    next
      case False
      then show ?thesis using nn(4) [OF p'(4)] w(1,2) p'(2) by (auto simp: not_empty_tally_def intro: acc_supply)
    qed
    moreover have "accounts (not_full_tally p) (not_full_tally (p'\<lparr>tp_pcs := pcs\<rparr>))"
    proof (cases "tp_max p = 0")
      case True
      then show ?thesis using p' by (simp add: not_full_tally_def acc_nothing)
    next
      case False
      then have "length (tp_queue p) < tp_max p" using push by (simp add: IsFull_def)
      then show ?thesis using p' nn(1,2) w(3,4) by (simp add: not_full_tally_def acc_consume)
    qed
    ultimately show ?thesis by blast
  qed
  then show "accounts (not_empty_tally p) (not_empty_tally (p'\<lparr>tp_pcs := pcs\<rparr>))"
    "accounts (not_full_tally p) (not_full_tally (p'\<lparr>tp_pcs := pcs\<rparr>))" by blast+
qed

lemma Take_accounts:
  assumes inv: "pool_inv p" and i: "i < length (tp_pcs p)" "tp_pcs p ! i = W_Take"
    and r: "ThreadPool_Take p i = (p', b)" and n: "notified_if not_full_wake b (tp_pcs p') pcs"
  shows "accounts (not_empty_tally p) (not_empty_tally (p'\<lparr>tp_pcs := pcs\<rparr>))"
    "accounts (not_full_tally p) (not_full_tally (p'\<lparr>tp_pcs := pcs\<rparr>))"
proof -
  note nn = notified_not_full [OF n]
  have "accounts (not_empty_tally p) (not_empty_tally (p'\<lparr>tp_pcs := pcs\<rparr>)) \<and>
    accounts (not_full_tally p) (not_full_tally (p'\<lparr>tp_pcs := pcs\<rparr>))"
  proof (cases "tp_queue p")
    case Nil
    let ?pc = "if tp_running p then W_Wait else W_Test"
    have p': "p' = goto p i ?pc" "\<not> b" using r Nil by (auto simp: ThreadPool_Take_def)
    then have "p'\<lparr>tp_pcs := pcs\<rparr> = goto p i ?pc" using nn(3) by simp
    then show ?thesis using tally_goto(2) [OF i(1), of ?pc] i(2) Nil
      by (simp add: not_empty_tally_def acc_nothing split: if_splits)
  next
    case (Cons e q)
    then have p': "tp_pcs p' = (tp_pcs p)[i := P_Body (fst e) (posts (snd e))]" "tp_queue p' = q" "tp_max p' = tp_max p" "b = (0 < tp_max p)"
      using r by (auto simp: ThreadPool_Take_def)
    have w: "calls is_W_Wait (tp_pcs p') = calls is_W_Wait (tp_pcs p)" "Suc (calls is_W_Take (tp_pcs p')) = calls is_W_Take (tp_pcs p)"
      "calls is_P_Wait (tp_pcs p') = calls is_P_Wait (tp_pcs p)" "calls is_P_Run (tp_pcs p') = calls is_P_Run (tp_pcs p)"
      unfolding p'(1) using i by (simp_all add: calls_goto)
    have "accounts (not_empty_tally p) (not_empty_tally (p'\<lparr>tp_pcs := pcs\<rparr>))"
      using Cons p' nn(1,2) w(1,2) by (simp add: not_empty_tally_def acc_consume)
    moreover have "accounts (not_full_tally p) (not_full_tally (p'\<lparr>tp_pcs := pcs\<rparr>))"
    proof (cases "tp_max p = 0 \<or> calls is_P_Wait (tp_pcs p') = 0")
      case True
      then have "pcs = tp_pcs p'" using nn(3) p'(4) by auto
      with True show ?thesis using p'(3) by (auto simp: not_full_tally_def acc_nobody acc_nothing)
    next
      case False
      then show ?thesis using nn(4) w(3,4) p' Cons by (auto simp: not_full_tally_def intro!: acc_supply)
    qed
    ultimately show ?thesis by blast
  qed
  then show "accounts (not_empty_tally p) (not_empty_tally (p'\<lparr>tp_pcs := pcs\<rparr>))"
    "accounts (not_full_tally p) (not_full_tally (p'\<lparr>tp_pcs := pcs\<rparr>))" by blast+
qed

lemma pool_step_accounts:
  "pool_step who p p' \<Longrightarrow> pool_inv p \<Longrightarrow> accounts (not_empty_tally p) (not_empty_tally p') \<and> accounts (not_full_tally p) (not_full_tally p')"
proof (induction rule: pool_step.induct)
  case (p_call p ctx t)
  then show ?case by (simp add: not_empty_tally_def not_full_tally_def tally_simps acc_idle)
next
  case (p_run i p ctx t ts p' b pcs)
  then show ?case using Run_accounts by blast
next
  case (p_next i p ctx t ts)
  then show ?case by (intro conjI tally_goto) simp_all
next
  case (p_end i p ctx)
  then show ?case by (intro conjI tally_goto) (simp_all add: body_end_def)
next
  case (w_test i p)
  then show ?case by (intro conjI tally_goto) simp_all
next
  case (w_take i p p' b pcs)
  then show ?case using Take_accounts by blast
next
  case (p_spurious i p pc)
  then show ?case by (intro conjI tally_goto) (auto simp: not_empty_wake_Some not_full_wake_Some)
next
  case (s_flag p)
  then show ?case by (simp add: Stop_flag_def not_empty_tally_def not_full_tally_def acc_idle)
next
  case (s_notify p)
  have "calls is_W_Wait (notify_all not_empty_wake (tp_pcs p)) = 0"
    by (rule notify_all_none) (auto simp: not_empty_wake_Some)
  moreover have "calls P (notify_all not_empty_wake pcs) = calls P pcs" if "\<not> P W_Wait" "\<not> P W_Take" for P pcs
  proof -
    have "calls P (map f pcs) = calls P pcs" if "\<And>x. P (f x) = P x" for f
      using that by (induction pcs) (auto simp: calls_def)
    moreover have "P (case not_empty_wake x of None \<Rightarrow> x | Some q \<Rightarrow> q) = P x" for x
      using that by (cases x) auto
    ultimately show ?thesis by (simp add: notify_all_def)
  qed
  ultimately show ?case by (simp add: Stop_notify_def not_empty_tally_def not_full_tally_def acc_nobody acc_idle)
qed

interpretation not_empty: signalled any_step pool_inv not_empty_tally
  by unfold_locales (auto simp: any_step_def intro: pool_step_inv dest: pool_step_accounts)

interpretation not_full: signalled any_step pool_inv not_full_tally
  by unfold_locales (auto simp: any_step_def intro: pool_step_inv dest: pool_step_accounts)

subsection \<open>What the pool promises\<close>

definition pool_reachable :: "pool \<Rightarrow> bool" where
  "pool_reachable p \<longleftrightarrow> (\<exists>name m n. any_step\<^sup>*\<^sup>* (ThreadPool_Start (set_max_queue_size (ThreadPool_new name) m) n) p)"

lemma pool_reachable_inv: "pool_reachable p \<Longrightarrow> pool_inv p"
  using not_empty.reach_inv ThreadPool_Start_inv by (fastforce simp: pool_reachable_def)

lemma pool_reachable_Start: "pool_reachable (ThreadPool_Start (set_max_queue_size (ThreadPool_new name) m) n)"
  unfolding pool_reachable_def by blast

lemma pool_reachable_step: "pool_reachable p \<Longrightarrow> pool_step who p p' \<Longrightarrow> pool_reachable p'"
  unfolding pool_reachable_def by (meson any_stepI rtranclp.rtrancl_into_rtrancl)


definition demo_pool :: pool where
  "demo_pool = (ThreadPool_Start (set_max_queue_size (ThreadPool_new ''io'') 1) 1)
     \<lparr>tp_pcs := [W_Test, P_Body (1, 2) []], tp_queue := [((1, 2), Pool_Task 7 [])], tp_accepted := [((1, 2), Pool_Task 7 [])]\<rparr>"

lemma demo_pool_reachable: "pool_reachable demo_pool"
proof -
  let ?s = "ThreadPool_Start (set_max_queue_size (ThreadPool_new ''io'') 1) 1" and ?t = "Pool_Task 7 []"
  let ?s1 = "?s\<lparr>tp_pcs := [W_Test, P_Run (1, 2) ?t []]\<rparr>"
  have s: "tp_pcs ?s = [W_Test]" "tp_workers ?s = 1" "tp_max ?s = 1" "tp_queue ?s = []" "tp_accepted ?s = []"
    by (simp_all add: ThreadPool_Start_def set_max_queue_size_def ThreadPool_new_def)
  have "pool_step None ?s ?s1" using p_call [of ?s "(1, 2)" ?t] by (simp add: s del: One_nat_def)
  then have "pool_reachable ?s1" by (rule pool_reachable_step [OF pool_reachable_Start])
  moreover have "pool_step (Some 1) ?s1 demo_pool"
  proof -
    have "ThreadPool_Run ?s1 1 (1, 2) ?t [] = (demo_pool, True)"
      by (simp add: ThreadPool_Run_def s IsFull_def goto_def demo_pool_def del: One_nat_def) simp
    moreover have "notified_if not_empty_wake True (tp_pcs demo_pool) (tp_pcs demo_pool)"
      by (intro notified_yes notify_none) (simp add: demo_pool_def)
    ultimately have "pool_step (Some 1) ?s1 (demo_pool\<lparr>tp_pcs := tp_pcs demo_pool\<rparr>)" by (intro p_run) simp_all
    then show ?thesis by simp
  qed
  ultimately show ?thesis by (rule pool_reachable_step)
qed


text \<open>
  C8: no wake-up of the pool is lost. While a worker waits for a task there are at least as many workers about to
  take one as tasks queued; while a call of \<open>Run\<close> waits for room there are at least as many calls about to
  queue as free places.
\<close>
theorem ThreadPool_no_lost_wakeup:
  assumes "pool_reachable p"
  shows "(W_Wait \<in> set (tp_pcs p) \<longrightarrow> length (tp_queue p) \<le> calls is_W_Take (tp_pcs p)) \<and>
    ((\<exists>pc \<in> set (tp_pcs p). is_P_Wait pc) \<longrightarrow> tp_max p \<le> length (tp_queue p) + calls is_P_Run (tp_pcs p))"
proof -
  obtain name m n where r: "any_step\<^sup>*\<^sup>* (ThreadPool_Start (set_max_queue_size (ThreadPool_new name) m) n) p"
    using assms by (auto simp: pool_reachable_def)
  have "none_lost (not_empty_tally p)"
    by (rule not_empty.no_lost_wakeup [OF r ThreadPool_Start_inv])
      (simp add: none_lost_def not_empty_tally_def ThreadPool_Start_def set_max_queue_size_def ThreadPool_new_def)
  moreover have "none_lost (not_full_tally p)"
    by (rule not_full.no_lost_wakeup [OF r ThreadPool_Start_inv])
      (simp add: none_lost_def not_full_tally_def ThreadPool_Start_def set_max_queue_size_def ThreadPool_new_def calls_def)
  ultimately show ?thesis
    using calls_zero_iff [of is_W_Wait "tp_pcs p"] calls_zero_iff [of is_P_Wait "tp_pcs p"]
    by (auto simp: none_lost_def not_empty_tally_def not_full_tally_def)
qed

definition demo_wait :: pool where
  "demo_wait = demo_pool\<lparr>tp_pcs := [W_Test, P_Body (1, 2) [], P_Wait (3, 4) (Pool_Task 8 []) []]\<rparr>"

lemma demo_pool_fields [simp]:
  "tp_workers demo_pool = 1" "tp_max demo_pool = 1" "tp_queue demo_pool = [((1, 2), Pool_Task 7 [])]"
  "tp_pcs demo_pool = [W_Test, P_Body (1, 2) []]" "tp_running demo_pool" "tp_stop demo_pool = Not_Stopped" "tp_started demo_pool = []"
  by (simp_all add: demo_pool_def ThreadPool_Start_def set_max_queue_size_def ThreadPool_new_def)

lemma demo_wait_reachable: "pool_reachable demo_wait"
proof -
  let ?p = "demo_pool\<lparr>tp_pcs := [W_Test, P_Body (1, 2) [], P_Run (3, 4) (Pool_Task 8 []) []]\<rparr>"
  have "pool_step None demo_pool ?p" using p_call [of demo_pool "(3, 4)" "Pool_Task 8 []"] by simp
  then have p: "pool_reachable ?p" by (rule pool_reachable_step [OF demo_pool_reachable])
  have "ThreadPool_Run ?p 2 (3, 4) (Pool_Task 8 []) [] = (demo_wait, False)"
    by (simp add: ThreadPool_Run_def IsFull_def goto_def demo_wait_def)
  then have "pool_step (Some 2) ?p (demo_wait\<lparr>tp_pcs := tp_pcs demo_wait\<rparr>)" by (rule p_run [rotated 2]) (simp_all add: notified_no)
  with p show ?thesis using pool_reachable_step by fastforce
qed

lemma ThreadPool_no_lost_wakeup_witness: "tp_max demo_wait \<le> length (tp_queue demo_wait) + calls is_P_Run (tp_pcs demo_wait) \<and> 0 < tp_max demo_wait"
  using ThreadPool_no_lost_wakeup [OF demo_wait_reachable] by (simp add: demo_wait_def calls_def)

end
