(* ===== verification/Shutdown.thy ===== *)
theory Shutdown
  imports Pools
begin

text \<open>
  The thread pool behind \<open>Stop\<close>: its workers exit (a measure on what they may still do), and the calls it
  leaves blocked on a full queue.
\<close>

subsection \<open>After Stop\<close>

definition all_exited :: "pool \<Rightarrow> bool" where
  "all_exited p \<longleftrightarrow> (\<forall>i < tp_workers p. tp_pcs p ! i = W_Exited)"

definition blocked_run :: "pool \<Rightarrow> nat \<Rightarrow> bool" where
  "blocked_run p i \<longleftrightarrow> i < length (tp_pcs p) \<and> (is_P_Run (tp_pcs p ! i) \<or> is_P_Wait (tp_pcs p ! i))"

definition stranded :: "pool \<Rightarrow> bool" where
  "stranded p \<longleftrightarrow> pool_inv p \<and> 0 < tp_workers p \<and> all_exited p \<and> IsFull p"

lemma stranded_not_running: "stranded p \<Longrightarrow> \<not> tp_running p"
proof -
  assume s: "stranded p"
  then have "tp_workers p \<le> length (tp_pcs p)" "0 < tp_workers p" by (simp_all add: stranded_def pool_inv_def)
  then have "0 < length (tp_pcs p)" by linarith
  then have "pc_ok p 0 (tp_pcs p ! 0)" using s pc_okD [of p 0] unfolding stranded_def by blast
  moreover have "tp_pcs p ! 0 = W_Exited" using s by (simp add: stranded_def all_exited_def)
  ultimately show "\<not> tp_running p" by (simp add: pc_ok_def)
qed

lemma stranded_worker: "stranded p \<Longrightarrow> i < length (tp_pcs p) \<Longrightarrow> tp_pcs p ! i \<in> {W_Test, W_Take, W_Wait} \<Longrightarrow> False"
proof -
  assume s: "stranded p" and i: "i < length (tp_pcs p)" "tp_pcs p ! i \<in> {W_Test, W_Take, W_Wait}"
  have "pc_ok p i (tp_pcs p ! i)" using s i(1) pc_okD by (simp add: stranded_def)
  then have "i < tp_workers p" using i(2) unfolding pc_ok_def by blast
  then have "tp_pcs p ! i = W_Exited" using s by (simp add: stranded_def all_exited_def)
  with i(2) show False by simp
qed

lemma all_exited_update:
  "all_exited p \<Longrightarrow> i < length (tp_pcs p) \<Longrightarrow> tp_pcs p ! i \<noteq> W_Exited \<Longrightarrow> all_exited (goto p i pc)"
  by (auto simp: all_exited_def nth_list_update)

lemma stranded_goto:
  assumes "stranded p" "i < length (tp_pcs p)" "tp_pcs p ! i \<noteq> W_Exited" "pool_inv (goto p i pc)"
  shows "stranded (goto p i pc)"
  using assms all_exited_update [of p i pc] by (simp add: stranded_def IsFull_def)

lemma goto_blocked: "blocked_run p j \<Longrightarrow> (i = j \<Longrightarrow> is_P_Run pc \<or> is_P_Wait pc) \<Longrightarrow> blocked_run (goto p i pc) j"
  by (cases "i = j") (auto simp: blocked_run_def)

lemma stranded_step:
  assumes "pool_step who p p'" "stranded p"
  shows "stranded p' \<and> tp_started p' = tp_started p \<and> tp_queue p' = tp_queue p \<and> (\<forall>j. blocked_run p j \<longrightarrow> blocked_run p' j)"
proof -
  have inv': "pool_inv p'" using assms pool_step_inv by (simp add: stranded_def)
  from assms(1) show ?thesis
  proof (cases rule: pool_step.cases)
    case (p_call ctx t)
    then show ?thesis using assms(2) inv'
      by (auto simp: stranded_def all_exited_def IsFull_def blocked_run_def nth_append pool_inv_def)
  next
    case (p_run i ctx t ts p'' b pcs)
    then have r: "p'' = goto p i (P_Wait ctx t ts)" "\<not> b" using assms(2) by (auto simp: ThreadPool_Run_def stranded_def)
    then have "pcs = tp_pcs p''" using notified_not_empty(3) [OF p_run(6)] by simp
    then have p': "p' = goto p i (P_Wait ctx t ts)" using p_run(2) r by (simp add: goto_def)
    have "stranded p'" unfolding p' by (rule stranded_goto [OF assms(2) p_run(3)]) (use p_run inv' p' in simp_all)
    then show ?thesis using goto_blocked by (simp add: p')
  next
    case (p_next i ctx t ts)
    have "stranded p'" unfolding p_next(2) by (rule stranded_goto [OF assms(2) p_next(3)]) (use p_next inv' in simp_all)
    then show ?thesis using goto_blocked p_next by simp
  next
    case (p_end i ctx)
    have "stranded p'" unfolding p_end(2) by (rule stranded_goto [OF assms(2) p_end(3)]) (use p_end inv' in simp_all)
    moreover have "\<not> blocked_run p i" using p_end by (simp add: blocked_run_def)
    ultimately show ?thesis using goto_blocked [of p _ i "body_end p i"] p_end(2) by (metis goto_fields(5) goto_fields(7))
  next
    case (w_test i)
    then show ?thesis using stranded_worker [OF assms(2), of i] by simp
  next
    case (w_take i p'' b pcs)
    then show ?thesis using stranded_worker [OF assms(2), of i] by simp
  next
    case (p_spurious i pc)
    then obtain ctx t ts where i: "tp_pcs p ! i = P_Wait ctx t ts" "pc = P_Run ctx t ts"
      using stranded_worker [OF assms(2), of i] by (auto simp: not_empty_wake_Some not_full_wake_Some)
    have "stranded p'" unfolding p_spurious(2) by (rule stranded_goto [OF assms(2) p_spurious(3)]) (use i p_spurious inv' in simp_all)
    then show ?thesis using goto_blocked p_spurious(2) i(2) by simp
  next
    case s_flag
    then show ?thesis using assms(2) stranded_not_running by (simp add: Stop_flag_def)
  next
    case s_notify
    have no: "notify_all not_empty_wake (tp_pcs p) = tp_pcs p"
    proof (rule nth_equalityI)
      fix i assume "i < length (notify_all not_empty_wake (tp_pcs p))"
      then have "i < length (tp_pcs p)" by (simp add: notify_all_def)
      then show "notify_all not_empty_wake (tp_pcs p) ! i = tp_pcs p ! i"
        using stranded_worker [OF assms(2), of i] by (auto simp: notify_all_def not_empty_wake_Some split: option.splits)
    qed (simp add: notify_all_def)
    with s_notify assms(2) inv' show ?thesis
      by (auto simp: Stop_notify_def stranded_def all_exited_def IsFull_def blocked_run_def)
  qed
qed

lemma stranded_steps:
  assumes "any_step\<^sup>*\<^sup>* p p'" "stranded p"
  shows "stranded p' \<and> tp_started p' = tp_started p \<and> tp_queue p' = tp_queue p \<and> (\<forall>j. blocked_run p j \<longrightarrow> blocked_run p' j)"
  using assms(1)
proof (induction rule: rtranclp_induct)
  case base
  then show ?case using assms(2) by simp
next
  case (step y z)
  then show ?case using stranded_step unfolding any_step_def by metis
qed

text \<open>
  C38: once the workers of a stopped pool have exited with a bounded queue full, a call that is inside \<open>Run\<close> stays
  there for ever, for \<open>Stop\<close> does not notify \<open>not_full_\<close>, and the queued entries are never run.
\<close>
theorem Stop_strands_callers:
  assumes "pool_reachable p" "0 < tp_workers p" "all_exited p" "IsFull p" "any_step\<^sup>*\<^sup>* p p'" "blocked_run p i"
  shows "blocked_run p' i \<and> tp_started p' = tp_started p \<and> tp_queue p' = tp_queue p"
  using stranded_steps [OF assms(5)] assms pool_reachable_inv by (simp add: stranded_def)

definition demo_stopped :: pool where
  "demo_stopped = demo_wait\<lparr>tp_running := False, tp_stop := Stop_Flagged,
     tp_pcs := [W_Exited, P_Body (1, 2) [], P_Wait (3, 4) (Pool_Task 8 []) []]\<rparr>"

lemma demo_wait_fields [simp]:
  "tp_workers demo_wait = 1" "tp_max demo_wait = 1" "tp_queue demo_wait = [((1, 2), Pool_Task 7 [])]"
  "tp_pcs demo_wait = [W_Test, P_Body (1, 2) [], P_Wait (3, 4) (Pool_Task 8 []) []]" "tp_running demo_wait"
  "tp_stop demo_wait = Not_Stopped" "tp_started demo_wait = []"
  by (simp_all add: demo_wait_def)

lemma demo_stopped_reachable: "pool_reachable demo_stopped"
proof -
  let ?p = "demo_wait\<lparr>tp_running := False, tp_stop := Stop_Flagged\<rparr>"
  have "pool_step None demo_wait ?p" using s_flag [of demo_wait] by (simp add: Stop_flag_def)
  then have p: "pool_reachable ?p" by (rule pool_reachable_step [OF demo_wait_reachable])
  have "pool_step (Some 0) ?p demo_stopped" using w_test [of 0 ?p] by (simp add: demo_stopped_def goto_def)
  with p show ?thesis by (rule pool_reachable_step)
qed

lemma Stop_strands_callers_witness: "blocked_run (Stop_notify demo_stopped) 2 \<and> tp_queue (Stop_notify demo_stopped) = [((1, 2), Pool_Task 7 [])]"
proof -
  have s: "any_step\<^sup>*\<^sup>* demo_stopped (Stop_notify demo_stopped)"
    by (intro r_into_rtranclp any_stepI [OF s_notify]) (simp add: demo_stopped_def)
  have h: "0 < tp_workers demo_stopped" "all_exited demo_stopped" "IsFull demo_stopped" "blocked_run demo_stopped 2"
    and q: "tp_queue demo_stopped = [((1, 2), Pool_Task 7 [])]"
    by (simp_all add: demo_stopped_def all_exited_def IsFull_def blocked_run_def)
  show ?thesis using Stop_strands_callers [OF demo_stopped_reachable h(1-3) s h(4)] q by simp
qed

subsection \<open>Stop ends the workers\<close>

text \<open>
  Behind the \<open>NotifyAll\<close> of \<open>Stop\<close> a worker takes at most one more entry. Its remaining steps are bounded by
  the number of workers inside \<open>Take\<close> and, below that, by what the running entries still have to post.
\<close>

fun body_weight :: "pool_pc \<Rightarrow> nat" where
  "body_weight W_Test = 1"
| "body_weight (P_Body _ ts) = 2 * length ts + 2"
| "body_weight (P_Run _ _ ts) = 2 * length ts + 3"
| "body_weight _ = 0"

definition stop_measure :: "pool \<Rightarrow> nat \<times> nat" where
  "stop_measure p = (calls is_W_Take (tp_pcs p), sum_list (map body_weight (take (tp_workers p) (tp_pcs p))))"

definition settled :: "pool \<Rightarrow> bool" where
  "settled p \<longleftrightarrow> pool_inv p \<and> tp_stop p = Stop_Notified \<and> tp_max p = 0"

abbreviation smaller :: "((nat \<times> nat) \<times> (nat \<times> nat)) set" where "smaller \<equiv> less_than <*lex*> less_than"

lemma settled_no_wait: "settled p \<Longrightarrow> calls is_W_Wait (tp_pcs p) = 0" "settled p \<Longrightarrow> calls is_P_Wait (tp_pcs p) = 0"
  by (rule calls_zero_nth; auto simp: settled_def pool_inv_def pc_ok_def)+

lemma weight_update:
  assumes "i < n" "i < length pcs"
  shows "sum_list (map body_weight (take n (pcs[i := pc]))) + body_weight (pcs ! i) = sum_list (map body_weight (take n pcs)) + body_weight pc"
proof -
  let ?ws = "map body_weight (take n pcs)"
  have i: "i < length ?ws" using assms by simp
  have "map body_weight (take n (pcs[i := pc])) = ?ws[i := body_weight pc]" by (simp add: take_update_swap map_update)
  moreover have "?ws ! i \<le> sum_list ?ws" using i by (rule elem_le_sum_list)
  moreover have "?ws ! i = body_weight (pcs ! i)" using assms by simp
  ultimately show ?thesis using sum_list_update [OF i, of "body_weight pc"] by simp
qed

lemma stop_measure_goto:
  assumes "i < length (tp_pcs p)" "tp_workers p' = tp_workers p" "tp_pcs p' = (tp_pcs p)[i := pc]"
  shows "\<not> is_W_Take pc \<Longrightarrow> i < tp_workers p \<Longrightarrow> is_W_Take (tp_pcs p ! i) \<or> body_weight pc < body_weight (tp_pcs p ! i) \<Longrightarrow>
      (stop_measure p', stop_measure p) \<in> smaller"
    "\<not> is_W_Take pc \<Longrightarrow> tp_workers p \<le> i \<Longrightarrow> \<not> is_W_Take (tp_pcs p ! i) \<Longrightarrow> stop_measure p' = stop_measure p"
  using assms calls_update [OF assms(1), of is_W_Take pc] weight_update [of i "tp_workers p" "tp_pcs p" pc]
  by (auto simp: stop_measure_def take_update_cancel split: if_splits)

lemma settled_step:
  assumes "pool_step who p p'" "settled p"
  shows "settled p' \<and> tp_workers p' = tp_workers p \<and>
    (if \<exists>i < tp_workers p. who = Some i then (stop_measure p', stop_measure p) \<in> smaller else stop_measure p' = stop_measure p)"
proof -
  have inv: "pool_inv p" "\<not> tp_running p" using assms(2) by (auto simp: settled_def pool_inv_def)
  have inv': "pool_inv p'" using assms(1) inv(1) pool_step_inv by blast
  have moved: "settled p' \<and> tp_workers p' = tp_workers p \<and>
      (if \<exists>i < tp_workers p. Some j = Some i then (stop_measure p', stop_measure p) \<in> smaller else stop_measure p' = stop_measure p)"
    if "j < length (tp_pcs p)" "tp_workers p' = tp_workers p" "tp_pcs p' = (tp_pcs p)[j := pc]" "tp_stop p' = tp_stop p" "tp_max p' = tp_max p"
      "\<not> is_W_Take pc" "is_W_Take (tp_pcs p ! j) \<or> body_weight pc < body_weight (tp_pcs p ! j)" "is_W_Take (tp_pcs p ! j) \<Longrightarrow> j < tp_workers p" for j pc
  proof (cases "j < tp_workers p")
    case True
    then show ?thesis using stop_measure_goto(1) [OF that(1,2,3,6)] that assms(2) inv' by (simp add: settled_def)
  next
    case False
    then have "\<not> is_W_Take (tp_pcs p ! j)" using that(8) by blast
    then show ?thesis using False stop_measure_goto(2) [OF that(1,2,3,6)] that(2,4,5) assms(2) inv' by (simp add: settled_def)
  qed
  from assms(1) show ?thesis
  proof (cases rule: pool_step.cases)
    case (p_call ctx t)
    moreover have "tp_workers p \<le> length (tp_pcs p)" using inv by (simp add: pool_inv_def)
    ultimately show ?thesis using assms(2) inv' by (simp add: settled_def stop_measure_def tally_simps)
  next
    case (p_run i ctx t ts p'' b pcs)
    have "\<not> IsFull p" using assms(2) by (simp add: settled_def IsFull_def)
    then obtain us where p'': "tp_pcs p'' = (tp_pcs p)[i := P_Body ctx us]" "tp_workers p'' = tp_workers p" "tp_stop p'' = tp_stop p"
        "tp_max p'' = tp_max p" "i < tp_workers p \<Longrightarrow> us = ts"
      using p_run(5) by (auto simp: ThreadPool_Run_def split: if_splits)
    have "calls is_W_Wait (tp_pcs p'') = 0"
      using settled_no_wait(1) [OF assms(2)] p_run(3,4) p''(1) by (simp add: calls_goto(1))
    then have "pcs = tp_pcs p''" using notified_not_empty(3) [OF p_run(6)] by simp
    then have p': "tp_workers p' = tp_workers p" "tp_pcs p' = (tp_pcs p)[i := P_Body ctx us]" "tp_stop p' = tp_stop p" "tp_max p' = tp_max p"
      using p_run(2) p'' by simp_all
    show ?thesis
    proof (cases "i < tp_workers p")
      case True
      show ?thesis unfolding p_run(1) by (rule moved [OF p_run(3) p']) (use p_run(4) p''(5) True in simp_all)
    next
      case False
      have "stop_measure p' = stop_measure p"
        by (rule stop_measure_goto(2) [OF p_run(3) p'(1,2)]) (use p_run(4) False in simp_all)
      then show ?thesis using False p'(1,3,4) p_run(1) assms(2) inv' by (simp add: settled_def)
    qed
  next
    case (p_next i ctx t ts)
    show ?thesis unfolding p_next(1) by (rule moved [of i "P_Run ctx t ts"]) (use p_next in simp_all)
  next
    case (p_end i ctx)
    show ?thesis unfolding p_end(1) by (rule moved [of i "body_end p i"]) (use p_end in \<open>simp_all add: body_end_def\<close>)
  next
    case (w_test i)
    show ?thesis unfolding w_test(1) by (rule moved [of i W_Exited]) (use w_test inv(2) in simp_all)
  next
    case (w_take i p'' b pcs)
    have "\<not> b" using w_take(5) assms(2) by (auto simp: ThreadPool_Take_def settled_def split: list.splits)
    then have "pcs = tp_pcs p''" using notified_not_full(3) [OF w_take(6)] by simp
    moreover have "i < tp_workers p" using pc_okD [OF inv(1) w_take(3)] w_take(4) by (simp add: pc_ok_def)
    moreover obtain pc where "tp_pcs p'' = (tp_pcs p)[i := pc]" "\<not> is_W_Take pc" "tp_workers p'' = tp_workers p" "tp_stop p'' = tp_stop p" "tp_max p'' = tp_max p"
      using w_take(5) inv(2) by (auto simp: ThreadPool_Take_def split: list.splits)
    ultimately have "tp_workers p' = tp_workers p" "tp_pcs p' = (tp_pcs p)[i := pc]" "tp_stop p' = tp_stop p" "tp_max p' = tp_max p"
      "\<not> is_W_Take pc" "i < tp_workers p"
      using w_take(2) by simp_all
    then show ?thesis unfolding w_take(1) by (intro moved [OF w_take(3)]) (simp_all only: w_take(4) simp_thms)
  next
    case (p_spurious i pc)
    have "\<not> is_W_Wait (tp_pcs p ! i)" "\<not> is_P_Wait (tp_pcs p ! i)"
      using settled_no_wait [OF assms(2)] calls_pos [OF p_spurious(3), of is_W_Wait] calls_pos [OF p_spurious(3), of is_P_Wait]
      by fastforce+
    then show ?thesis using p_spurious(4) by (auto simp: not_empty_wake_Some not_full_wake_Some)
  next
    case s_flag
    then show ?thesis using assms(2) by (simp add: settled_def)
  next
    case s_notify
    then show ?thesis using assms(2) by (simp add: settled_def)
  qed
qed

lemma worker_enabled:
  assumes "settled p" "i < tp_workers p" "tp_pcs p ! i \<noteq> W_Exited"
  shows "\<exists>p'. pool_step (Some i) p p'"
proof -
  have len: "i < length (tp_pcs p)" using assms by (auto simp: settled_def pool_inv_def)
  have ok: "pc_ok p i (tp_pcs p ! i)" using assms(1) len by (simp add: settled_def pool_inv_def)
  have ex: "\<exists>pcs'. notified_if wake b pcs pcs'" for wake :: "pool_pc \<Rightarrow> pool_pc option" and b pcs
  proof (cases b)
    case True
    show ?thesis
    proof (cases "\<forall>p \<in> set pcs. wake p = None")
      case False
      then obtain j q where "j < length pcs" "wake (pcs ! j) = Some q" by (auto simp: in_set_conv_nth)
      then have "notified_if wake True pcs (pcs[j := q])" by (intro notified_yes notify_some)
      then show ?thesis using True by (intro exI) simp
    next
      case 2: True
      then have "notified_if wake True pcs pcs" by (intro notified_yes notify_none)
      then show ?thesis using True by (intro exI) simp
    qed
  next
    case False
    then show ?thesis using notified_no [of wake pcs] by (intro exI) simp
  qed
  show ?thesis
  proof (cases "tp_pcs p ! i")
    case W_Test
    then show ?thesis using w_test [OF len] by blast
  next
    case W_Take
    obtain p' b where r: "ThreadPool_Take p i = (p', b)" by fastforce
    then show ?thesis using w_take [OF len W_Take r] ex by blast
  next
    case (P_Body ctx ts)
    then show ?thesis using p_next [OF len] p_end [OF len] by (cases ts) blast+
  next
    case (P_Run ctx t ts)
    obtain p' b where r: "ThreadPool_Run p i ctx t ts = (p', b)" by fastforce
    then show ?thesis using p_run [OF len P_Run r] ex by blast
  qed (use ok assms in \<open>auto simp: pc_ok_def settled_def\<close>)
qed

lemma exec_settled:
  assumes "\<forall>k. pool_step (who k) (f k) (f (Suc k))" "settled (f 0)"
  shows "settled (f k) \<and> tp_workers (f k) = tp_workers (f 0)"
proof (induction k)
  case (Suc k)
  then show ?case using settled_step [of "who k" "f k" "f (Suc k)"] assms(1) by simp
qed (use assms(2) in simp)

lemma exec_measure:
  assumes "\<forall>k. pool_step (who k) (f k) (f (Suc k))" "settled (f 0)"
  shows "k \<le> n \<Longrightarrow> stop_measure (f n) = stop_measure (f k) \<or> (stop_measure (f n), stop_measure (f k)) \<in> smaller"
proof (induction n)
  case (Suc n)
  have t: "trans smaller" by (intro trans_lex_prod trans_less_than)
  have "stop_measure (f (Suc n)) = stop_measure (f n) \<or> (stop_measure (f (Suc n)), stop_measure (f n)) \<in> smaller"
    using settled_step [of "who n" "f n" "f (Suc n)"] assms(1) exec_settled [OF assms, of n] by (auto split: if_splits)
  then show ?case using Suc t by (metis le_Suc_eq transD)
qed simp

lemma Stop_fair_exit:
  assumes "\<forall>k. pool_step (who k) (f k) (f (Suc k))" "settled (f 0)"
    and fair: "\<forall>k. \<forall>i < tp_workers (f 0). tp_pcs (f k) ! i = W_Exited \<or> (\<exists>n \<ge> k. who n = Some i)"
  shows "\<exists>n. all_exited (f n)"
proof -
  have "\<exists>n. all_exited (f n)" if "stop_measure (f k) = y" for k y
    using that
  proof (induction y arbitrary: k rule: wf_induct_rule [OF wf_lex_prod [OF wf_less_than wf_less_than]])
    case (1 y)
    show ?case
    proof (cases "all_exited (f k)")
      case False
      then obtain i where i0: "i < tp_workers (f 0)" "tp_pcs (f k) ! i \<noteq> W_Exited"
        using exec_settled [OF assms(1,2), of k] by (auto simp: all_exited_def)
      then obtain n where i: "i < tp_workers (f 0)" "n \<ge> k" "who n = Some i" using fair by blast
      have "(stop_measure (f (Suc n)), stop_measure (f n)) \<in> smaller"
        using settled_step [OF assms(1) [rule_format, of n]] exec_settled [OF assms(1,2), of n] i by simp
      moreover have "trans smaller" by (intro trans_lex_prod trans_less_than)
      ultimately have "(stop_measure (f (Suc n)), y) \<in> smaller"
        using exec_measure [OF assms(1,2) i(2)] 1(2) by (metis transD)
      with 1(1) show ?thesis by blast
    qed blast
  qed
  then show ?thesis by blast
qed

text \<open>
  C9: in every infinite execution behind \<open>Stop\<close> of a pool without bound, in which a worker that has not
  exited makes a step some time later, all workers exit, so that the \<open>Join\<close> calls of \<open>Stop\<close> return; and a worker
  that has not exited can always make a step.
\<close>
theorem Stop_workers_exit:
  assumes "pool_reachable (f 0)" "tp_stop (f 0) = Stop_Notified" "tp_max (f 0) = 0"
    "\<forall>k. pool_step (who k) (f k) (f (Suc k))"
    "\<forall>k. \<forall>i < tp_workers (f 0). tp_pcs (f k) ! i = W_Exited \<or> (\<exists>n \<ge> k. who n = Some i)"
  shows "(\<exists>n. all_exited (f n)) \<and>
    (\<forall>k. \<forall>i < tp_workers (f 0). tp_pcs (f k) ! i \<noteq> W_Exited \<longrightarrow> (\<exists>p'. pool_step (Some i) (f k) p'))"
proof -
  have s: "settled (f 0)" using assms(1-3) pool_reachable_inv by (simp add: settled_def)
  have "\<exists>p'. pool_step (Some i) (f k) p'" if "i < tp_workers (f 0)" "tp_pcs (f k) ! i \<noteq> W_Exited" for k i
    using worker_enabled [of "f k" i] exec_settled [OF assms(4) s, of k] that by simp
  then show ?thesis using Stop_fair_exit [OF assms(4) s assms(5)] by blast
qed

text \<open>A worker of a stopped pool that exits while calls keep arriving.\<close>

definition demo_closing :: pool where
  "demo_closing = (ThreadPool_Start (set_max_queue_size (ThreadPool_new ''io'') 0) 1)\<lparr>tp_running := False, tp_stop := Stop_Notified\<rparr>"

fun demo_run :: "nat \<Rightarrow> pool" where
  "demo_run 0 = demo_closing"
| "demo_run (Suc k) = demo_closing\<lparr>tp_pcs := W_Exited # replicate k (P_Run (0, 0) (Pool_Task 1 []) [])\<rparr>"

lemma demo_closing_fields [simp]:
  "tp_workers demo_closing = 1" "tp_max demo_closing = 0" "tp_pcs demo_closing = [W_Test]" "\<not> tp_running demo_closing"
  "tp_stop demo_closing = Stop_Notified"
  by (simp_all add: demo_closing_def ThreadPool_Start_def set_max_queue_size_def ThreadPool_new_def)

lemma demo_closing_reachable: "pool_reachable demo_closing"
proof -
  let ?s = "ThreadPool_Start (set_max_queue_size (ThreadPool_new ''io'') 0) 1"
  let ?f = "?s\<lparr>tp_running := False, tp_stop := Stop_Flagged\<rparr>"
  have s: "tp_stop ?s = Not_Stopped" "tp_running ?s" "tp_pcs ?s = [W_Test]"
    by (simp_all add: ThreadPool_Start_def set_max_queue_size_def ThreadPool_new_def)
  have "pool_step None ?s ?f" using s_flag [OF s(1)] s(2) by (simp add: Stop_flag_def)
  then have f: "pool_reachable ?f" by (rule pool_reachable_step [OF pool_reachable_Start])
  have "notify_all not_empty_wake [W_Test] = [W_Test]" by (simp add: notify_all_def)
  moreover have "?s\<lparr>tp_pcs := [W_Test]\<rparr> = ?s" using s(3) by (metis pool.surjective pool.update_convs(3))
  ultimately have "Stop_notify ?f = demo_closing" using s(3) by (simp add: Stop_notify_def demo_closing_def)
  then have "pool_step None ?f demo_closing" using s_notify [of ?f] by simp
  with f show ?thesis by (rule pool_reachable_step)
qed

lemma demo_run_step: "pool_step (if k = 0 then Some 0 else None) (demo_run k) (demo_run (Suc k))"
proof (cases k)
  case 0
  then show ?thesis using w_test [of 0 demo_closing] by (simp add: goto_def)
next
  case (Suc n)
  have "replicate n x @ [x] = x # replicate n x" for x :: pool_pc by (induction n) auto
  then show ?thesis using p_call [of "demo_run k" "(0, 0)" "Pool_Task 1 []"] Suc by simp
qed

lemma Stop_workers_exit_witness: "\<exists>n. all_exited (demo_run n)"
proof -
  have "\<forall>k. \<forall>i < tp_workers (demo_run 0). tp_pcs (demo_run k) ! i = W_Exited \<or> (\<exists>n \<ge> k. (if n = 0 then Some 0 else None) = Some i)"
  proof (intro allI impI)
    fix k i :: nat
    assume "i < tp_workers (demo_run 0)"
    then show "tp_pcs (demo_run k) ! i = W_Exited \<or> (\<exists>n \<ge> k. (if n = 0 then Some 0 else None) = Some i)"
      by (cases k) auto
  qed
  with Stop_workers_exit [of demo_run "\<lambda>k. if k = 0 then Some 0 else None"] show ?thesis
    using demo_closing_reachable demo_run_step by simp
qed

end
