(* ===== verification/Threads.thy ===== *)
theory Threads
  imports Monitors
begin

text \<open>
  Thread objects (\<^verbatim>\<open>threading/Thread.h,.cc\<close>) and the thread that runs an event loop
  (\<^verbatim>\<open>events/EventLoopThread.h,.cc\<close>).

  The event-loop thread is a transition system over the caller of \<open>StartLoop\<close> and \<open>ThreadMain\<close>; its critical
  sections are single steps. The loop object lives on the stack of the thread, \<open>lt_alive\<close> says whether it exists.
\<close>

subsection \<open>Threads\<close>

record thread =
  th_started :: bool
  th_joined :: bool
  th_tid :: nat
  th_name :: string

definition Thread_new :: "string \<Rightarrow> thread" where
  "Thread_new name = \<lparr>th_started = False, th_joined = False, th_tid = 0, th_name = name\<rparr>"

text \<open>\<open>created\<close> says whether \<open>pthread_create\<close> succeeds; \<open>LOG(FATAL)\<close> ends the process. The second component tells whether a thread was made.\<close>

definition Thread_Start :: "bool \<Rightarrow> thread \<Rightarrow> (thread \<times> bool) result" where
  "Thread_Start created t =
     (if th_started t then Inr (t, False)
      else if created then Inr (t\<lparr>th_started := True\<rparr>, True) else Inl Aborted)"

definition Thread_Join :: "thread \<Rightarrow> thread result" where
  "Thread_Join t = DCHECK (th_started t) (DCHECK (\<not> th_joined t) (Inr (t\<lparr>th_joined := True\<rparr>)))"

text \<open>Whether the destructor detaches the thread.\<close>

definition Thread_destroy :: "thread \<Rightarrow> bool" where
  "Thread_destroy t \<longleftrightarrow> th_started t \<and> \<not> th_joined t"

datatype entry_outcome = Entry_returns | Entry_throws

text \<open>
  \<open>Priv::RunInThread\<close>: the thread id is stored only while the \<open>Thread\<close> object lives (\<open>weak_tid_\<close>), an exception
  names the thread and ends the process.
\<close>

definition RunInThread :: "nat \<Rightarrow> bool \<Rightarrow> thread \<Rightarrow> entry_outcome \<Rightarrow> (thread \<times> string list) result" where
  "RunInThread tid alive t outcome =
     (let t' = (if alive then t\<lparr>th_tid := tid\<rparr> else t)
      in case outcome of
           Entry_returns \<Rightarrow> Inr (t', [th_name t, ''finished''])
         | Entry_throws \<Rightarrow> Inl Aborted)"

text \<open>A thread object never joins twice, never detaches what it joined, and is started at most once.\<close>

inductive thread_step :: "(thread \<times> nat \<times> nat) \<Rightarrow> (thread \<times> nat \<times> nat) \<Rightarrow> bool" where
  th_start: "Thread_Start c t = Inr (t', made) \<Longrightarrow> thread_step (t, made_n, joins) (t', made_n + (if made then 1 else 0), joins)"
| th_join: "Thread_Join t = Inr t' \<Longrightarrow> thread_step (t, made_n, joins) (t', made_n, joins + 1)"

lemma Thread_no_leak:
  assumes "thread_step\<^sup>*\<^sup>* (Thread_new name, 0, 0) (t, made_n, joins)"
  shows "made_n = joins + (if Thread_destroy t then 1 else 0)"
proof -
  have "case (t, made_n, joins) of (t, m, j) \<Rightarrow>
      (th_joined t \<longrightarrow> th_started t) \<and> m = (if th_started t then 1 else 0) \<and> j = (if th_joined t then 1 else 0)"
    using assms
  proof (induction rule: rtranclp_induct)
    case base
    then show ?case by (simp add: Thread_new_def)
  next
    case (step y z)
    then show ?case by (auto simp: Thread_Start_def Thread_Join_def elim!: thread_step.cases split: if_splits)
  qed
  then show ?thesis by (auto simp: Thread_destroy_def split: if_splits)
qed

subsection \<open>EventLoopThread\<close>

datatype start_pc = Start_Idle | Start_Test | Start_Waiting | Start_Returned
datatype main_pc = Main_None | Main_Begin | Main_Publish | Main_Looping | Main_Finished

record loop_thread =
  lt_thread :: thread
  lt_loop :: bool
  lt_alive :: bool
  lt_initialised :: bool
  lt_start :: start_pc
  lt_main :: main_pc

definition EventLoopThread_new :: loop_thread where
  "EventLoopThread_new =
     \<lparr>lt_thread = Thread_new '''', lt_loop = False, lt_alive = False, lt_initialised = False, lt_start = Start_Idle, lt_main = Main_None\<rparr>"

definition StartLoop_enter :: "bool \<Rightarrow> loop_thread \<Rightarrow> loop_thread result" where
  "StartLoop_enter created lt =
     DCHECK (\<not> th_started (lt_thread lt))
       (bindR (Thread_Start created (lt_thread lt)) (\<lambda>(t, made).
          Inr (lt\<lparr>lt_thread := t, lt_start := Start_Test, lt_main := (if made then Main_Begin else lt_main lt)\<rparr>)))"

definition StartLoop_test :: "loop_thread \<Rightarrow> loop_thread" where
  "StartLoop_test lt = lt\<lparr>lt_start := (if lt_loop lt then Start_Returned else Start_Waiting)\<rparr>"

definition start_wake :: "start_pc \<Rightarrow> start_pc" where
  "start_wake pc = (if pc = Start_Waiting then Start_Test else pc)"

text \<open>The three parts of \<open>ThreadMain\<close>: the loop and its callback, the critical section, and the end of \<open>loop\<close>.\<close>

definition ThreadMain_init :: "loop_thread \<Rightarrow> loop_thread" where
  "ThreadMain_init lt = lt\<lparr>lt_alive := True, lt_initialised := True, lt_main := Main_Publish\<rparr>"

definition ThreadMain_publish :: "loop_thread \<Rightarrow> loop_thread" where
  "ThreadMain_publish lt = lt\<lparr>lt_loop := True, lt_start := start_wake (lt_start lt), lt_main := Main_Looping\<rparr>"

definition ThreadMain_return :: "loop_thread \<Rightarrow> loop_thread" where
  "ThreadMain_return lt = lt\<lparr>lt_alive := False, lt_main := Main_Finished\<rparr>"

inductive loop_thread_step :: "loop_thread \<Rightarrow> loop_thread \<Rightarrow> bool" where
  e_enter: "lt_start lt = Start_Idle \<Longrightarrow> StartLoop_enter True lt = Inr lt' \<Longrightarrow> loop_thread_step lt lt'"
| e_test: "lt_start lt = Start_Test \<Longrightarrow> loop_thread_step lt (StartLoop_test lt)"
| e_spurious: "lt_start lt = Start_Waiting \<Longrightarrow> loop_thread_step lt (lt\<lparr>lt_start := start_wake (lt_start lt)\<rparr>)"
| e_init: "lt_main lt = Main_Begin \<Longrightarrow> loop_thread_step lt (ThreadMain_init lt)"
| e_publish: "lt_main lt = Main_Publish \<Longrightarrow> loop_thread_step lt (ThreadMain_publish lt)"
| e_return: "lt_main lt = Main_Looping \<Longrightarrow> loop_thread_step lt (ThreadMain_return lt)"

text \<open>The destructor calls \<open>loop_->quit()\<close> and joins: a null or dangling \<open>loop_\<close> is a failure.\<close>

definition EventLoopThread_destroy :: "loop_thread \<Rightarrow> loop_thread result" where
  "EventLoopThread_destroy lt =
     (if lt_loop lt \<and> lt_alive lt
      then bindR (Thread_Join (lt_thread lt)) (\<lambda>t. Inr (lt\<lparr>lt_thread := t\<rparr>))
      else Inl Dangling_Pointer)"

definition loop_thread_inv :: "loop_thread \<Rightarrow> bool" where
  "loop_thread_inv lt \<longleftrightarrow>
     (lt_loop lt \<longleftrightarrow> lt_main lt \<in> {Main_Looping, Main_Finished}) \<and>
     (lt_alive lt \<longleftrightarrow> lt_main lt \<in> {Main_Publish, Main_Looping}) \<and>
     (lt_initialised lt \<longleftrightarrow> lt_main lt \<in> {Main_Publish, Main_Looping, Main_Finished}) \<and>
     (lt_main lt = Main_None \<longleftrightarrow> lt_start lt = Start_Idle) \<and>
     (th_started (lt_thread lt) \<longleftrightarrow> lt_main lt \<noteq> Main_None) \<and> \<not> th_joined (lt_thread lt) \<and>
     (lt_start lt = Start_Waiting \<longrightarrow> \<not> lt_loop lt) \<and> (lt_start lt = Start_Returned \<longrightarrow> lt_loop lt)"

lemma loop_thread_step_inv: "loop_thread_step lt lt' \<Longrightarrow> loop_thread_inv lt \<Longrightarrow> loop_thread_inv lt'"
proof (induction rule: loop_thread_step.induct)
  case (e_enter lt lt')
  then have "\<not> th_started (lt_thread lt)"
    "lt' = lt\<lparr>lt_thread := (lt_thread lt)\<lparr>th_started := True\<rparr>, lt_start := Start_Test, lt_main := Main_Begin\<rparr>"
    by (auto simp: StartLoop_enter_def Thread_Start_def)
  with e_enter(3) show ?case by (simp add: loop_thread_inv_def)
next
  case (e_test lt)
  then show ?case by (simp add: loop_thread_inv_def StartLoop_test_def)
next
  case (e_spurious lt)
  then show ?case by (simp add: loop_thread_inv_def start_wake_def)
next
  case (e_init lt)
  then show ?case unfolding loop_thread_inv_def by (simp add: ThreadMain_init_def) blast
next
  case (e_publish lt)
  then show ?case by (simp add: loop_thread_inv_def ThreadMain_publish_def start_wake_def)
next
  case (e_return lt)
  then show ?case unfolding loop_thread_inv_def by (simp add: ThreadMain_return_def) blast
qed

lemma loop_thread_reach_inv: "loop_thread_step\<^sup>*\<^sup>* EventLoopThread_new lt \<Longrightarrow> loop_thread_inv lt"
proof (induction rule: rtranclp_induct)
  case base
  then show ?case by (simp add: loop_thread_inv_def EventLoopThread_new_def Thread_new_def)
qed (rule loop_thread_step_inv)



end
