(* ===== verification/Spec2Isabelle.thy ===== *)
theory Spec2Isabelle
  imports Protobuf Reactor Symbolizer Reports Registry Tracing Uri Pollers Loops Logs Counters Elf Files Printf Messages Rolling Shutdown Threads
begin

text \<open>
  Verification development of claire-common, a C++ library for servers: an event loop with timers and I/O
  channels, threads and thread pools, logging, metrics, tracing, files, strings, symbolisation of addresses, and
  JSON for protobuf messages. Source paths below are relative to \<^verbatim>\<open>src/claire/common\<close>. The definitions keep the
  names of the source, with the class in front where a name occurs in several (\<open>TimeoutQueue_Add\<close> is
  \<^verbatim>\<open>TimeoutQueue::Add\<close>).

  \<^bold>\<open>How the program is put together.\<close>

  An \<^verbatim>\<open>EventLoop\<close> belongs to one thread. Each round it asks its poller for the channels that are ready, sorts them by
  priority, lets each dispatch its callbacks, and then runs the tasks that any thread has posted; a byte in an eventfd
  wakes it from the poll. Timers are kept by the \<^verbatim>\<open>TimeoutQueue\<close>, whose timer descriptor is one of the channels. An
  \<^verbatim>\<open>EventLoopThread\<close> runs a loop in a thread of its own and an \<^verbatim>\<open>EventLoopThreadPool\<close> hands out such loops in turn. Threads,
  the bounded \<^verbatim>\<open>ThreadPool\<close>, the latch and the queue rest on \<^verbatim>\<open>Mutex\<close> and \<^verbatim>\<open>Condition\<close>. Tasks carry the trace context of
  the thread that posted them. Histograms and traces are registered by key in recorders that own them; counters live in
  one array indexed by counter and thread. A log message is formatted into a fixed buffer and handed to the output function,
  for a server to the asynchronous \<^verbatim>\<open>Logger\<close>, which writes to a rolling \<^verbatim>\<open>LogFile\<close>, which uses the file utilities. The
  symbolizer reads the memory map of the process, an ELF file and its DWARF sections.

  \<^bold>\<open>Which theory models what.\<close>

  \<^item> \<open>Prelude\<close>: failures, machine integers, vectors. Everything else imports it.
  \<^item> \<open>Times\<close>, \<open>Clock\<close>: \<^verbatim>\<open>time/Timestamp\<close>, \<^verbatim>\<open>events/TimerId.h\<close>, \<^verbatim>\<open>threading/ThisThread\<close>, \<^verbatim>\<open>threading/Singleton.h\<close>,
    \<^verbatim>\<open>system/ThisProcess\<close>, \<^verbatim>\<open>base/Types.h\<close>, \<^verbatim>\<open>base/WeakCallback.h\<close>.
  \<^item> \<open>Timeouts\<close>: \<^verbatim>\<open>events/TimeoutQueue\<close>, with callbacks that call back into the queue. The queue stays sorted with distinct
    ids and the descriptor is armed no later than the first expiration, whatever the clock does; \<open>Run\<close> fires exactly the
    due events in order; \<open>Cancel\<close> undoes \<open>Add\<close>.
  \<^item> \<open>Loops\<close>, \<open>Pollers\<close>, \<open>Reactor\<close>, \<open>Threads\<close>: \<^verbatim>\<open>events/EventLoop\<close>, \<^verbatim>\<open>events/EventLoopThreadPool\<close>,
    \<^verbatim>\<open>events/Channel\<close>, \<^verbatim>\<open>events/poller/EPollPoller\<close>, \<^verbatim>\<open>threading/Thread\<close>, \<^verbatim>\<open>events/EventLoopThread\<close>. The task queue and the
    wake-ups are a transition system with any number of posting threads (first in first out, no lost wake-up). The
    kernel's interest list mirrors the channels, stated over the locale \<open>poller\<close>. The dispatch of a round touches
    live channels only, whatever callbacks create, change, remove or destroy.
  \<^item> \<open>Monitors\<close>, \<open>Pools\<close>, \<open>Shutdown\<close>: \<^verbatim>\<open>threading/Mutex\<close>, \<^verbatim>\<open>threading/Condition.h\<close>, \<^verbatim>\<open>threading/CountDownLatch.h\<close>,
    \<^verbatim>\<open>base/BlockingQueue.h\<close>, \<^verbatim>\<open>threading/ThreadPool\<close>. The locale \<open>signalled\<close> holds the counting argument by which
    no wake-up is lost; it is interpreted on the blocking queue and on both conditions of the pool. \<open>Shutdown\<close> has the
    measure by which workers exit behind \<open>Stop\<close>, and the callers that a stopped pool leaves blocked.
  \<^item> \<open>Buckets\<close>, \<open>Histograms\<close>, \<open>Reports\<close>, \<open>Registry\<close>, \<open>Counters\<close>: the directory \<^verbatim>\<open>metrics\<close>. The locale \<open>sample_store\<close> is the contract
    of \<open>Add\<close> and \<open>Subtract\<close>, interpreted on sample vectors; the binary search for a bucket equals a linear
    scan; construction, recording and the reports never fail a check for the arguments accepted. The
    locale \<open>registry\<close> is the contract of a map that owns heap objects, interpreted on \<open>HistogramRecorder\<close>
    and, in \<open>Tracing\<close>, on \<open>TraceRecorder\<close>; \<open>FactoryGet\<close> is also proved under every interleaving of threads.
  \<^item> \<open>Tracing\<close>: the directory \<^verbatim>\<open>tracing\<close>. The live traces are exactly the registered ones.
  \<^item> \<open>Logs\<close>, \<open>Messages\<close>, \<open>Rolling\<close>: the directory \<^verbatim>\<open>logging\<close>. Buffers are never overrun, a message comes out as one line with
    its own time, the logger writes in order, and rolled files together hold all of the text.
  \<^item> \<open>Syscalls\<close>, \<open>Files\<close>: \<^verbatim>\<open>files/FileUtil\<close> over a model of the C library calls in which any call may fail.
  \<^item> \<open>Strings\<close>, \<open>Uri\<close>, \<open>Printf\<close>: the directory \<^verbatim>\<open>strings\<close>, with pieces as views of a block of memory, digit loops,
    URI escaping both ways and the loop around \<^verbatim>\<open>vsnprintf\<close>.
  \<^item> \<open>Readers\<close>, \<open>Paths\<close>, \<open>Lines\<close>, \<open>Dwarf\<close>, \<open>Elf\<close>, \<open>Symbolizer\<close>: the directory \<^verbatim>\<open>symbolizer\<close> and
    \<^verbatim>\<open>base/StackTrace.cc\<close>. Variable-length integers read back what their encoding wrote; the line-number machine on bytes
    refines one on instructions; lookups return the covering unit, row and symbol.
  \<^item> \<open>Protobuf\<close>: \<^verbatim>\<open>protobuf/ProtobufIO.cc\<close>, both directions over all field types, with a typing of messages that parsing keeps.

  \<^bold>\<open>State, failures, loops.\<close>

  Classes are records, operations return the updated record, and objects that are shared by pointer live in an
  explicit heap. An operation that can end the process, throw, or read outside its memory returns a sum whose left part is
  a \<open>failure\<close>; the build modelled is the debug build, in which \<^verbatim>\<open>DCHECK\<close> and \<^verbatim>\<open>assert\<close> are active. Concurrent parts
  are inductive step relations in which a critical section is one step; the mutex itself is modelled by its single writes.
  Histories (what was posted, accepted, sent) are fields that only the specifications read. No function carries
  fuel: loops end by structural recursion or by a measure that is proved, and the one loop whose end depends on code
  outside, the growing buffer of \<open>StringAppendV\<close>, is a partial function proved to return. Symbolic links are followed at
  most 40 times, the limit of the kernel. The host is a little-endian 64-bit one.

  \<^bold>\<open>What is a parameter.\<close>

  The floating-point operations (\<open>fp\<close>), \<^verbatim>\<open>vsnprintf\<close>, the text of doubles, the readings of the clock, random ids, what
  \<^verbatim>\<open>epoll_wait\<close> reports, which system calls fail, the bytes of mapped files, the demangler, \<^verbatim>\<open>backtrace\<close>,
  \<^verbatim>\<open>lexical_cast\<close> and the text writer and parser of rapidjson are arguments of the definitions that use them. What is assumed
  of them stands in the theorem.

  \<^bold>\<open>Not modelled.\<close>

  \<^verbatim>\<open>events/SignalSet\<close> does not compile as it stands: it uses names nothing declares, so it has no behaviour to model. Left
  out are also diagnostics written to the log about failures, ignoring \<^verbatim>\<open>SIGPIPE\<close> at start-up, the debugger cookies of log buffers, the
  destructors that only release descriptors, the texts printed before \<^verbatim>\<open>abort\<close> when a task throws, branch hints, and the test programs.
\<close>

end
